(* ===== verification/Prelude.thy ===== *)
theory Prelude
  imports Main "HOL-Library.Word"
begin

text \<open>
  Shared vocabulary of the development: the ways a C++ operation can fail (\<open>fault\<close>) and the
  result type that carries them, the parts of the C and C++ standard libraries the sources use
  (\<open>std::find\<close>, \<open>std::search\<close>, \<open>std::copy\<close>, \<open>std::string::substr\<close>, \<open>atoi\<close>, \<open>stoi\<close>,
  decimal printing, integer conversions), and the generic list lemmas the component theories
  share. Bytes are \<open>char\<close> (8 bits); a byte string is \<open>char list\<close>.
\<close>

named_theorems fault_simps \<open>unfolding of the result type\<close>
named_theorems bytes_simps \<open>slices and overwritten ranges of byte arrays\<close>

section \<open>Faults and results\<close>

datatype exn = LengthError | OutOfRange | InvalidArgument

datatype fault =
    OutOfBounds     \<comment> \<open>access outside an array or an allocation\<close>
  | NullPointer     \<comment> \<open>a null pointer is dereferenced or used as a range bound\<close>
  | WildPointer     \<comment> \<open>an uninitialised pointer is followed\<close>
  | UseAfterFree
  | Undefined       \<comment> \<open>other undefined behaviour (integer overflow, missing return)\<close>
  | Thrown exn      \<comment> \<open>a C++ exception the caller does not catch\<close>
  | Aborted         \<comment> \<open>\<open>LOG_FATAL\<close> calls \<open>abort()\<close>\<close>
  | Diverges        \<comment> \<open>a loop whose iterations change nothing any more\<close>

type_synonym 'a result = "fault + 'a"

definition bind_r :: "'a result \<Rightarrow> ('a \<Rightarrow> 'b result) \<Rightarrow> 'b result" where
  "bind_r m f = (case m of Inl e \<Rightarrow> Inl e | Inr x \<Rightarrow> f x)"

text \<open>The \<open>errno\<close> values the sources test for.\<close>

datatype errno = EWOULDBLOCK | EPIPE | ECONNRESET | EINTR | EMFILE | OtherErrno nat

section \<open>Machine integers\<close>

text \<open>Conversions between \<open>size_t\<close> (64 bits) and \<open>int\<close> (32 bits), as the compiler does them.\<close>

definition wrap64 :: "int \<Rightarrow> nat" where
  "wrap64 x = nat (x mod 2 ^ 64)"

definition to_int32 :: "int \<Rightarrow> int" where
  "to_int32 x = (x + 2 ^ 31) mod 2 ^ 32 - 2 ^ 31"

definition int32_ok :: "int \<Rightarrow> bool" where
  "int32_ok x \<longleftrightarrow> - (2 ^ 31) \<le> x \<and> x < 2 ^ 31"

text \<open>C++ division and remainder truncate towards zero.\<close>

definition tdiv :: "int \<Rightarrow> int \<Rightarrow> int" where
  "tdiv a b = sgn a * sgn b * (\<bar>a\<bar> div \<bar>b\<bar>)"

definition tmod :: "int \<Rightarrow> int \<Rightarrow> int" where
  "tmod a b = a - b * tdiv a b"

section \<open>Byte arrays\<close>

text \<open>\<open>subrange i j xs\<close> is the half-open range \<open>[i, j)\<close>; \<open>overwrite i ys xs\<close> is \<open>std::copy\<close> of
  \<open>ys\<close> to position \<open>i\<close> of \<open>xs\<close>.\<close>

definition subrange :: "nat \<Rightarrow> nat \<Rightarrow> 'a list \<Rightarrow> 'a list" where
  "subrange i j xs = take (j - i) (drop i xs)"

definition overwrite :: "nat \<Rightarrow> 'a list \<Rightarrow> 'a list \<Rightarrow> 'a list" where
  "overwrite i ys xs = take i xs @ ys @ drop (i + length ys) xs"

text \<open>\<open>std::find\<close> and \<open>std::search\<close> give the offset of the first match, the length of the range
  when there is none.\<close>

definition std_find :: "'a \<Rightarrow> 'a list \<Rightarrow> nat" where
  "std_find c xs = length (takeWhile (\<lambda>x. x \<noteq> c) xs)"

fun std_search :: "'a list \<Rightarrow> 'a list \<Rightarrow> nat" where
  "std_search p [] = 0"
| "std_search p (x # xs) = (if take (length p) (x # xs) = p then 0 else Suc (std_search p xs))"

section \<open>Strings\<close>

definition CR :: char where "CR = CHR 0x0D"
definition LF :: char where "LF = CHR 0x0A"
definition crlf :: string where "crlf = [CR, LF]"

text \<open>\<open>isspace\<close> in the C locale.\<close>

definition isspace :: "char \<Rightarrow> bool" where
  "isspace c \<longleftrightarrow> c \<in> {CHR '' '', CHR 0x09, CHR 0x0A, CHR 0x0B, CHR 0x0C, CHR 0x0D}"

definition digit_val :: "char \<Rightarrow> nat" where
  "digit_val c = of_char c - 48"

definition isdigit :: "char \<Rightarrow> bool" where
  "isdigit c \<longleftrightarrow> 48 \<le> (of_char c :: nat) \<and> (of_char c :: nat) \<le> 57"

definition digit_char :: "nat \<Rightarrow> char" where
  "digit_char d = char_of (48 + d)"

text \<open>Decimal printing, as \<open>std::to_string\<close> and \<open>\<percent>d\<close> do it.\<close>

fun show_nat :: "nat \<Rightarrow> string" where
  "show_nat n = (if n < 10 then [digit_char n] else show_nat (n div 10) @ [digit_char (n mod 10)])"

declare show_nat.simps [simp del]

definition show_int :: "int \<Rightarrow> string" where
  "show_int i = (if i < 0 then CHR ''-'' # show_nat (nat (- i)) else show_nat (nat i))"

text \<open>The number a run of digits denotes, most significant digit first.\<close>

definition digits_val :: "string \<Rightarrow> nat" where
  "digits_val s = foldl (\<lambda>n c. 10 * n + digit_val c) 0 s"

text \<open>
  The common part of \<open>atoi\<close> and \<open>stoi\<close> (\<open>strtol\<close>, base 10): leading white space, an optional
  sign, the longest run of digits. \<open>None\<close> when there is no digit.
\<close>

definition strtol10 :: "string \<Rightarrow> int option" where
  "strtol10 s =
     (let t = dropWhile isspace s;
          neg = (t \<noteq> [] \<and> hd t = CHR ''-'');
          u = (if t \<noteq> [] \<and> (hd t = CHR ''-'' \<or> hd t = CHR ''+'') then tl t else t);
          ds = takeWhile isdigit u
      in if ds = [] then None
         else Some (if neg then - int (digits_val ds) else int (digits_val ds)))"

text \<open>A C string ends at its first NUL.\<close>

definition c_str :: "string \<Rightarrow> string" where
  "c_str s = takeWhile (\<lambda>c. c \<noteq> CHR 0x00) s"

definition atoi :: "string \<Rightarrow> int result" where
  "atoi s = (case strtol10 (c_str s) of None \<Rightarrow> Inr 0
             | Some n \<Rightarrow> if int32_ok n then Inr n else Inl Undefined)"

definition stoi :: "string \<Rightarrow> int result" where
  "stoi s = (case strtol10 (c_str s) of None \<Rightarrow> Inl (Thrown InvalidArgument)
             | Some n \<Rightarrow> if int32_ok n then Inr n else Inl (Thrown OutOfRange))"

text \<open>
  \<open>std::string::find\<close>, \<open>find_last_of\<close> (\<open>None\<close> is \<open>npos\<close>) and \<open>substr\<close>, which throws when the
  start is past the end.
\<close>

definition str_find :: "string \<Rightarrow> string \<Rightarrow> nat option" where
  "str_find s p = (let i = std_search p s in if take (length p) (drop i s) = p then Some i else None)"

definition find_last_of :: "string \<Rightarrow> char \<Rightarrow> nat option" where
  "find_last_of s c = (if c \<in> set s then Some (length s - 1 - std_find c (rev s)) else None)"

definition substr_from :: "string \<Rightarrow> nat \<Rightarrow> string result" where
  "substr_from s pos = (if pos > length s then Inl (Thrown OutOfRange) else Inr (drop pos s))"

section \<open>Lemmas: results and integers\<close>

declare add_2_eq_Suc [simp del] add_2_eq_Suc' [simp del]

lemma CR_neq [simp]:
  "CR \<noteq> CHR '' ''" "CR \<noteq> CHR '':''" "CR \<noteq> CHR ''?''" "CR \<noteq> LF"
  "CHR '' '' \<noteq> CR" "CHR '':'' \<noteq> CR" "CHR ''?'' \<noteq> CR" "LF \<noteq> CR"
  by (simp_all add: CR_def LF_def)

lemma bind_r_simps [simp, fault_simps]:
  "bind_r (Inl e) f = Inl e" "bind_r (Inr x) f = f x"
  by (simp_all add: bind_r_def)

lemma bind_r_eq_Inr: "bind_r m f = Inr y \<longleftrightarrow> (\<exists>x. m = Inr x \<and> f x = Inr y)"
  by (cases m) auto

lemma bind_r_assoc: "bind_r (bind_r m f) g = bind_r m (\<lambda>x. bind_r (f x) g)"
  by (cases m) auto

lemma wrap64_id [simp]: "0 \<le> x \<Longrightarrow> x < 2 ^ 64 \<Longrightarrow> wrap64 x = nat x"
  by (simp add: wrap64_def)

lemma to_int32_id [simp]: "int32_ok x \<Longrightarrow> to_int32 x = x"
  by (simp add: to_int32_def int32_ok_def)

lemma to_int32_high: "2 ^ 31 \<le> x \<Longrightarrow> x < 2 ^ 32 \<Longrightarrow> to_int32 x = x - 2 ^ 32"
proof -
  assume a: "2 ^ 31 \<le> x" "x < 2 ^ 32"
  have "(x + 2 ^ 31) mod 2 ^ 32 = (x - 2 ^ 31 + 2 ^ 32) mod 2 ^ 32" by (simp add: add.commute)
  also have "\<dots> = (x - 2 ^ 31) mod 2 ^ 32" by (rule mod_add_self2)
  also have "\<dots> = x - 2 ^ 31" using a by (intro mod_pos_pos_trivial) auto
  finally show ?thesis by (simp add: to_int32_def)
qed

lemma wrap64_neg: "- (2 ^ 64) \<le> x \<Longrightarrow> x < 0 \<Longrightarrow> wrap64 x = nat (x + 2 ^ 64)"
proof -
  assume a: "- (2 ^ 64) \<le> x" "x < 0"
  have "x mod 2 ^ 64 = (x + 2 ^ 64) mod 2 ^ 64" by (rule mod_add_self2[symmetric])
  also have "\<dots> = x + 2 ^ 64" using a by (intro mod_pos_pos_trivial) auto
  finally show ?thesis by (simp add: wrap64_def)
qed

lemma tdiv_nonneg [simp]: "0 \<le> a \<Longrightarrow> 0 < b \<Longrightarrow> tdiv a b = a div b"
  by (cases "a = 0") (simp_all add: tdiv_def)

lemma tmod_nonneg [simp]: "0 \<le> a \<Longrightarrow> 0 < b \<Longrightarrow> tmod a b = a mod b"
  by (simp add: tmod_def minus_mult_div_eq_mod)

section \<open>Lemmas: slices\<close>

lemma length_subrange [simp]: "length (subrange i j xs) = min (j - i) (length xs - i)"
  by (simp add: subrange_def min.commute)

lemma subrange_all [simp]: "subrange 0 (length xs) xs = xs"
  by (simp add: subrange_def)

lemma subrange_Nil [simp]: "j \<le> i \<Longrightarrow> subrange i j xs = []"
  by (simp add: subrange_def)

lemma subrange_eq_Nil_iff: "subrange i j xs = [] \<longleftrightarrow> j \<le> i \<or> length xs \<le> i"
  by (auto simp: subrange_def)

lemma subrange_append_adj [bytes_simps]:
  "i \<le> j \<Longrightarrow> j \<le> k \<Longrightarrow> subrange i j xs @ subrange j k xs = subrange i k xs"
proof -
  assume ij: "i \<le> j" and jk: "j \<le> k"
  have "drop j xs = drop (j - i) (drop i xs)" using ij by simp
  moreover have "k - i = (j - i) + (k - j)" using ij jk by simp
  ultimately show ?thesis by (simp only: subrange_def take_add)
qed

lemma drop_subrange [simp]: "drop n (subrange i j xs) = subrange (i + n) j xs"
  by (simp add: subrange_def drop_take add.commute)

lemma take_subrange: "take n (subrange i j xs) = subrange i (min j (i + n)) xs"
proof -
  have "min j (i + n) - i = min n (j - i)" by arith
  then show ?thesis by (simp add: subrange_def)
qed

lemma length_overwrite [simp]:
  "i + length ys \<le> length xs \<Longrightarrow> length (overwrite i ys xs) = length xs"
  by (simp add: overwrite_def)

lemma overwrite_Nil [simp]: "i \<le> length xs \<Longrightarrow> overwrite i [] xs = xs"
  by (simp add: overwrite_def)

lemma subrange_overwrite_before [bytes_simps]:
  "j \<le> k \<Longrightarrow> k \<le> length xs \<Longrightarrow> subrange i j (overwrite k ys xs) = subrange i j xs"
  by (simp add: subrange_def overwrite_def drop_take min_absorb1)

lemma subrange_overwrite_at [bytes_simps]:
  "k + length ys \<le> length xs \<Longrightarrow> subrange k (k + length ys) (overwrite k ys xs) = ys"
  by (simp add: subrange_def overwrite_def)

lemma subrange_append_left [bytes_simps]:
  "j \<le> length xs \<Longrightarrow> subrange i j (xs @ ys) = subrange i j xs"
  by (simp add: subrange_def)

section \<open>Lemmas: searching\<close>

lemma std_find_le [simp]: "std_find c xs \<le> length xs"
  by (simp add: std_find_def length_takeWhile_le)

lemma take_std_find [simp]: "take (std_find c xs) xs = takeWhile (\<lambda>x. x \<noteq> c) xs"
  by (simp add: std_find_def takeWhile_eq_take[symmetric])

lemma std_find_append: "c \<notin> set xs \<Longrightarrow> std_find c (xs @ c # ys) = length xs"
  unfolding std_find_def by (induction xs) auto

lemma std_find_absent: "c \<notin> set xs \<Longrightarrow> std_find c xs = length xs"
  unfolding std_find_def by (induction xs) auto

lemma std_find_eq_length_iff: "std_find c xs = length xs \<longleftrightarrow> c \<notin> set xs"
  by (induction xs) (auto simp: std_find_def)

lemma std_search_le: "std_search p xs \<le> length xs"
  by (induction p xs rule: std_search.induct) auto

lemma std_search_match:
  "p \<noteq> [] \<Longrightarrow> std_search p xs < length xs \<Longrightarrow>
     take (length p) (drop (std_search p xs) xs) = p"
  by (induction p xs rule: std_search.induct) (auto split: if_splits)

lemma std_search_first:
  "j < std_search p xs \<Longrightarrow> take (length p) (drop j xs) \<noteq> p"
proof (induction p xs arbitrary: j rule: std_search.induct)
  case (2 p x xs)
  then show ?case by (cases j) (auto split: if_splits)
qed simp

lemma std_search_least:
  assumes "take (length p) (drop i xs) = p" "i < length xs"
    and "\<And>j. j < i \<Longrightarrow> take (length p) (drop j xs) \<noteq> p"
  shows "std_search p xs = i"
  using assms
proof (induction p xs arbitrary: i rule: std_search.induct)
  case (2 p x xs)
  show ?case
  proof (cases i)
    case 0
    with "2.prems"(1) show ?thesis by simp
  next
    case (Suc k)
    from "2.prems"(3)[of 0] Suc have ne: "take (length p) (x # xs) \<noteq> p" by simp
    have "std_search p xs = k"
    proof (rule "2.IH"[OF ne])
      show "take (length p) (drop k xs) = p" "k < length xs" using "2.prems" Suc by simp_all
      show "take (length p) (drop j xs) \<noteq> p" if "j < k" for j
        using "2.prems"(3)[of "Suc j"] that Suc by simp
    qed
    with ne Suc show ?thesis by simp
  qed
qed simp

section \<open>Lemmas: decimal numbers\<close>

lemma isdigit_digit_char [simp]: "d < 10 \<Longrightarrow> isdigit (digit_char d)"
  by (simp add: isdigit_def digit_char_def)

lemma digit_val_digit_char [simp]: "d < 10 \<Longrightarrow> digit_val (digit_char d) = d"
  by (simp add: digit_val_def digit_char_def)

lemma digits_val_snoc: "digits_val (s @ [c]) = 10 * digits_val s + digit_val c"
  by (simp add: digits_val_def)

lemma show_nat_nonempty [simp]: "show_nat n \<noteq> []"
  by (subst show_nat.simps) simp

lemma length_show_nat: "n < 10 ^ k \<Longrightarrow> 0 < k \<Longrightarrow> length (show_nat n) \<le> k"
proof (induction k arbitrary: n)
  case (Suc k)
  show ?case
  proof (cases "n < 10")
    case True
    then show ?thesis by (subst show_nat.simps) simp
  next
    case False
    with Suc.prems have "n div 10 < 10 ^ k" "0 < k" by (auto intro: Nat.gr0I)
    with Suc.IH False show ?thesis by (subst show_nat.simps) simp
  qed
qed simp

lemma show_nat_digits: "c \<in> set (show_nat n) \<Longrightarrow> isdigit c"
proof (induction n rule: show_nat.induct)
  case (1 n)
  then show ?case by (subst (asm) show_nat.simps) (auto split: if_splits)
qed

lemma digits_val_show_nat [simp]: "digits_val (show_nat n) = n"
proof (induction n rule: show_nat.induct)
  case (1 n)
  show ?case
  proof (cases "n < 10")
    case True
    then show ?thesis by (subst show_nat.simps) (simp add: digits_val_def)
  next
    case False
    with 1 show ?thesis by (subst show_nat.simps) (simp add: digits_val_snoc)
  qed
qed

lemma isdigit_not [simp]:
  "isdigit c \<Longrightarrow> \<not> isspace c" "isdigit c \<Longrightarrow> c \<noteq> CHR ''-''" "isdigit c \<Longrightarrow> c \<noteq> CHR ''+''"
  "isdigit c \<Longrightarrow> c \<noteq> CHR 0x00"
  by (auto simp: isdigit_def isspace_def)

lemma takeWhile_show_nat: "takeWhile isdigit (show_nat n @ s) = show_nat n @ takeWhile isdigit s"
  using show_nat_digits by (auto intro: takeWhile_append2)

lemma hd_show_nat: "isdigit (hd (show_nat n))"
  using show_nat_digits[of "hd (show_nat n)" n] by simp

lemma dropWhile_isspace_show_nat [simp]: "dropWhile isspace (show_nat n @ s) = show_nat n @ s"
proof (cases "show_nat n")
  case (Cons c cs)
  then have "\<not> isspace c" using hd_show_nat[of n] by simp
  with Cons show ?thesis by simp
qed simp

text \<open>Reading a printed number gives the number back, whatever non-digit follows it.\<close>

lemma strtol10_show_nat:
  assumes "s = [] \<or> \<not> isdigit (hd s)"
  shows "strtol10 (show_nat n @ s) = Some (int n)"
proof -
  have ne: "show_nat n @ s \<noteq> []" by simp
  have h: "isdigit (hd (show_nat n @ s))" using hd_show_nat[of n] by simp
  have "takeWhile isdigit s = []" using assms by (cases s) auto
  with ne h show ?thesis by (simp add: strtol10_def Let_def takeWhile_show_nat)
qed

lemma c_str_show_nat [simp]: "c_str (show_nat n) = show_nat n"
proof -
  have "\<forall>c \<in> set (show_nat n). c \<noteq> CHR 0x00" using show_nat_digits[of _ n] isdigit_not(4) by blast
  then show ?thesis by (simp add: c_str_def takeWhile_eq_all_conv)
qed

lemma atoi_show_nat: "n < 2 ^ 31 \<Longrightarrow> atoi (show_nat n) = Inr (int n)"
  using strtol10_show_nat[of "[]" n] by (simp add: atoi_def int32_ok_def)

lemma stoi_show_nat: "n < 2 ^ 31 \<Longrightarrow> stoi (show_nat n) = Inr (int n)"
  using strtol10_show_nat[of "[]" n] by (simp add: stoi_def int32_ok_def)

end
