(* ===== verification/Net_Buffer.thy ===== *)
theory Net_Buffer
  imports Prelude
begin

text \<open>
  \<open>src/src/net/Buffer.h\<close> and \<open>Buffer.cc\<close>: the growable byte queue every connection owns twice.
  The vector \<open>buffer_\<close> is the list \<open>buf_data\<close>; \<open>readerIndex_\<close> and \<open>writerIndex_\<close> are naturals
  (the invariant \<open>buffer_inv\<close> shows that the \<open>size_t\<close> differences the code takes never wrap).
  A pointer into the vector is its index. \<open>readv\<close> and \<open>write\<close> are inputs: what the kernel
  returned. The interface other components rely on is the locale \<open>byte_queue\<close>, interpreted on
  these operations at the end.
\<close>

section \<open>State and operations\<close>

record Buffer =
  buf_data :: "char list"
  readerIndex :: nat
  writerIndex :: nat

definition kCheapPrepend :: nat where "kCheapPrepend = 8"
definition kInitialSize :: nat where "kInitialSize = 1024"

text \<open>\<open>std::vector<char>::max_size()\<close> and the size of the stack buffer of \<open>readFd\<close>.\<close>

definition vector_max_size :: nat where "vector_max_size = 2 ^ 63 - 1"
definition extrabuf_size :: nat where "extrabuf_size = 65536"

definition new_Buffer :: "nat \<Rightarrow> Buffer" where
  "new_Buffer initialSize =
     \<lparr>buf_data = replicate (kCheapPrepend + initialSize) (CHR 0x00),
      readerIndex = kCheapPrepend, writerIndex = kCheapPrepend\<rparr>"

definition readableBytes :: "Buffer \<Rightarrow> nat" where
  "readableBytes b = writerIndex b - readerIndex b"

definition writableBytes :: "Buffer \<Rightarrow> nat" where
  "writableBytes b = length (buf_data b) - writerIndex b"

definition prependableBytes :: "Buffer \<Rightarrow> nat" where
  "prependableBytes b = readerIndex b"

text \<open>Moving the reader below the start of the vector makes the copy write out of bounds.\<close>

definition prepend :: "char list \<Rightarrow> Buffer \<Rightarrow> Buffer result" where
  "prepend d b =
     (if length d > readerIndex b then Inl OutOfBounds
      else let r = readerIndex b - length d in
        Inr (b\<lparr>readerIndex := r, buf_data := overwrite r d (buf_data b)\<rparr>))"

text \<open>\<open>*(peek() + i)\<close>: any byte of the vector may be read, also one past \<open>writerIndex_\<close>.\<close>

definition peek_at :: "nat \<Rightarrow> Buffer \<Rightarrow> char result" where
  "peek_at i b = (if readerIndex b + i < length (buf_data b)
                  then Inr (buf_data b ! (readerIndex b + i)) else Inl OutOfBounds)"

definition retrieveAll :: "Buffer \<Rightarrow> Buffer" where
  "retrieveAll b = b\<lparr>readerIndex := kCheapPrepend, writerIndex := kCheapPrepend\<rparr>"

definition retrieve :: "nat \<Rightarrow> Buffer \<Rightarrow> Buffer" where
  "retrieve len b = (if len < readableBytes b then b\<lparr>readerIndex := readerIndex b + len\<rparr>
                     else retrieveAll b)"

text \<open>
  \<open>end - peek()\<close> is a signed difference converted to \<open>size_t\<close>: below \<open>peek()\<close> it becomes a huge
  length. (Pointers into one vector are less than \<open>2^63\<close> apart, so forward it does not wrap.)
\<close>

definition retrieveUntil :: "nat \<Rightarrow> Buffer \<Rightarrow> Buffer" where
  "retrieveUntil e b =
     (if e < readerIndex b then retrieve (wrap64 (int e - int (readerIndex b))) b
      else retrieve (e - readerIndex b) b)"

text \<open>\<open>std::string(peek(), len)\<close>.\<close>

definition string_at_peek :: "nat \<Rightarrow> Buffer \<Rightarrow> string result" where
  "string_at_peek len b =
     (if readerIndex b + len \<le> length (buf_data b)
      then Inr (subrange (readerIndex b) (readerIndex b + len) (buf_data b)) else Inl OutOfBounds)"

definition GetBufferAllAsString :: "Buffer \<Rightarrow> string result" where
  "GetBufferAllAsString b = string_at_peek (readableBytes b) b"

definition retrieveAsString :: "nat \<Rightarrow> Buffer \<Rightarrow> (string \<times> Buffer) result" where
  "retrieveAsString len b =
     bind_r (string_at_peek len b) (\<lambda>result. Inr (result, retrieve len b))"

definition retrieveAllAsString :: "Buffer \<Rightarrow> (string \<times> Buffer) result" where
  "retrieveAllAsString b = retrieveAsString (readableBytes b) b"

text \<open>\<open>vector::resize(n)\<close>: too large a size throws, new elements are zero.\<close>

definition resize_data :: "nat \<Rightarrow> Buffer \<Rightarrow> Buffer result" where
  "resize_data n b =
     (if n > vector_max_size then Inl (Thrown LengthError)
      else Inr (b\<lparr>buf_data := take n (buf_data b) @
                              replicate (n - length (buf_data b)) (CHR 0x00)\<rparr>))"

text \<open>
  The parameter of \<open>makeSpace\<close> is an \<open>int\<close>, converted back to \<open>size_t\<close> where it is added to one.
  Copying a range to a place inside itself is undefined for \<open>std::copy\<close>.
\<close>

definition makeSpace :: "int \<Rightarrow> Buffer \<Rightarrow> Buffer result" where
  "makeSpace len b =
     (if writableBytes b + prependableBytes b < wrap64 (len + int kCheapPrepend)
      then resize_data (wrap64 (int (writerIndex b) + len)) b
      else if readerIndex b < kCheapPrepend \<and> kCheapPrepend < writerIndex b then Inl Undefined
      else let readable = readableBytes b in
        Inr (b\<lparr>buf_data := overwrite kCheapPrepend
                              (subrange (readerIndex b) (writerIndex b) (buf_data b)) (buf_data b),
               readerIndex := kCheapPrepend,
               writerIndex := kCheapPrepend + readable\<rparr>))"

definition ensureWritableBytes :: "nat \<Rightarrow> Buffer \<Rightarrow> Buffer result" where
  "ensureWritableBytes len b =
     (if writableBytes b < len then makeSpace (to_int32 (int len)) b else Inr b)"

definition Buffer_append :: "char list \<Rightarrow> Buffer \<Rightarrow> Buffer result" where
  "Buffer_append d b =
     bind_r (ensureWritableBytes (length d) b) (\<lambda>b1.
       if writerIndex b1 + length d \<le> length (buf_data b1)
       then Inr (b1\<lparr>buf_data := overwrite (writerIndex b1) d (buf_data b1),
                    writerIndex := writerIndex b1 + length d\<rparr>)
       else Inl OutOfBounds)"

text \<open>\<open>None\<close> is the null pointer; \<open>Some i\<close> is the pointer \<open>peek() + i\<close>.\<close>

definition findCRLF :: "Buffer \<Rightarrow> nat option" where
  "findCRLF b =
     (let range = subrange (readerIndex b) (writerIndex b) (buf_data b);
          i = std_search crlf range
      in if i = length range then None else Some i)"

text \<open>
  \<open>readv\<close> fills the writable part of the vector first and \<open>extrabuf\<close> with the rest. The result
  is the return value, the saved \<open>errno\<close> and the buffer.
\<close>

datatype readv_result = ReadvOk "char list" | ReadvErr errno

fun readFd :: "readv_result \<Rightarrow> Buffer \<Rightarrow> (int \<times> errno option \<times> Buffer) result" where
  "readFd (ReadvErr e) b = Inr (-1, Some e, b)"
| "readFd (ReadvOk bs) b =
     (let writable = writableBytes b; n = length bs in
      if n \<le> writable
      then Inr (int n, None, b\<lparr>buf_data := overwrite (writerIndex b) bs (buf_data b),
                               writerIndex := writerIndex b + n\<rparr>)
      else bind_r (Buffer_append (drop writable bs)
                     (b\<lparr>buf_data := overwrite (writerIndex b) (take writable bs) (buf_data b),
                        writerIndex := length (buf_data b)\<rparr>))
             (\<lambda>b'. Inr (int n, None, b')))"

declare readFd.simps [simp del]

text \<open>What \<open>readv\<close> may return: no more than the \<open>iovcnt\<close> ranges it is given can hold.\<close>

definition readv_fits :: "Buffer \<Rightarrow> char list \<Rightarrow> bool" where
  "readv_fits b bs \<longleftrightarrow>
     length bs \<le> (if writableBytes b < extrabuf_size
                    then writableBytes b + extrabuf_size else writableBytes b)"

text \<open>
  \<open>write(fd, peek(), readableBytes())\<close>: the return value, the saved \<open>errno\<close> and the bytes the
  kernel took, which are the first \<open>n\<close> it was offered.
\<close>

datatype write_result = WriteOk nat | WriteErr errno

fun writeFd :: "write_result \<Rightarrow> Buffer \<Rightarrow> (int \<times> errno option \<times> char list) result" where
  "writeFd (WriteErr e) b = Inr (-1, Some e, [])"
| "writeFd (WriteOk n) b =
     bind_r (string_at_peek (readableBytes b) b) (\<lambda>offered. Inr (int n, None, take n offered))"

section \<open>Invariant and abstraction\<close>

text \<open>The layout drawn at the top of \<open>Buffer.h\<close>, and the readable bytes as a list.\<close>

definition buffer_inv :: "Buffer \<Rightarrow> bool" where
  "buffer_inv b \<longleftrightarrow> readerIndex b \<le> writerIndex b \<and> writerIndex b \<le> length (buf_data b) \<and>
     kCheapPrepend \<le> writerIndex b \<and> length (buf_data b) \<le> vector_max_size"

definition content :: "Buffer \<Rightarrow> char list" where
  "content b = subrange (readerIndex b) (writerIndex b) (buf_data b)"

text \<open>A buffer that holds exactly the given bytes, for concrete examples.\<close>

definition buffer_of :: "char list \<Rightarrow> Buffer" where
  "buffer_of s = \<lparr>buf_data = replicate 8 (CHR 0x00) @ s, readerIndex = 8, writerIndex = 8 + length s\<rparr>"

text \<open>Repeated appends, as a caller that assembles a message makes them.\<close>

fun append_all :: "(char list \<Rightarrow> 'b \<Rightarrow> 'b result) \<Rightarrow> char list list \<Rightarrow> 'b \<Rightarrow> 'b result" where
  "append_all put [] b = Inr b"
| "append_all put (d # ds) b = bind_r (put d b) (append_all put ds)"

section \<open>The interface of a byte queue\<close>

text \<open>
  What the clients of \<open>Buffer\<close> use: bytes are appended at the back and taken from the front, and
  an append of less than 2 GiB succeeds while the storage stays within the vector's limit
  (\<open>extent\<close> bounds how much storage the next append can need).
\<close>

locale byte_queue =
  fixes invar :: "'b \<Rightarrow> bool"
    and bytes :: "'b \<Rightarrow> char list"
    and extent :: "'b \<Rightarrow> nat"
    and put :: "char list \<Rightarrow> 'b \<Rightarrow> 'b result"
    and discard :: "nat \<Rightarrow> 'b \<Rightarrow> 'b"
  assumes put_ok: "invar b \<Longrightarrow> length d < 2 ^ 31 \<Longrightarrow> extent b + length d \<le> vector_max_size \<Longrightarrow>
      \<exists>b'. put d b = Inr b' \<and> invar b' \<and> bytes b' = bytes b @ d \<and> extent b' \<le> extent b + length d"
    and discard_invar: "invar b \<Longrightarrow> invar (discard n b)"
    and discard_bytes: "invar b \<Longrightarrow> bytes (discard n b) = drop n (bytes b)"
    and discard_extent: "invar b \<Longrightarrow> extent (discard n b) \<le> extent b"
begin

lemma append_all_ok:
  assumes "invar b" "length (concat ds) < 2 ^ 31" "extent b + length (concat ds) \<le> vector_max_size"
  shows "\<exists>b'. append_all put ds b = Inr b' \<and> invar b' \<and> bytes b' = bytes b @ concat ds \<and>
              extent b' \<le> extent b + length (concat ds)"
  using assms
proof (induction ds arbitrary: b)
  case (Cons d ds)
  from Cons.prems obtain b1 where b1: "put d b = Inr b1" "invar b1" "bytes b1 = bytes b @ d"
    "extent b1 \<le> extent b + length d" using put_ok[of b d] by auto
  with Cons.prems Cons.IH[of b1] show ?case by fastforce
qed simp

lemma put_then_discard:
  assumes "invar b" "length d < 2 ^ 31" "extent b + length d \<le> vector_max_size"
  shows "\<exists>b'. put d b = Inr b' \<and> bytes (discard (length (bytes b)) b') = d"
  using put_ok[OF assms] by (auto simp: discard_bytes)

lemma discard_discard: "invar b \<Longrightarrow> bytes (discard m (discard n b)) = bytes (discard (n + m) b)"
  by (simp add: discard_bytes discard_invar add.commute)

end

text \<open>
  A queue that can also look for the end of a line, as the request parser reads it: what comes
  before the first CR LF is one line, and discarding it with its terminator leaves the rest.
\<close>

locale line_queue = byte_queue +
  fixes eol :: "'b \<Rightarrow> nat option"
  assumes eol_Some: "eol b = Some i \<longleftrightarrow>
      take 2 (drop i (bytes b)) = crlf \<and> (\<forall>j < i. take 2 (drop j (bytes b)) \<noteq> crlf)"
begin

lemma line_eol:
  assumes "CR \<notin> set line" "bytes b = line @ crlf @ rest"
  shows "eol b = Some (length line)"
proof -
  have "take 2 (drop j (line @ crlf @ rest)) \<noteq> crlf" if "j < length line" for j
  proof -
    have "drop j (line @ crlf @ rest) = line ! j # drop (Suc j) (line @ crlf @ rest)"
      using that by (simp add: Cons_nth_drop_Suc[symmetric])
    moreover have "line ! j \<noteq> CR" using that assms(1) nth_mem by metis
    ultimately show ?thesis by (simp add: crlf_def numeral_2_eq_2)
  qed
  then show ?thesis unfolding eol_Some assms(2) by (simp add: crlf_def)
qed

lemma line_rest:
  assumes "invar b" "bytes b = line @ crlf @ rest"
  shows "invar (discard (length line + 2) b)" "bytes (discard (length line + 2) b) = rest"
  using assms by (simp_all add: discard_invar discard_bytes crlf_def)

lemma eol_within: "eol b = Some i \<Longrightarrow> i + 2 \<le> length (bytes b)"
proof -
  assume "eol b = Some i"
  then have "length (take 2 (drop i (bytes b))) = length crlf" by (simp only: eol_Some)
  then show ?thesis by (simp add: crlf_def)
qed

end

section \<open>Lemmas\<close>

lemmas buffer_defs = buffer_inv_def content_def readableBytes_def writableBytes_def
  prependableBytes_def kCheapPrepend_def

lemma new_Buffer_inv: "n + 8 \<le> vector_max_size \<Longrightarrow> buffer_inv (new_Buffer n)"
  by (simp add: buffer_defs new_Buffer_def)

lemma new_Buffer_sel [simp]:
  "writerIndex (new_Buffer n) = 8" "length (buf_data (new_Buffer n)) = 8 + n"
  "writableBytes (new_Buffer n) = n"
  by (simp_all add: new_Buffer_def writableBytes_def kCheapPrepend_def)

lemma new_Buffer_content [simp]: "content (new_Buffer n) = []"
  by (simp add: content_def new_Buffer_def)

lemma length_content [simp]: "buffer_inv b \<Longrightarrow> length (content b) = readableBytes b"
  by (auto simp: buffer_defs)

lemma buffer_of_simps [simp]:
  "length s < 2 ^ 62 \<Longrightarrow> buffer_inv (buffer_of s)" "content (buffer_of s) = s"
  "writerIndex (buffer_of s) = 8 + length s"
  by (simp_all add: buffer_of_def buffer_inv_def content_def subrange_def kCheapPrepend_def
        vector_max_size_def)

lemma retrieve_inv [simp]: "buffer_inv b \<Longrightarrow> buffer_inv (retrieve n b)"
  by (auto simp: retrieve_def retrieveAll_def buffer_defs)

lemma retrieve_content [simp]: "buffer_inv b \<Longrightarrow> content (retrieve n b) = drop n (content b)"
  by (auto simp: retrieve_def retrieveAll_def buffer_defs)

lemma retrieve_writer: "buffer_inv b \<Longrightarrow> writerIndex (retrieve n b) \<le> writerIndex b"
  by (auto simp: retrieve_def retrieveAll_def buffer_defs)

lemma retrieveUntil_ahead [simp]: "retrieveUntil (readerIndex b + i) b = retrieve i b"
  by (simp add: retrieveUntil_def)

lemma retrieve_shrinks: "0 < n \<Longrightarrow> content b \<noteq> [] \<Longrightarrow> length (content (retrieve n b)) < length (content b)"
  by (auto simp: retrieve_def retrieveAll_def content_def readableBytes_def subrange_eq_Nil_iff)

lemma string_at_peek_readable:
  "buffer_inv b \<Longrightarrow> n \<le> readableBytes b \<Longrightarrow> string_at_peek n b = Inr (take n (content b))"
  by (auto simp: string_at_peek_def buffer_defs take_subrange min_absorb2)

lemma makeSpace_ok:
  assumes "buffer_inv b" "len < 2 ^ 31" "writableBytes b < len"
    and "writerIndex b + len \<le> vector_max_size"
  shows "\<exists>b1. makeSpace (int len) b = Inr b1 \<and> buffer_inv b1 \<and> content b1 = content b \<and>
            writerIndex b1 + len \<le> length (buf_data b1) \<and> writerIndex b1 \<le> writerIndex b"
proof -
  have w8: "wrap64 (int len + int kCheapPrepend) = len + 8"
    using assms(2) by (simp add: kCheapPrepend_def nat_add_distrib)
  have wl: "wrap64 (int (writerIndex b) + int len) = writerIndex b + len"
    using assms(2,4) by (simp add: vector_max_size_def nat_add_distrib)
  show ?thesis
  proof (cases "writableBytes b + prependableBytes b < len + 8")
    case True
    then show ?thesis using assms w8 wl
      by (auto simp: makeSpace_def resize_data_def buffer_defs bytes_simps)
  next
    case False
    define d where "d = subrange (readerIndex b) (writerIndex b) (buf_data b)"
    have "8 < readerIndex b" using False assms by (simp add: buffer_defs)
    moreover have "length d = writerIndex b - readerIndex b" using assms(1) by (auto simp: d_def buffer_defs)
    ultimately show ?thesis using False assms w8
      subrange_overwrite_at[of 8 d "buf_data b"]
      by (auto simp: makeSpace_def buffer_defs d_def[symmetric] Let_def)
  qed
qed

lemma append_ok:
  assumes "buffer_inv b" "length d < 2 ^ 31" "writerIndex b + length d \<le> vector_max_size"
  shows "\<exists>b'. Buffer_append d b = Inr b' \<and> buffer_inv b' \<and> content b' = content b @ d \<and>
              writerIndex b' \<le> writerIndex b + length d"
proof -
  have "int32_ok (int (length d))" using assms(2) by (simp add: int32_ok_def)
  then obtain b1 where b1: "ensureWritableBytes (length d) b = Inr b1" "buffer_inv b1"
      "content b1 = content b" "writerIndex b1 + length d \<le> length (buf_data b1)"
      "writerIndex b1 \<le> writerIndex b"
    using assms makeSpace_ok[of b "length d"]
    by (cases "writableBytes b < length d") (auto simp: ensureWritableBytes_def writableBytes_def buffer_inv_def)
  define b' where "b' = b1\<lparr>buf_data := overwrite (writerIndex b1) d (buf_data b1),
                           writerIndex := writerIndex b1 + length d\<rparr>"
  have "content b' = subrange (readerIndex b1) (writerIndex b1) (buf_data b') @
          subrange (writerIndex b1) (writerIndex b1 + length d) (buf_data b')"
    using b1(2) by (simp add: b'_def content_def subrange_append_adj buffer_inv_def)
  then have "content b' = content b @ d"
    using b1 by (simp add: b'_def content_def bytes_simps)
  moreover have "Buffer_append d b = Inr b'" "buffer_inv b'" using b1 by (simp_all add: Buffer_append_def b'_def buffer_inv_def)
  ultimately show ?thesis using b1 by (auto simp: b'_def)
qed

interpretation bq: byte_queue buffer_inv content writerIndex Buffer_append retrieve
proof (unfold_locales, goal_cases)
  case (1 b d)
  then show ?case by (rule append_ok)
next
  case (2 b n)
  then show ?case by simp
next
  case (3 b n)
  then show ?case by simp
next
  case (4 b n)
  then show ?case by (rule retrieve_writer)
qed

lemma crlf_nonempty [simp]: "crlf \<noteq> []" "length crlf = 2"
  by (simp_all add: crlf_def)

lemma findCRLF_Some:
  "findCRLF b = Some i \<longleftrightarrow>
     take 2 (drop i (content b)) = crlf \<and> (\<forall>j < i. take 2 (drop j (content b)) \<noteq> crlf)"
proof
  assume "findCRLF b = Some i"
  then have i: "i = std_search crlf (content b)" "i < length (content b)"
    using std_search_le[of crlf "content b"]
    by (auto simp: findCRLF_def content_def Let_def split: if_splits)
  then show "take 2 (drop i (content b)) = crlf \<and> (\<forall>j < i. take 2 (drop j (content b)) \<noteq> crlf)"
    using std_search_match[of crlf "content b"] std_search_first[of _ crlf "content b"] by auto
next
  assume a: "take 2 (drop i (content b)) = crlf \<and> (\<forall>j < i. take 2 (drop j (content b)) \<noteq> crlf)"
  then have "i < length (content b)" by (metis crlf_nonempty(1) drop_all linorder_not_less take_Nil)
  with a have "std_search crlf (content b) = i" by (intro std_search_least) auto
  with \<open>i < length (content b)\<close> show "findCRLF b = Some i"
    by (auto simp: findCRLF_def content_def Let_def)
qed

lemma findCRLF_None: "findCRLF b = None \<longleftrightarrow> (\<forall>j. take 2 (drop j (content b)) \<noteq> crlf)"
proof
  assume none: "findCRLF b = None"
  then have "std_search crlf (content b) = length (content b)"
    by (auto simp: findCRLF_def content_def Let_def split: if_splits)
  then have "take 2 (drop j (content b)) \<noteq> crlf" if "j < length (content b)" for j
    using that std_search_first[of j crlf "content b"] by simp
  then show "\<forall>j. take 2 (drop j (content b)) \<noteq> crlf"
    by (metis crlf_nonempty(1) drop_all linorder_not_less take_Nil)
next
  assume "\<forall>j. take 2 (drop j (content b)) \<noteq> crlf"
  then show "findCRLF b = None" using findCRLF_Some[of b] by (cases "findCRLF b") auto
qed

interpretation lq: line_queue buffer_inv content writerIndex Buffer_append retrieve findCRLF
  by unfold_locales (rule findCRLF_Some)

section \<open>Properties\<close>

text \<open>The operations a client interleaves, and the queue of bytes they implement.\<close>

datatype buf_op = Put "char list" | Take nat

fun run_ops :: "buf_op list \<Rightarrow> Buffer \<Rightarrow> Buffer result" where
  "run_ops [] b = Inr b"
| "run_ops (Put d # ops) b = bind_r (Buffer_append d b) (run_ops ops)"
| "run_ops (Take n # ops) b = run_ops ops (retrieve n b)"

fun spec_ops :: "buf_op list \<Rightarrow> char list \<Rightarrow> char list" where
  "spec_ops [] q = q"
| "spec_ops (Put d # ops) q = spec_ops ops (q @ d)"
| "spec_ops (Take n # ops) q = spec_ops ops (drop n q)"

fun ops_bytes :: "buf_op list \<Rightarrow> nat" where
  "ops_bytes [] = 0"
| "ops_bytes (Put d # ops) = length d + ops_bytes ops"
| "ops_bytes (Take n # ops) = ops_bytes ops"

lemma run_ops_refines:
  "buffer_inv b \<Longrightarrow> ops_bytes ops < 2 ^ 31 \<Longrightarrow> writerIndex b + ops_bytes ops \<le> vector_max_size \<Longrightarrow>
     \<exists>b'. run_ops ops b = Inr b' \<and> buffer_inv b' \<and> content b' = spec_ops ops (content b)"
proof (induction ops b rule: run_ops.induct)
  case (2 d ops b)
  then obtain b1 where b1: "Buffer_append d b = Inr b1" "buffer_inv b1" "content b1 = content b @ d"
    "writerIndex b1 \<le> writerIndex b + length d" using bq.put_ok[of b d] by auto
  from "2.prems" b1(4) have "writerIndex b1 + ops_bytes ops \<le> vector_max_size" by simp
  with "2.IH"[of b1] "2.prems" b1 show ?case by simp
next
  case (3 n ops b)
  then show ?case using bq.discard_extent[of b n] by (auto simp: bq.discard_bytes)
qed simp

lemma readFd_overflow:
  assumes "buffer_inv b" "readv_fits b bs" "\<not> length bs \<le> writableBytes b"
    and "length (buf_data b) + extrabuf_size \<le> vector_max_size"
  shows "\<exists>b'. readFd (ReadvOk bs) b = Inr (int (length bs), None, b') \<and> buffer_inv b' \<and>
              content b' = content b @ bs"
proof -
  define w where "w = writableBytes b"
  define b1 where "b1 = b\<lparr>buf_data := overwrite (writerIndex b) (take w bs) (buf_data b),
                            writerIndex := length (buf_data b)\<rparr>"
  have wl: "writerIndex b + length (take w bs) = length (buf_data b)"
    using assms(1,3) by (auto simp: w_def writableBytes_def buffer_inv_def min_def)
  have inv1: "buffer_inv b1" using assms(1) wl by (simp add: b1_def buffer_inv_def)
  have "content b1 = subrange (readerIndex b) (writerIndex b) (buf_data b1) @
          subrange (writerIndex b) (writerIndex b + length (take w bs)) (buf_data b1)"
    unfolding wl using assms(1) wl by (simp add: b1_def content_def subrange_append_adj buffer_inv_def)
  also have "\<dots> = content b @ take w bs"
    using assms(1) wl subrange_overwrite_at[of "writerIndex b" "take w bs" "buf_data b"]
    by (simp add: b1_def content_def subrange_overwrite_before buffer_inv_def)
  finally have c1: "content b1 = content b @ take w bs" .
  have "length (drop w bs) \<le> 65536"
    using assms(2,3) by (auto simp: readv_fits_def w_def extrabuf_size_def split: if_splits)
  then obtain b' where "Buffer_append (drop w bs) b1 = Inr b'" "buffer_inv b'"
      "content b' = content b1 @ drop w bs"
    using append_ok[OF inv1, of "drop w bs"] assms(4) by (auto simp: b1_def extrabuf_size_def)
  with assms(3) c1 show ?thesis
    by (auto simp: readFd.simps b1_def w_def Let_def)
qed

lemma readFd_direct:
  assumes "buffer_inv b" "length bs \<le> writableBytes b"
  shows "\<exists>b'. readFd (ReadvOk bs) b = Inr (int (length bs), None, b') \<and> buffer_inv b' \<and>
              content b' = content b @ bs"
proof -
  define b1 where "b1 = b\<lparr>buf_data := overwrite (writerIndex b) bs (buf_data b),
                            writerIndex := writerIndex b + length bs\<rparr>"
  have wl: "writerIndex b + length bs \<le> length (buf_data b)"
    using assms by (auto simp: writableBytes_def buffer_inv_def)
  have "content b1 = subrange (readerIndex b) (writerIndex b) (buf_data b1) @
          subrange (writerIndex b) (writerIndex b + length bs) (buf_data b1)"
    using assms(1) by (simp add: b1_def content_def subrange_append_adj buffer_inv_def)
  then have "content b1 = content b @ bs" "buffer_inv b1"
    using assms(1) wl by (simp_all add: b1_def content_def bytes_simps buffer_inv_def)
  with assms(2) show ?thesis by (auto simp: b1_def readFd.simps Let_def)
qed

lemma readFd_ok:
  assumes "buffer_inv b" "readv_fits b bs" "length (buf_data b) + extrabuf_size \<le> vector_max_size"
  shows "\<exists>b'. readFd (ReadvOk bs) b = Inr (int (length bs), None, b') \<and> buffer_inv b' \<and>
              content b' = content b @ bs"
  using assms readFd_direct[of b bs] readFd_overflow[of b bs]
  by (cases "length bs \<le> writableBytes b") auto

text \<open>
  C26: \<open>readFd\<close> loses nothing and reorders nothing: whatever \<open>readv\<close> delivered, into the vector
  alone or into the vector and the stack buffer, is appended to the readable bytes, and the
  layout invariant holds again.
\<close>

theorem readFd_appends:
  assumes "buffer_inv b" "readv_fits b bs"
    and "length (buf_data b) + extrabuf_size \<le> vector_max_size"
  shows "\<exists>b'. readFd (ReadvOk bs) b = Inr (int (length bs), None, b') \<and> buffer_inv b' \<and>
              content b' = content b @ bs"
  by (rule readFd_ok[OF assms])

theorem readFd_appends_witness:
  "\<exists>b'. readFd (ReadvOk ''GET / HTTP/1.1'') (new_Buffer 4) = Inr (14, None, b') \<and> buffer_inv b' \<and>
        content b' = ''GET / HTTP/1.1''"
  using readFd_appends[of "new_Buffer 4" "''GET / HTTP/1.1''"]
  by (simp add: new_Buffer_inv vector_max_size_def readv_fits_def extrabuf_size_def)

text \<open>
  C2: the buffer is a queue of bytes: from any state that satisfies the layout invariant, every
  interleaving of \<open>append\<close> and \<open>retrieve\<close> succeeds and leaves exactly the bytes the same
  operations leave in a list, whichever mix of growing and compacting \<open>makeSpace\<close> did.
\<close>

theorem buffer_refines_queue:
  assumes "buffer_inv b" "ops_bytes ops < 2 ^ 31" "writerIndex b + ops_bytes ops \<le> vector_max_size"
  shows "\<exists>b'. run_ops ops b = Inr b' \<and> buffer_inv b' \<and> content b' = spec_ops ops (content b)"
  using assms by (rule run_ops_refines)

theorem buffer_refines_queue_witness:
  "\<exists>b'. run_ops [Put ''abcdef'', Take 4, Put ''ghijklm''] (new_Buffer 8) = Inr b' \<and>
        buffer_inv b' \<and> content b' = ''efghijklm''"
  using buffer_refines_queue[of "new_Buffer 8" "[Put ''abcdef'', Take 4, Put ''ghijklm'']"]
  by (simp add: new_Buffer_inv vector_max_size_def)

text \<open>
  \<open>findCRLF\<close> returns the null pointer exactly when the readable bytes hold no CR LF, and
  otherwise the position of the first one; bytes outside the readable range never matter.
\<close>

theorem findCRLF_correct:
  "(findCRLF b = None \<longleftrightarrow> (\<forall>j. take 2 (drop j (content b)) \<noteq> crlf)) \<and>
   (findCRLF b = Some i \<longleftrightarrow>
      take 2 (drop i (content b)) = crlf \<and> (\<forall>j < i. take 2 (drop j (content b)) \<noteq> crlf))"
  by (auto simp: findCRLF_None findCRLF_Some)

theorem findCRLF_correct_witness:
  "findCRLF (buffer_of (''ab'' @ crlf @ ''c'')) = Some 2 \<and> findCRLF (buffer_of ''ab'') = None"
proof -
  have "take 2 (drop j ''ab'') \<noteq> crlf" for j
    by (cases j; cases "j - 1") (auto simp: crlf_def CR_def)
  moreover have "take 2 (drop j (''ab'' @ crlf @ ''c'')) \<noteq> crlf" if "j < 2" for j
    using that by (cases j; cases "j - 1") (auto simp: crlf_def CR_def)
  ultimately show ?thesis
    using findCRLF_correct[of "buffer_of (''ab'' @ crlf @ ''c'')" 2]
      findCRLF_correct[of "buffer_of ''ab''"] by (simp add: crlf_def)
qed

lemma makeSpace_2GiB:
  assumes inv: "buffer_inv b" and d: "2 ^ 31 \<le> k" and full: "length (buf_data b) < kCheapPrepend + readableBytes b + k"
    and m: "makeSpace (to_int32 (int k)) b = Inr b1"
  shows "length (buf_data b1) < writerIndex b1 + k"
proof (cases "writableBytes b + prependableBytes b < wrap64 (to_int32 (int k) + int kCheapPrepend)")
  case True
  define n where "n = wrap64 (int (writerIndex b) + to_int32 (int k))"
  have r: "n \<le> vector_max_size" "length (buf_data b1) = n" "writerIndex b1 = writerIndex b"
    using m True by (auto simp: makeSpace_def resize_data_def n_def split: if_splits)
  have t: "- (2 ^ 31) \<le> to_int32 (int k)" "to_int32 (int k) < 2 ^ 31" by (simp_all add: to_int32_def)
  have w: "writerIndex b \<le> vector_max_size" using inv by (simp add: buffer_inv_def)
  show ?thesis
  proof (cases "0 \<le> int (writerIndex b) + to_int32 (int k)")
    case True
    then have "int n = int (writerIndex b) + to_int32 (int k)" using t w by (simp add: n_def vector_max_size_def)
    then show ?thesis using r t d by simp
  next
    case False
    then have "int n = int (writerIndex b) + to_int32 (int k) + 2 ^ 64" using t by (simp add: n_def wrap64_neg)
    then show ?thesis using r(1) t by (simp add: vector_max_size_def)
  qed
next
  case False
  then have b1: "b1 = b\<lparr>buf_data := overwrite kCheapPrepend (subrange (readerIndex b) (writerIndex b) (buf_data b)) (buf_data b),
      readerIndex := kCheapPrepend, writerIndex := kCheapPrepend + readableBytes b\<rparr>"
    using m by (auto simp: makeSpace_def Let_def split: if_splits)
  then show ?thesis using full inv d by (auto simp: b1 buffer_defs bytes_simps overwrite_def)
qed

text \<open>
  C36: an append of 2 GiB or more that needs room. \<open>makeSpace\<close> takes an \<open>int\<close>, so only the low 32 bits
  of the size arrive. When these are a negative number (2 to 4 GiB, 6 to 8 GiB and so on, up to the
  bytes already in front of the write position), growing the vector throws \<open>std::length_error\<close>. And
  whatever the size, when the bytes do not fit even after the content was moved to the front, the
  append never succeeds: it throws, or it writes past the end of the vector.
\<close>

theorem append_2GiB_throws:
  assumes "buffer_inv b" "2 ^ 31 \<le> length d" "writableBytes b < length d"
  shows "(2 ^ 31 \<le> length d mod 2 ^ 32 \<and> length d mod 2 ^ 32 + writerIndex b < 2 ^ 32 \<longrightarrow>
      Buffer_append d b = Inl (Thrown LengthError)) \<and>
    (length (buf_data b) < kCheapPrepend + readableBytes b + length d \<longrightarrow> (\<exists>e. Buffer_append d b = Inl e))"
proof (intro conjI impI)
  assume m: "2 ^ 31 \<le> length d mod 2 ^ 32 \<and> length d mod 2 ^ 32 + writerIndex b < 2 ^ 32"
  define k where "k = int (length d mod 2 ^ 32)"
  have "to_int32 (int (length d)) = to_int32 k"
    unfolding to_int32_def k_def zmod_int by (simp add: mod_simps)
  also have "\<dots> = k - 2 ^ 32" using m by (intro to_int32_high) (simp_all add: k_def)
  finally have len: "to_int32 (int (length d)) = k - 2 ^ 32" .
  have "makeSpace (k - 2 ^ 32) b = Inl (Thrown LengthError)"
    using assms m by (auto simp: k_def makeSpace_def resize_data_def wrap64_neg buffer_defs vector_max_size_def)
  with assms(3) show "Buffer_append d b = Inl (Thrown LengthError)" by (simp add: Buffer_append_def ensureWritableBytes_def len)
next
  assume full: "length (buf_data b) < kCheapPrepend + readableBytes b + length d"
  show "\<exists>e. Buffer_append d b = Inl e"
  proof (cases "makeSpace (to_int32 (int (length d))) b")
    case (Inl e)
    then show ?thesis using assms(3) by (simp add: Buffer_append_def ensureWritableBytes_def)
  next
    case (Inr b1)
    from makeSpace_2GiB[OF assms(1,2) full Inr] Inr assms(3) show ?thesis
      by (simp add: Buffer_append_def ensureWritableBytes_def)
  qed
qed

theorem append_2GiB_throws_witness:
  "Buffer_append (replicate (2 ^ 31) (CHR ''x'')) (new_Buffer 1024) = Inl (Thrown LengthError) \<and>
   (\<exists>e. Buffer_append (replicate (2 ^ 32) (CHR ''x'')) (new_Buffer 1024) = Inl e)"
proof -
  have b: "buffer_inv (new_Buffer 1024)" by (rule new_Buffer_inv) (simp add: vector_max_size_def)
  have c: "writableBytes (new_Buffer 1024) = 1024" "length (buf_data (new_Buffer 1024)) = 1032"
      "readableBytes (new_Buffer 1024) = 0" "writerIndex (new_Buffer 1024) = 8"
    by (simp_all add: new_Buffer_def buffer_defs)
  show ?thesis
    using append_2GiB_throws[OF b, of "replicate (2 ^ 31) (CHR ''x'')"] append_2GiB_throws[OF b, of "replicate (2 ^ 32) (CHR ''x'')"] c
    by simp
qed

end
