(* ===== verification/Http_Request.thy ===== *)
theory Http_Request
  imports Net_Buffer
begin

text \<open>
  \<open>src/src/http/HttpRequest.h\<close>: the request object the parser fills in. A pointer range
  \<open>[start, end)\<close> is the list of its bytes; \<open>headers_\<close> (an \<open>unordered_map\<close>) is a map.
\<close>

section \<open>State and operations\<close>

datatype Method = kInvalid | kGet | kPost | kHead | kPut | kDelete
datatype Version = kUnknown | kHttp10 | kHttp11

record HttpRequest =
  rq_method :: Method
  m_string :: string
  rq_version :: Version
  rq_path :: string
  rq_query :: string
  rq_receiveTime :: int
  rq_headers :: "string \<rightharpoonup> string"

definition new_HttpRequest :: HttpRequest where
  "new_HttpRequest = \<lparr>rq_method = kInvalid, m_string = '''', rq_version = kUnknown, rq_path = '''',
     rq_query = '''', rq_receiveTime = 0, rq_headers = Map.empty\<rparr>"

definition setVersion :: "Version \<Rightarrow> HttpRequest \<Rightarrow> HttpRequest" where
  "setVersion v r = r\<lparr>rq_version := v\<rparr>"

definition method_of :: "string \<Rightarrow> Method" where
  "method_of m = (if m = ''GET'' then kGet else if m = ''POST'' then kPost
                  else if m = ''HEAD'' then kHead else if m = ''PUT'' then kPut
                  else if m = ''DELETE'' then kDelete else kInvalid)"

definition setMethod :: "string \<Rightarrow> HttpRequest \<Rightarrow> bool \<times> HttpRequest" where
  "setMethod m r = (let r' = r\<lparr>rq_method := method_of m\<rparr> in (rq_method r' \<noteq> kInvalid, r'))"

fun methodString :: "Method \<Rightarrow> string" where
  "methodString kGet = ''GET''"
| "methodString kPost = ''POST''"
| "methodString kHead = ''HEAD''"
| "methodString kPut = ''PUT''"
| "methodString kDelete = ''DELETE''"
| "methodString kInvalid = ''UNKNOWN''"

definition setPath :: "string \<Rightarrow> HttpRequest \<Rightarrow> HttpRequest" where
  "setPath s r = r\<lparr>rq_path := s\<rparr>"

definition setQuery :: "string \<Rightarrow> HttpRequest \<Rightarrow> HttpRequest" where
  "setQuery s r = r\<lparr>rq_query := s\<rparr>"

definition setReceiveTime :: "int \<Rightarrow> HttpRequest \<Rightarrow> HttpRequest" where
  "setReceiveTime t r = r\<lparr>rq_receiveTime := t\<rparr>"

text \<open>Dropping trailing white space, one character at a time from the end.\<close>

definition rstrip :: "string \<Rightarrow> string" where
  "rstrip v = rev (dropWhile isspace (rev v))"

text \<open>\<open>addHeader(start, colon, end)\<close> on the line \<open>[start, end)\<close>, \<open>colon\<close> an offset into it.\<close>

definition addHeader :: "string \<Rightarrow> nat \<Rightarrow> HttpRequest \<Rightarrow> HttpRequest" where
  "addHeader line colon r =
     (let field = take colon line;
          value = rstrip (dropWhile isspace (drop (colon + 1) line))
      in r\<lparr>rq_headers := (rq_headers r)(field \<mapsto> value)\<rparr>)"

text \<open>\<open>headers_[field]\<close> on a missing key inserts the empty string.\<close>

definition header_ref :: "string \<Rightarrow> HttpRequest \<Rightarrow> string \<times> HttpRequest" where
  "header_ref field r =
     (case rq_headers r field of
        Some v \<Rightarrow> (v, r)
      | None \<Rightarrow> ('''', r\<lparr>rq_headers := (rq_headers r)(field \<mapsto> '''')\<rparr>))"

text \<open>
  \<open>addcontent(start)\<close> with \<open>start = buf->peek()\<close>: the length comes from the header, nothing ties
  it to the bytes received. The debug output reads three bytes.
\<close>

definition addcontent :: "Buffer \<Rightarrow> HttpRequest \<Rightarrow> HttpRequest result" where
  "addcontent b r =
     (let (l, r1) = header_ref ''Content-Length'' r in
      bind_r (atoi l) (\<lambda>len.
      bind_r (peek_at 0 b) (\<lambda>_. bind_r (peek_at 1 b) (\<lambda>_. bind_r (peek_at 2 b) (\<lambda>_.
        if len < 0 then Inl Undefined
        else bind_r (string_at_peek (nat len) b) (\<lambda>s. Inr (r1\<lparr>m_string := s\<rparr>)))))))"

definition getHeader :: "string \<Rightarrow> HttpRequest \<Rightarrow> string" where
  "getHeader field r = (case rq_headers r field of Some v \<Rightarrow> v | None \<Rightarrow> '''')"

text \<open>\<open>swap\<close> exchanges every member but \<open>m_string\<close>.\<close>

definition swap_request :: "HttpRequest \<Rightarrow> HttpRequest \<Rightarrow> HttpRequest \<times> HttpRequest" where
  "swap_request a b = (b\<lparr>m_string := m_string a\<rparr>, a\<lparr>m_string := m_string b\<rparr>)"

section \<open>Lemmas\<close>

lemma method_of_methodString [simp]: "method_of (methodString m) = m"
  by (cases m) (simp_all add: method_of_def)

lemma methodString_no_space [simp]: "CHR '' '' \<notin> set (methodString m)" "CR \<notin> set (methodString m)"
  by (cases m; simp add: CR_def)+

lemma rstrip_clean: "v = [] \<or> \<not> isspace (last v) \<Longrightarrow> rstrip v = v"
  by (cases v rule: rev_cases) (auto simp: rstrip_def)

lemma addHeader_fields [simp]:
  "rq_method (addHeader l c r) = rq_method r" "rq_path (addHeader l c r) = rq_path r"
  "rq_query (addHeader l c r) = rq_query r" "rq_version (addHeader l c r) = rq_version r"
  "m_string (addHeader l c r) = m_string r" "rq_receiveTime (addHeader l c r) = rq_receiveTime r"
  by (simp_all add: addHeader_def Let_def)

text \<open>A header field name without a colon and a value without surrounding blanks survive.\<close>

lemma addHeader_roundtrip:
  assumes "CHR '':'' \<notin> set k" "v = [] \<or> (\<not> isspace (hd v) \<and> \<not> isspace (last v))"
  shows "addHeader (k @ '': '' @ v) (std_find (CHR '':'') (k @ '': '' @ v)) r =
         r\<lparr>rq_headers := (rq_headers r)(k \<mapsto> v)\<rparr>"
proof -
  have "std_find (CHR '':'') (k @ '': '' @ v) = length k"
    using assms(1) by (simp add: std_find_append)
  moreover have "dropWhile isspace ('' '' @ v) = v"
    using assms(2) by (cases v) (auto simp: isspace_def)
  ultimately show ?thesis using assms(2)
    by (auto simp: addHeader_def Let_def rstrip_clean simp del: dropWhile.simps)
qed

end
