(* ===== verification/Http_Context.thy ===== *)
theory Http_Context
  imports Http_Request
begin

text \<open>
  \<open>src/src/http/HttpContext.h\<close> and \<open>HttpContext.cc\<close>: the request parser, a state machine over the
  connection's input buffer. \<open>parse_loop\<close> is the \<open>while (hasMore)\<close> loop; it ends because every
  iteration that continues consumes a line or moves to a later state. A null \<open>crlf\<close> used as the
  end of a range, a read outside the vector and the loop that never ends (entered in state
  \<open>kGotAll\<close>) are faults.
\<close>

section \<open>State and operations\<close>

datatype ParseState = kExpectRequestLine | kExpectHeaders | kExpectBody | kGotAll

record HttpContext =
  ctx_state :: ParseState
  ctx_request :: HttpRequest

definition new_HttpContext :: HttpContext where
  "new_HttpContext = \<lparr>ctx_state = kExpectRequestLine, ctx_request = new_HttpRequest\<rparr>"

definition gotAll :: "HttpContext \<Rightarrow> bool" where
  "gotAll c \<longleftrightarrow> ctx_state c = kGotAll"

definition reset :: "HttpContext \<Rightarrow> HttpContext" where
  "reset c = c\<lparr>ctx_state := kExpectRequestLine,
               ctx_request := fst (swap_request (ctx_request c) new_HttpRequest)\<rparr>"

text \<open>The request line \<open>[begin, end)\<close>, without its terminator.\<close>

definition processRequestLine :: "string \<Rightarrow> HttpRequest \<Rightarrow> bool \<times> HttpRequest" where
  "processRequestLine line r =
     (let space = std_find (CHR '' '') line in
      if space = length line then (False, r)
      else let (okm, r1) = setMethod (take space line) r in
      if \<not> okm then (False, r1)
      else let rest = drop (space + 1) line; space2 = std_find (CHR '' '') rest in
      if space2 = length rest then (False, r1)
      else let target = take space2 rest; question = std_find (CHR ''?'') target;
               r2 = (if question \<noteq> length target
                     then setQuery (drop question target) (setPath (take question target) r1)
                     else setPath target r1);
               start = drop (space2 + 1) rest
      in if length start = 8 \<and> take 7 start = ''HTTP/1.''
         then if start ! 7 = CHR ''1'' then (True, setVersion kHttp11 r2)
              else if start ! 7 = CHR ''0'' then (True, setVersion kHttp10 r2)
              else (False, r2)
         else (False, r2))"

lemma retrieve_line_shrinks:
  "findCRLF b = Some i \<Longrightarrow>
     length (content (retrieveUntil (readerIndex b + i + 2) b)) < length (content b)"
proof -
  assume "findCRLF b = Some i"
  then have "content b \<noteq> []" using lq.eol_within[of b i] by auto
  then show ?thesis using retrieve_shrinks[of "i + 2" b] retrieveUntil_ahead[of b "i + 2"]
    by (simp add: add.assoc)
qed

text \<open>The \<open>do ... while (1)\<close> loop over the part headers of a multipart body.\<close>

function multipart_loop :: "HttpRequest \<Rightarrow> Buffer \<Rightarrow> (HttpRequest \<times> Buffer) result" where
  "multipart_loop r b =
     (case findCRLF b of
        None \<Rightarrow> Inl NullPointer
      | Some i \<Rightarrow>
          let line = take i (content b); colon = std_find (CHR '':'') line;
              b' = retrieveUntil (readerIndex b + i + 2) b
          in if colon \<noteq> length line then multipart_loop (addHeader line colon r) b'
             else Inr (r, b'))"
  by pat_completeness auto
termination
  by (relation "measure (\<lambda>(r, b). length (content b))") (auto dest: retrieve_line_shrinks)

declare multipart_loop.simps [simp del]

definition parse_body :: "HttpRequest \<Rightarrow> Buffer \<Rightarrow> (HttpRequest \<times> Buffer) result" where
  "parse_body r b =
     (if rq_method r = kPost
      then bind_r (peek_at 0 b) (\<lambda>ch.
        if ch = CHR ''-''
        then (case findCRLF b of
            None \<Rightarrow> Inl NullPointer
          | Some i \<Rightarrow> let b1 = retrieveUntil (readerIndex b + i + 2) b in
              bind_r (peek_at 0 b1) (\<lambda>_.
              bind_r (multipart_loop r b1) (\<lambda>(r2, b2).
              bind_r (peek_at 0 b2) (\<lambda>_.
              bind_r (addcontent b2 r2) (\<lambda>r3. Inr (r3, b2))))))
        else bind_r (addcontent b r) (\<lambda>r'. Inr (r', b)))
      else Inr (r, b))"

fun state_rank :: "ParseState \<Rightarrow> nat" where
  "state_rank kExpectRequestLine = 3"
| "state_rank kExpectHeaders = 2"
| "state_rank kExpectBody = 1"
| "state_rank kGotAll = 0"

function parse_loop ::
  "int \<Rightarrow> bool \<Rightarrow> HttpContext \<Rightarrow> Buffer \<Rightarrow> (bool \<times> HttpContext \<times> Buffer) result" where
  "parse_loop receiveTime ok c b =
     (case ctx_state c of
        kExpectRequestLine \<Rightarrow>
          (case findCRLF b of
             None \<Rightarrow> Inr (ok, c, b)
           | Some i \<Rightarrow>
               let (ok', r') = processRequestLine (take i (content b)) (ctx_request c) in
               if ok'
               then parse_loop receiveTime ok'
                      (c\<lparr>ctx_state := kExpectHeaders,
                         ctx_request := setReceiveTime receiveTime r'\<rparr>)
                      (retrieveUntil (readerIndex b + i + 2) b)
               else Inr (ok', c\<lparr>ctx_request := r'\<rparr>, b))
      | kExpectHeaders \<Rightarrow>
          (case findCRLF b of
             None \<Rightarrow> Inr (ok, c, b)
           | Some i \<Rightarrow>
               let line = take i (content b); colon = std_find (CHR '':'') line;
                   b' = retrieveUntil (readerIndex b + i + 2) b
               in if colon \<noteq> length line
                  then parse_loop receiveTime ok
                         (c\<lparr>ctx_request := addHeader line colon (ctx_request c)\<rparr>) b'
                  else parse_loop receiveTime ok (c\<lparr>ctx_state := kExpectBody\<rparr>) b')
      | kExpectBody \<Rightarrow>
          bind_r (parse_body (ctx_request c) b) (\<lambda>(r', b').
            Inr (ok, c\<lparr>ctx_state := kGotAll, ctx_request := r'\<rparr>, b'))
      | kGotAll \<Rightarrow> Inl Diverges)"
  by pat_completeness auto
termination
  by (relation "measures [\<lambda>(t, ok, c, b). state_rank (ctx_state c), \<lambda>(t, ok, c, b). length (content b)]")
     (auto dest: retrieve_line_shrinks)

declare parse_loop.simps [simp del]

definition parseRequest :: "int \<Rightarrow> HttpContext \<Rightarrow> Buffer \<Rightarrow> (bool \<times> HttpContext \<times> Buffer) result" where
  "parseRequest receiveTime c b = parse_loop receiveTime False c b"

section \<open>The concrete syntax of a request\<close>

text \<open>What a client sends, and the side conditions under which it is unambiguous.\<close>

definition version_string :: "Version \<Rightarrow> string" where
  "version_string v = (if v = kHttp10 then ''HTTP/1.0'' else ''HTTP/1.1'')"

definition render_line :: "Method \<Rightarrow> string \<Rightarrow> string \<Rightarrow> Version \<Rightarrow> string" where
  "render_line m path query v =
     methodString m @ '' '' @ (path @ query) @ '' '' @ version_string v"

definition render_header :: "string \<times> string \<Rightarrow> string" where
  "render_header h = fst h @ '': '' @ snd h"

definition render_headers :: "(string \<times> string) list \<Rightarrow> string" where
  "render_headers hs = concat (map (\<lambda>h. render_header h @ crlf) hs) @ crlf"

definition wf_line :: "Method \<Rightarrow> string \<Rightarrow> string \<Rightarrow> Version \<Rightarrow> bool" where
  "wf_line m path query v \<longleftrightarrow> m \<noteq> kInvalid \<and> v \<noteq> kUnknown \<and>
     CHR '' '' \<notin> set (path @ query) \<and> CR \<notin> set (path @ query) \<and> CHR ''?'' \<notin> set path \<and>
     (query = [] \<or> hd query = CHR ''?'')"

definition wf_header :: "string \<times> string \<Rightarrow> bool" where
  "wf_header h \<longleftrightarrow> CHR '':'' \<notin> set (fst h) \<and> CR \<notin> set (fst h) \<and> CR \<notin> set (snd h) \<and>
     (snd h = [] \<or> (\<not> isspace (hd (snd h)) \<and> \<not> isspace (last (snd h))))"

definition put_headers :: "(string \<times> string) list \<Rightarrow> (string \<rightharpoonup> string) \<Rightarrow> (string \<rightharpoonup> string)" where
  "put_headers hs m = foldl (\<lambda>m h. m(fst h \<mapsto> snd h)) m hs"

definition parsed_request ::
  "Method \<Rightarrow> string \<Rightarrow> string \<Rightarrow> Version \<Rightarrow> (string \<times> string) list \<Rightarrow> int \<Rightarrow> HttpRequest \<Rightarrow> HttpRequest" where
  "parsed_request m path query v hs t r =
     r\<lparr>rq_method := m, rq_path := path,
       rq_query := (if query = [] then rq_query r else query), rq_version := v,
       rq_receiveTime := t, rq_headers := put_headers hs (rq_headers r)\<rparr>"

section \<open>Lemmas\<close>

lemma version_string_simps [simp]:
  "CR \<notin> set (version_string v)" "length (version_string v) = 8"
  "take 7 (version_string v) = ''HTTP/1.''"
  "version_string v ! 7 = (if v = kHttp10 then CHR ''0'' else CHR ''1'')"
  by (simp_all add: version_string_def CR_def)

lemma target_split:
  "CHR ''?'' \<notin> set path \<Longrightarrow> query \<noteq> [] \<Longrightarrow> hd query = CHR ''?'' \<Longrightarrow>
     std_find (CHR ''?'') (path @ query) = length path"
  by (cases query) (auto simp: std_find_append)

lemma processRequestLine_render:
  assumes "wf_line m path query v"
  shows "processRequestLine (render_line m path query v) r =
    (True, r\<lparr>rq_method := m, rq_path := path,
             rq_query := (if query = [] then rq_query r else query), rq_version := v\<rparr>)"
proof -
  define T where "T = path @ query"
  define V where "V = version_string v"
  define rest where "rest = T @ CHR '' '' # V"
  define line where "line = methodString m @ CHR '' '' # rest"
  have sp: "std_find (CHR '' '') line = length (methodString m)"
    by (simp add: line_def std_find_append)
  have sp2: "std_find (CHR '' '') rest = length T"
    using assms by (simp add: rest_def T_def std_find_append wf_line_def del: append_assoc)
  have q: "std_find (CHR ''?'') T = (if query = [] then length T else length path)"
    using assms target_split[of path query] by (auto simp: wf_line_def std_find_absent T_def)
  have parts: "take (length (methodString m)) line = methodString m"
      "drop (length (methodString m) + 1) line = rest"
      "length (methodString m) \<noteq> length line" "take (length T) rest = T"
      "drop (length T + 1) rest = V" "length T \<noteq> length rest"
    by (simp_all add: line_def rest_def)
  have V: "length V = 8" "take 7 V = ''HTTP/1.''" "V ! 7 = (if v = kHttp10 then CHR ''0'' else CHR ''1'')"
    by (simp_all add: V_def)
  have vcase: "v = kHttp10 \<or> v = kHttp11" using assms by (cases v) (simp_all add: wf_line_def)
  have setm: "setMethod (methodString m) r = (True, r\<lparr>rq_method := m\<rparr>)"
    using assms by (simp add: setMethod_def wf_line_def)
  have "render_line m path query v = line" by (simp add: render_line_def line_def rest_def T_def V_def)
  moreover have "processRequestLine line r = (True, r\<lparr>rq_method := m, rq_path := path,
      rq_query := (if query = [] then rq_query r else query), rq_version := v\<rparr>)"
  proof (cases "query = []")
    case True
    then have "path = T" by (simp add: T_def)
    with True vcase show ?thesis
      by (elim disjE) (simp_all add: processRequestLine_def Let_def sp sp2 parts[simplified] setm V q
        setPath_def setVersion_def)
  next
    case False
    then have "take (length path) T = path" "drop (length path) T = query" "length path \<noteq> length T"
      by (simp_all add: T_def)
    with False vcase show ?thesis
      by (elim disjE) (simp_all add: processRequestLine_def Let_def sp sp2 parts[simplified] setm V q
        setPath_def setQuery_def setVersion_def)
  qed
  ultimately show ?thesis by simp
qed

lemma parse_loop_line:
  assumes "wf_line m path query v" "buffer_inv b" "ctx_state c = kExpectRequestLine"
    and "content b = render_line m path query v @ crlf @ rest"
  shows "\<exists>b'. parse_loop t ok c b = parse_loop t True
      (c\<lparr>ctx_state := kExpectHeaders,
         ctx_request := parsed_request m path query v [] t (ctx_request c)\<rparr>) b' \<and>
      buffer_inv b' \<and> content b' = rest"
proof -
  define line where "line = render_line m path query v"
  have "CR \<notin> set line" using assms(1) by (auto simp: line_def render_line_def wf_line_def)
  with assms(4) have e: "findCRLF b = Some (length line)" by (intro lq.line_eol) (auto simp: line_def)
  have tk: "take (length line) (content b) = line" using assms(4) by (simp add: line_def)
  let ?b' = "retrieve (length line + 2) b"
  have "parse_loop t ok c b = parse_loop t True
      (c\<lparr>ctx_state := kExpectHeaders,
         ctx_request := parsed_request m path query v [] t (ctx_request c)\<rparr>) ?b'"
    using assms(3) tk processRequestLine_render[OF assms(1)]
    by (subst parse_loop.simps)
       (simp add: e line_def[symmetric] add.assoc setReceiveTime_def parsed_request_def
          put_headers_def)
  moreover have "buffer_inv ?b'" "content ?b' = rest"
    using lq.line_rest[OF assms(2), of line rest] assms(4) by (simp_all add: line_def)
  ultimately show ?thesis by blast
qed

lemma parse_loop_header:
  assumes "wf_header h" "buffer_inv b" "ctx_state c = kExpectHeaders"
    and "content b = render_header h @ crlf @ rest"
  shows "\<exists>b'. parse_loop t ok c b = parse_loop t ok
      (c\<lparr>ctx_request := (ctx_request c)\<lparr>rq_headers := put_headers [h] (rq_headers (ctx_request c))\<rparr>\<rparr>) b' \<and>
      buffer_inv b' \<and> content b' = rest"
proof -
  define line where "line = render_header h"
  have "CR \<notin> set line" using assms(1) by (auto simp: line_def render_header_def wf_header_def)
  with assms(4) have e: "findCRLF b = Some (length line)" by (intro lq.line_eol) (auto simp: line_def)
  have tk: "take (length line) (content b) = line" using assms(4) by (simp add: line_def)
  have "CHR '':'' \<in> set line" by (simp add: line_def render_header_def)
  then have col: "std_find (CHR '':'') line \<noteq> length line" by (simp add: std_find_eq_length_iff)
  have ah: "addHeader line (std_find (CHR '':'') line) r =
      r\<lparr>rq_headers := put_headers [h] (rq_headers r)\<rparr>" for r
    unfolding line_def render_header_def using assms(1)
    by (subst addHeader_roundtrip) (auto simp: wf_header_def put_headers_def)
  let ?b' = "retrieve (length line + 2) b"
  have "parse_loop t ok c b = parse_loop t ok
      (c\<lparr>ctx_request := (ctx_request c)\<lparr>rq_headers := put_headers [h] (rq_headers (ctx_request c))\<rparr>\<rparr>) ?b'"
    using assms(3) tk col ah
    by (subst parse_loop.simps) (simp add: e Let_def add.assoc)
  moreover have "buffer_inv ?b'" "content ?b' = rest"
    using lq.line_rest[OF assms(2), of line rest] assms(4) by (simp_all add: line_def)
  ultimately show ?thesis by blast
qed

lemma parse_loop_blank:
  assumes "buffer_inv b" "ctx_state c = kExpectHeaders" "content b = crlf @ rest"
  shows "\<exists>b'. parse_loop t ok c b = parse_loop t ok (c\<lparr>ctx_state := kExpectBody\<rparr>) b' \<and>
      buffer_inv b' \<and> content b' = rest"
proof -
  have e: "findCRLF b = Some 0" using assms(3) lq.line_eol[of "[]" b rest] by simp
  have "parse_loop t ok c b = parse_loop t ok (c\<lparr>ctx_state := kExpectBody\<rparr>) (retrieve 2 b)"
    using assms(2) retrieveUntil_ahead[of b 2]
    by (subst parse_loop.simps) (simp add: e std_find_def)
  then show ?thesis using lq.line_rest[OF assms(1), of "[]" rest] assms(3) by auto
qed

lemma parse_loop_headers:
  assumes "\<forall>h \<in> set hs. wf_header h" "buffer_inv b" "ctx_state c = kExpectHeaders"
    and "content b = render_headers hs @ rest"
  shows "\<exists>b'. parse_loop t ok c b = parse_loop t ok
      (c\<lparr>ctx_state := kExpectBody,
         ctx_request := (ctx_request c)\<lparr>rq_headers := put_headers hs (rq_headers (ctx_request c))\<rparr>\<rparr>) b' \<and>
      buffer_inv b' \<and> content b' = rest"
  using assms
proof (induction hs arbitrary: b c)
  case Nil
  then show ?case using parse_loop_blank[of b c rest t ok]
    by (simp add: render_headers_def put_headers_def)
next
  case (Cons h hs)
  define c1 where "c1 = c\<lparr>ctx_request := (ctx_request c)\<lparr>rq_headers :=
    put_headers [h] (rq_headers (ctx_request c))\<rparr>\<rparr>"
  from Cons.prems obtain b1 where b1: "parse_loop t ok c b = parse_loop t ok c1 b1"
      "buffer_inv b1" "content b1 = render_headers hs @ rest"
    using parse_loop_header[of h b c "render_headers hs @ rest" t ok]
    by (auto simp: c1_def render_headers_def)
  have "put_headers (h # hs) g = put_headers hs (put_headers [h] g)" for g
    by (simp add: put_headers_def)
  with Cons.prems b1 Cons.IH[of b1 c1] show ?case by (simp add: c1_def)
qed

lemma parse_loop_request:
  assumes "wf_line m path query v" "\<forall>h \<in> set hs. wf_header h" "buffer_inv b"
    and "ctx_state c = kExpectRequestLine"
    and "content b = render_line m path query v @ crlf @ render_headers hs @ rest"
  shows "\<exists>b'. parseRequest t c b = parse_loop t True
      (c\<lparr>ctx_state := kExpectBody, ctx_request := parsed_request m path query v hs t (ctx_request c)\<rparr>) b' \<and>
      buffer_inv b' \<and> content b' = rest"
proof -
  define c1 where "c1 = c\<lparr>ctx_state := kExpectHeaders,
    ctx_request := parsed_request m path query v [] t (ctx_request c)\<rparr>"
  obtain b1 where b1: "parseRequest t c b = parse_loop t True c1 b1" "buffer_inv b1"
      "content b1 = render_headers hs @ rest"
    using parse_loop_line[OF assms(1,3,4), of "render_headers hs @ rest" t False] assms(5)
    by (auto simp: parseRequest_def c1_def)
  then show ?thesis using parse_loop_headers[OF assms(2), of b1 c1 rest t True]
    by (auto simp: c1_def parsed_request_def put_headers_def)
qed

lemma parse_loop_body:
  "ctx_state c = kExpectBody \<Longrightarrow> parse_loop t ok c b =
     bind_r (parse_body (ctx_request c) b)
       (\<lambda>(r', b'). Inr (ok, c\<lparr>ctx_state := kGotAll, ctx_request := r'\<rparr>, b'))"
  by (subst parse_loop.simps) simp

lemma parse_loop_keeps_ok:
  "ctx_state c \<noteq> kExpectRequestLine \<Longrightarrow> parse_loop t ok c b = Inr (ok', c', b') \<Longrightarrow> ok' = ok"
proof (induction t ok c b arbitrary: ok' c' b' rule: parse_loop.induct)
  case (1 t ok c b)
  show ?case
    using "1.prems"(1) "1.prems"(2)[unfolded parse_loop.simps[of t ok c b]] "1.IH"(2,3)
    by (auto simp: Let_def bind_r_eq_Inr split: ParseState.splits option.splits if_splits)
qed

lemma string_at_peek_beyond:
  "buffer_inv b \<Longrightarrow> readableBytes b \<le> n \<Longrightarrow> readerIndex b + n \<le> length (buf_data b) \<Longrightarrow>
     string_at_peek n b = Inr (content b @ subrange (writerIndex b) (readerIndex b + n) (buf_data b))"
  by (simp add: string_at_peek_def content_def buffer_inv_def readableBytes_def bytes_simps)

lemma peek_at_readable:
  "buffer_inv b \<Longrightarrow> i < readableBytes b \<Longrightarrow> peek_at i b = Inr (content b ! i)"
  by (auto simp: peek_at_def content_def subrange_def buffer_inv_def readableBytes_def)

lemma addcontent_ok:
  assumes "buffer_inv b" "3 \<le> readableBytes b" "rq_headers r ''Content-Length'' = Some (show_nat n)"
    and "n < 2 ^ 31"
  shows "addcontent b r = bind_r (string_at_peek n b) (\<lambda>s. Inr (r\<lparr>m_string := s\<rparr>))"
  using assms(1,2)
  by (simp add: addcontent_def header_ref_def assms(3) atoi_show_nat[OF assms(4)] peek_at_readable)

lemma processRequestLine_method:
  "processRequestLine line r = (True, r') \<Longrightarrow>
     rq_method r' = method_of (takeWhile (\<lambda>x. x \<noteq> CHR '' '') line) \<and> CHR '' '' \<in> set line"
  by (auto simp: processRequestLine_def Let_def setMethod_def setPath_def setQuery_def setVersion_def
        std_find_eq_length_iff split: if_splits)

text \<open>A line that yields the method \<open>kPost\<close> starts with the word and a space.\<close>

lemma post_line_prefix:
  assumes "method_of (takeWhile (\<lambda>x. x \<noteq> CHR '' '') line) = kPost" "CHR '' '' \<in> set line"
  shows "take 5 line = ''POST ''"
proof -
  have w: "takeWhile (\<lambda>x. x \<noteq> CHR '' '') line = ''POST''"
    using assms(1) by (auto simp: method_of_def split: if_splits)
  have "dropWhile (\<lambda>x. x \<noteq> CHR '' '') line \<noteq> []" using assms(2) by (auto simp: dropWhile_eq_Nil_conv)
  then obtain t where "dropWhile (\<lambda>x. x \<noteq> CHR '' '') line = CHR '' '' # t"
    using hd_dropWhile[of "\<lambda>x. x \<noteq> CHR '' ''" line]
    by (cases "dropWhile (\<lambda>x. x \<noteq> CHR '' '') line") auto
  with w have "line = ''POST'' @ CHR '' '' # t"
    using takeWhile_dropWhile_id[of "\<lambda>x. x \<noteq> CHR '' ''" line] by simp
  then show ?thesis by simp
qed

lemma parse_loop_safe:
  "buffer_inv b \<Longrightarrow> rq_method (ctx_request c) \<noteq> kPost \<Longrightarrow>
   ctx_state c = kExpectHeaders \<or> ctx_state c = kExpectBody \<Longrightarrow>
     \<exists>c' b' n. parse_loop t ok c b = Inr (ok, c', b') \<and> buffer_inv b' \<and> content b' = drop n (content b)"
proof (induction t ok c b rule: parse_loop.induct)
  case (1 t ok c b)
  show ?case
  proof (cases "ctx_state c = kExpectBody")
    case True
    then show ?thesis using "1.prems"(1,2)
      by (auto simp: parse_loop_body parse_body_def intro: exI[of _ 0])
  next
    case False
    with "1.prems"(3) have st: "ctx_state c = kExpectHeaders" by simp
    show ?thesis
    proof (cases "findCRLF b")
      case None
      then show ?thesis using "1.prems"(1) st by (subst parse_loop.simps) (auto intro: exI[of _ 0])
    next
      case (Some i)
      define line where "line = take i (content b)"
      define b1 where "b1 = retrieveUntil (readerIndex b + i + 2) b"
      define c1 where "c1 = (if std_find (CHR '':'') line \<noteq> length line
        then c\<lparr>ctx_request := addHeader line (std_find (CHR '':'') line) (ctx_request c)\<rparr>
        else c\<lparr>ctx_state := kExpectBody\<rparr>)"
      have b1: "buffer_inv b1" "content b1 = drop (i + 2) (content b)"
        using "1.prems"(1) retrieveUntil_ahead[of b "i + 2"] by (simp_all add: b1_def add.assoc)
      have step: "parse_loop t ok c b = parse_loop t ok c1 b1"
        using st Some by (subst parse_loop.simps) (simp add: Let_def line_def b1_def c1_def)
      have "\<exists>c' b' n. parse_loop t ok c1 b1 = Inr (ok, c', b') \<and> buffer_inv b' \<and>
              content b' = drop n (content b1)"
        using "1.IH"(2,3)[OF st Some line_def refl b1_def] b1(1) "1.prems"(2) st
        unfolding c1_def line_def[symmetric] b1_def[symmetric] by auto
      then show ?thesis using step b1(2) by (metis drop_drop)
    qed
  qed
qed

lemma multipart_loop_headers:
  assumes "\<forall>h \<in> set hs. wf_header h" "buffer_inv b" "content b = render_headers hs @ rest"
  shows "\<exists>b'. multipart_loop r b = Inr (r\<lparr>rq_headers := put_headers hs (rq_headers r)\<rparr>, b') \<and>
      buffer_inv b' \<and> content b' = rest"
  using assms
proof (induction hs arbitrary: b r)
  case Nil
  then have e: "findCRLF b = Some 0" using lq.line_eol[of "[]" b rest] by (simp add: render_headers_def)
  have "multipart_loop r b = Inr (r, retrieve 2 b)" using retrieveUntil_ahead[of b 2]
    by (subst multipart_loop.simps) (simp add: e std_find_def)
  then show ?case using lq.line_rest[OF Nil.prems(2), of "[]" rest] Nil.prems(3)
    by (simp add: render_headers_def put_headers_def)
next
  case (Cons h hs)
  define line where "line = render_header h"
  have c: "content b = line @ crlf @ (render_headers hs @ rest)"
    using Cons.prems(3) by (simp add: render_headers_def line_def)
  have "CR \<notin> set line" using Cons.prems(1) by (auto simp: line_def render_header_def wf_header_def)
  with c have e: "findCRLF b = Some (length line)" by (intro lq.line_eol)
  have "CHR '':'' \<in> set line" by (simp add: line_def render_header_def)
  then have col: "std_find (CHR '':'') line \<noteq> length line" by (simp add: std_find_eq_length_iff)
  define r1 where "r1 = r\<lparr>rq_headers := put_headers [h] (rq_headers r)\<rparr>"
  have ah: "addHeader line (std_find (CHR '':'') line) r = r1"
    unfolding line_def render_header_def r1_def using Cons.prems(1)
    by (subst addHeader_roundtrip) (auto simp: wf_header_def put_headers_def)
  define b1 where "b1 = retrieve (length line + 2) b"
  have "take (length line) (content b) = line" using c by simp
  then have step: "multipart_loop r b = multipart_loop r1 b1" using col ah
    by (subst multipart_loop.simps) (simp add: e Let_def add.assoc b1_def)
  have b1: "buffer_inv b1" "content b1 = render_headers hs @ rest"
    using lq.line_rest[OF Cons.prems(2) c] by (simp_all add: b1_def)
  have "put_headers (h # hs) g = put_headers hs (put_headers [h] g)" for g
    by (simp add: put_headers_def)
  with step b1 Cons.IH[of b1 r1] Cons.prems(1) show ?case by (simp add: r1_def)
qed

lemma parse_body_multipart:
  assumes "rq_method r = kPost" "buffer_inv b" "CR \<notin> set bline" "bline \<noteq> []" "hd bline = CHR ''-''"
    and "\<forall>h \<in> set phs. wf_header h" "content b = bline @ crlf @ render_headers phs @ data"
    and "data \<noteq> []"
  shows "\<exists>b'. parse_body r b = bind_r (addcontent b' (r\<lparr>rq_headers := put_headers phs (rq_headers r)\<rparr>))
           (\<lambda>r3. Inr (r3, b')) \<and> buffer_inv b' \<and> content b' = data"
proof -
  have e: "findCRLF b = Some (length bline)" using assms(3,7) by (rule lq.line_eol)
  define b1 where "b1 = retrieve (length bline + 2) b"
  have b1: "buffer_inv b1" "content b1 = render_headers phs @ data"
    using lq.line_rest[OF assms(2), of bline "render_headers phs @ data"] assms(7) by (simp_all add: b1_def)
  obtain b2 where b2: "multipart_loop r b1 = Inr (r\<lparr>rq_headers := put_headers phs (rq_headers r)\<rparr>, b2)"
      "buffer_inv b2" "content b2 = data"
    using multipart_loop_headers[OF assms(6) b1] by blast
  have ne: "0 < readableBytes b" "0 < readableBytes b1" "0 < readableBytes b2"
    using assms(2,4,7,8) b1 b2 by (auto simp: crlf_def render_headers_def simp flip: length_content)
  have "content b ! 0 = CHR ''-''" using assms(4,5,7) by (cases bline) simp_all
  moreover have "retrieveUntil (readerIndex b + length bline + 2) b = b1"
    by (simp add: b1_def add.assoc)
  ultimately show ?thesis using assms(1,2) b1 b2 ne e
    by (auto simp: parse_body_def peek_at_readable)
qed

section \<open>Properties\<close>

text \<open>
  C1: parsing inverts printing. Whatever precedes it in the request object, a well-formed
  request without a body (any method but POST) at the front of the buffer is accepted, the
  parser ends in \<open>kGotAll\<close> with the method, path, query, version, headers and receive time that
  were sent, and exactly the bytes after the blank line stay in the buffer.
\<close>

theorem parse_request_roundtrip:
  assumes "wf_line m path query v" "\<forall>h \<in> set hs. wf_header h" "m \<noteq> kPost"
    and "buffer_inv b" "ctx_state c = kExpectRequestLine"
    and "content b = render_line m path query v @ crlf @ render_headers hs @ rest"
  shows "\<exists>b'. parseRequest t c b = Inr (True,
      c\<lparr>ctx_state := kGotAll, ctx_request := parsed_request m path query v hs t (ctx_request c)\<rparr>, b') \<and>
      buffer_inv b' \<and> content b' = rest"
  using parse_loop_request[OF assms(1,2,4,5,6), of t] assms(3)
  by (auto simp: parse_loop_body parse_body_def parsed_request_def)

theorem parse_request_roundtrip_witness:
  "\<exists>b'. parseRequest 7 new_HttpContext
      (buffer_of (render_line kGet ''/a'' ''?x=1'' kHttp11 @ crlf @
                  render_headers [(''Host'', ''h'')] @ ''next'')) =
    Inr (True, new_HttpContext\<lparr>ctx_state := kGotAll, ctx_request :=
      parsed_request kGet ''/a'' ''?x=1'' kHttp11 [(''Host'', ''h'')] 7 new_HttpRequest\<rparr>, b') \<and>
    buffer_inv b' \<and> content b' = ''next''"
  using parse_request_roundtrip[of kGet "''/a''" "''?x=1''" kHttp11 "[(''Host'', ''h'')]"
      "buffer_of (render_line kGet ''/a'' ''?x=1'' kHttp11 @ crlf @
                  render_headers [(''Host'', ''h'')] @ ''next'')" new_HttpContext "''next''" 7]
  by (simp add: wf_line_def wf_header_def new_HttpContext_def CR_def isspace_def
        render_line_def render_headers_def render_header_def version_string_def crlf_def)

text \<open>
  C33: an ordinary POST, such as the form of a login: when at least three bytes follow the headers,
  the first of them is not \<open>-\<close> (which would start a multipart body, of which another property speaks)
  and \<open>Content-Length\<close> (below 2 GiB) is at most their number, the first \<open>Content-Length\<close> of them are
  stored in \<open>m_string\<close>; but nothing is removed from the buffer, where the next request is then looked
  for.
\<close>

theorem parse_post_body:
  assumes "wf_line kPost path query v" "\<forall>h \<in> set hs. wf_header h"
    and "buffer_inv b" "ctx_state c = kExpectRequestLine"
    and "content b = render_line kPost path query v @ crlf @ render_headers hs @ body"
    and "put_headers hs (rq_headers (ctx_request c)) ''Content-Length'' = Some (show_nat n)"
    and "n \<le> length body" "n < 2 ^ 31" "3 \<le> length body" "hd body \<noteq> CHR ''-''"
  shows "\<exists>b'. parseRequest t c b = Inr (True,
      c\<lparr>ctx_state := kGotAll, ctx_request :=
         (parsed_request kPost path query v hs t (ctx_request c))\<lparr>m_string := take n body\<rparr>\<rparr>, b') \<and>
      content b' = body"
proof -
  define r where "r = parsed_request kPost path query v hs t (ctx_request c)"
  obtain b' where b': "parseRequest t c b =
      parse_loop t True (c\<lparr>ctx_state := kExpectBody, ctx_request := r\<rparr>) b'"
      "buffer_inv b'" "content b' = body"
    using parse_loop_request[OF assms(1-5), of t] by (auto simp: r_def)
  have len: "readableBytes b' = length body" using b'(2,3) by (simp flip: length_content)
  have r: "rq_method r = kPost" "rq_headers r ''Content-Length'' = Some (show_nat n)"
    using assms(6) by (simp_all add: r_def parsed_request_def)
  have pk: "peek_at 0 b' = Inr (hd body)"
    using b' assms(9) len by (cases body) (auto simp: peek_at_readable)
  have "addcontent b' r = Inr (r\<lparr>m_string := take n body\<rparr>)"
    using b' r assms(7,8,9) len by (simp add: addcontent_ok string_at_peek_readable)
  with b' r pk assms(10) show ?thesis by (auto simp: parse_loop_body parse_body_def r_def)
qed

theorem parse_post_body_witness:
  "\<exists>b'. parseRequest 7 new_HttpContext
      (buffer_of (render_line kPost ''/2'' [] kHttp11 @ crlf @
                  render_headers [(''Content-Length'', show_nat 5)] @ ''user=1'')) =
    Inr (True, new_HttpContext\<lparr>ctx_state := kGotAll, ctx_request :=
      (parsed_request kPost ''/2'' [] kHttp11 [(''Content-Length'', show_nat 5)] 7 new_HttpRequest)
        \<lparr>m_string := ''user=''\<rparr>\<rparr>, b') \<and>
    content b' = ''user=1''"
proof -
  have s5: "show_nat 5 = ''5''" by code_simp
  show ?thesis
  using parse_post_body[of "''/2''" "[]" kHttp11 "[(''Content-Length'', show_nat 5)]"
      "buffer_of (render_line kPost ''/2'' [] kHttp11 @ crlf @
                  render_headers [(''Content-Length'', show_nat 5)] @ ''user=1'')"
      new_HttpContext "''user=1''" 5 7]
  by (simp add: wf_line_def wf_header_def new_HttpContext_def CR_def isspace_def s5 put_headers_def
        render_line_def render_headers_def render_header_def version_string_def crlf_def)
qed

text \<open>
  C35: a multipart upload reads past what was received. \<open>Content-Length\<close> counts the boundary line
  and the part headers too, but \<open>addcontent\<close> takes that many bytes starting after them: when the
  whole body has arrived and nothing else, the stored body is the file data followed by stale
  bytes of the vector behind \<open>writerIndex_\<close>, and the read leaves the vector when it is too short.
\<close>

theorem multipart_upload_overreads:
  assumes "wf_line kPost path query v" "\<forall>h \<in> set hs. wf_header h" "\<forall>h \<in> set phs. wf_header h"
    and "buffer_inv b" "ctx_state c = kExpectRequestLine"
    and "CR \<notin> set bline" "bline \<noteq> []" "hd bline = CHR ''-''" "3 \<le> length data"
    and "body = bline @ crlf @ render_headers phs @ data" "length body < 2 ^ 31"
    and "content b = render_line kPost path query v @ crlf @ render_headers hs @ body"
    and "put_headers phs (put_headers hs (rq_headers (ctx_request c))) ''Content-Length'' =
           Some (show_nat (length body))"
  shows "\<exists>b'. content b' = data \<and> length data < length body \<and>
    parseRequest t c b =
      (if readerIndex b' + length body \<le> length (buf_data b')
       then Inr (True, c\<lparr>ctx_state := kGotAll, ctx_request :=
          (parsed_request kPost path query v (hs @ phs) t (ctx_request c))\<lparr>m_string :=
             data @ subrange (writerIndex b') (readerIndex b' + length body) (buf_data b')\<rparr>\<rparr>, b')
       else Inl OutOfBounds)"
proof -
  define r where "r = parsed_request kPost path query v hs t (ctx_request c)"
  define r1 where "r1 = r\<lparr>rq_headers := put_headers phs (rq_headers r)\<rparr>"
  obtain b0 where b0: "parseRequest t c b =
      parse_loop t True (c\<lparr>ctx_state := kExpectBody, ctx_request := r\<rparr>) b0"
      "buffer_inv b0" "content b0 = body"
    using parse_loop_request[OF assms(1,2,4,5,12), of t] by (auto simp: r_def)
  have rm: "rq_method r = kPost" by (simp add: r_def parsed_request_def)
  have "content b0 = bline @ crlf @ render_headers phs @ data" using b0(3) assms(10) by simp
  moreover have "data \<noteq> []" using assms(9) by auto
  ultimately obtain b' where b': "parse_body r b0 = bind_r (addcontent b' r1) (\<lambda>r3. Inr (r3, b'))"
      "buffer_inv b'" "content b' = data"
    using parse_body_multipart[OF rm b0(2) assms(6,7,8,3)] unfolding r1_def by blast
  have len: "readableBytes b' = length data" using b'(2,3) by (simp flip: length_content)
  have longer: "length data < length body" using assms(10) by (simp add: crlf_def)
  have hl: "rq_headers r1 ''Content-Length'' = Some (show_nat (length body))"
    using assms(13) by (simp add: r1_def r_def parsed_request_def)
  have "addcontent b' r1 = bind_r (string_at_peek (length body) b') (\<lambda>s. Inr (r1\<lparr>m_string := s\<rparr>))"
    using b' assms(9,11) len hl by (simp add: addcontent_ok)
  moreover have "string_at_peek (length body) b' =
      (if readerIndex b' + length body \<le> length (buf_data b')
       then Inr (data @ subrange (writerIndex b') (readerIndex b' + length body) (buf_data b'))
       else Inl OutOfBounds)"
    using b' len longer string_at_peek_beyond[of b' "length body"] by (auto simp: string_at_peek_def)
  moreover have "r1 = parsed_request kPost path query v (hs @ phs) t (ctx_request c)"
    by (simp add: r1_def r_def parsed_request_def put_headers_def)
  ultimately show ?thesis using b0(1) b' longer
    by (intro exI[of _ b']) (auto simp: parse_loop_body)
qed

theorem multipart_upload_overreads_witness:
  "\<exists>b'. content b' = ''xyz'' \<and>
    parseRequest 7 new_HttpContext
      (buffer_of (render_line kPost ''/up'' [] kHttp11 @ crlf @
                  render_headers [(''Content-Length'', show_nat 9)] @ ''--'' @ crlf @ crlf @ ''xyz'')) =
      (if readerIndex b' + 9 \<le> length (buf_data b')
       then Inr (True, new_HttpContext\<lparr>ctx_state := kGotAll, ctx_request :=
          (parsed_request kPost ''/up'' [] kHttp11 [(''Content-Length'', show_nat 9)] 7 new_HttpRequest)
            \<lparr>m_string := ''xyz'' @ subrange (writerIndex b') (readerIndex b' + 9) (buf_data b')\<rparr>\<rparr>, b')
       else Inl OutOfBounds)"
proof -
  define hs where "hs = [(''Content-Length'', show_nat 9)]"
  define body where "body = ''--'' @ crlf @ crlf @ ''xyz''"
  define b where "b = buffer_of (render_line kPost ''/up'' [] kHttp11 @ crlf @ render_headers hs @ body)"
  have s9: "show_nat 9 = ''9''" by code_simp
  have len: "length body = 9" by (simp add: body_def crlf_def)
  have line: "wf_line kPost ''/up'' [] kHttp11" by (simp add: wf_line_def CR_def)
  have hdr: "\<forall>h \<in> set hs. wf_header h" by (simp add: hs_def wf_header_def s9 CR_def isspace_def)
  have phs: "\<forall>h \<in> set ([] :: (string \<times> string) list). wf_header h" by simp
  have inv: "buffer_inv b" by (simp add: b_def body_def hs_def s9 render_line_def render_headers_def
        render_header_def version_string_def crlf_def)
  have ctx: "ctx_state new_HttpContext = kExpectRequestLine" by (simp add: new_HttpContext_def)
  have body: "body = ''--'' @ crlf @ render_headers [] @ ''xyz''" by (simp add: body_def render_headers_def)
  have cont: "content b = render_line kPost ''/up'' [] kHttp11 @ crlf @ render_headers hs @ body"
    by (simp add: b_def)
  have cl: "put_headers [] (put_headers hs (rq_headers (ctx_request new_HttpContext)))
      ''Content-Length'' = Some (show_nat (length body))"
    by (simp add: hs_def put_headers_def len)
  show ?thesis
    using multipart_upload_overreads[OF line hdr phs inv ctx _ _ _ _ body _ cont cl, of 7]
    unfolding len by (simp add: CR_def b_def hs_def body_def new_HttpContext_def
        split del: if_split cong: if_cong)
qed

text \<open>
  C34: the parser's return value cannot be true on a later call. Once the request line was
  consumed, every further call reports an error, also one that completes the request; and a call
  that finds no complete request line reports an error too. A request that arrives in more than
  one segment is therefore answered with 400.
\<close>

theorem parse_resumed_fails:
  assumes "parseRequest t c b = Inr (ok, c', b')"
    and "ctx_state c \<noteq> kExpectRequestLine \<or> findCRLF b = None"
  shows "\<not> ok"
proof (cases "ctx_state c = kExpectRequestLine")
  case True
  with assms show ?thesis by (subst (asm) parseRequest_def, subst (asm) parse_loop.simps) auto
next
  case False
  with assms(1) show ?thesis using parse_loop_keeps_ok[of c t False b ok c' b']
    by (simp add: parseRequest_def)
qed

theorem parse_resumed_fails_witness:
  "\<not> fst (the (case parseRequest 7 new_HttpContext (buffer_of ''GET / HT'') of
               Inr x \<Rightarrow> Some x | Inl _ \<Rightarrow> None))"
proof -
  have none: "findCRLF (buffer_of ''GET / HT'') = None"
    by (simp add: findCRLF_def buffer_of_def subrange_def crlf_def CR_def LF_def)
  then have p: "parseRequest 7 new_HttpContext (buffer_of ''GET / HT'') =
      Inr (False, new_HttpContext, buffer_of ''GET / HT'')"
    by (subst parseRequest_def, subst parse_loop.simps) (simp add: new_HttpContext_def)
  show ?thesis using parse_resumed_fails[OF p] none p by simp
qed

text \<open>
  C31: for requests other than POST the parser is total and memory safe: from the start of a
  request or in the middle of its headers it returns (no fault, no endless loop), keeps the
  buffer's invariant and only consumes bytes from the front.
\<close>

theorem parse_safe_without_post:
  assumes "buffer_inv b"
    and "ctx_state c = kExpectRequestLine \<and> take 5 (content b) \<noteq> ''POST '' \<or>
         ctx_state c = kExpectHeaders \<and> rq_method (ctx_request c) \<noteq> kPost"
  shows "\<exists>ok c' b' n. parseRequest t c b = Inr (ok, c', b') \<and> buffer_inv b' \<and>
           content b' = drop n (content b)"
proof (cases "ctx_state c = kExpectRequestLine")
  case True
  with assms(2) have np: "take 5 (content b) \<noteq> ''POST ''" by simp
  show ?thesis
  proof (cases "findCRLF b")
    case None
    with True assms(1) show ?thesis
      by (subst parseRequest_def, subst parse_loop.simps) (auto intro: exI[of _ 0])
  next
    case (Some i)
    obtain ok r' where pl: "processRequestLine (take i (content b)) (ctx_request c) = (ok, r')"
      by fastforce
    show ?thesis
    proof (cases ok)
      case False
      with True assms(1) Some pl show ?thesis
        by (subst parseRequest_def, subst parse_loop.simps) (auto intro: exI[of _ 0])
    next
      case ok: True
      define c1 where "c1 = c\<lparr>ctx_state := kExpectHeaders, ctx_request := setReceiveTime t r'\<rparr>"
      define b1 where "b1 = retrieveUntil (readerIndex b + i + 2) b"
      have "take 5 (take i (content b)) = ''POST '' \<Longrightarrow> take 5 (content b) = ''POST ''"
        by (cases "5 \<le> i") (auto dest: arg_cong[where f = length] simp: min_def split: if_splits)
      then have "rq_method r' \<noteq> kPost"
        using ok pl np processRequestLine_method[of "take i (content b)" "ctx_request c" r']
          post_line_prefix[of "take i (content b)"] by auto
      moreover have b1: "buffer_inv b1" "content b1 = drop (i + 2) (content b)"
        using assms(1) retrieveUntil_ahead[of b "i + 2"] by (simp_all add: b1_def add.assoc)
      ultimately obtain c' b' n where "parse_loop t True c1 b1 = Inr (True, c', b')" "buffer_inv b'"
          "content b' = drop n (content b1)"
        using parse_loop_safe[of b1 c1 t True] by (auto simp: c1_def setReceiveTime_def)
      moreover have "parseRequest t c b = parse_loop t True c1 b1"
        using True Some pl ok
        by (subst parseRequest_def, subst parse_loop.simps) (simp add: c1_def b1_def)
      ultimately show ?thesis using b1(2) by (metis drop_drop)
    qed
  qed
next
  case False
  with assms show ?thesis using parse_loop_safe[of b c t False] by (auto simp: parseRequest_def)
qed

theorem parse_safe_without_post_witness:
  "\<exists>ok c' b' n. parseRequest 7 new_HttpContext (buffer_of ''BREW / HTCPCP'') = Inr (ok, c', b') \<and>
     buffer_inv b' \<and> content b' = drop n ''BREW / HTCPCP''"
  using parse_safe_without_post[of "buffer_of ''BREW / HTCPCP''" new_HttpContext 7]
  by (simp add: new_HttpContext_def)

text \<open>
  \<open>reset\<close> does not clear the body: \<open>HttpRequest::swap\<close> leaves \<open>m_string\<close> out. After a request
  has been handled and the context reset, the next body-less request is delivered with the
  previous body still in it.
\<close>

theorem stale_body_after_reset:
  assumes "wf_line m path query v" "\<forall>h \<in> set hs. wf_header h" "m \<noteq> kPost" "buffer_inv b"
    and "content b = render_line m path query v @ crlf @ render_headers hs @ rest"
  shows "\<exists>c' b'. parseRequest t (reset c) b = Inr (True, c', b') \<and> gotAll c' \<and>
           rq_headers (ctx_request c') = put_headers hs Map.empty \<and>
           m_string (ctx_request c') = m_string (ctx_request c)"
proof -
  have "ctx_state (reset c) = kExpectRequestLine" by (simp add: reset_def)
  then show ?thesis using parse_loop_request[OF assms(1,2,4) _ assms(5), of "reset c" t] assms(3)
    by (auto simp: parse_loop_body parse_body_def parsed_request_def gotAll_def reset_def
          swap_request_def new_HttpRequest_def)
qed

theorem stale_body_after_reset_witness:
  "\<exists>c' b'. parseRequest 7
      (reset (new_HttpContext\<lparr>ctx_request := new_HttpRequest\<lparr>m_string := ''secret''\<rparr>\<rparr>))
      (buffer_of (render_line kGet ''/'' [] kHttp11 @ crlf @ render_headers [])) = Inr (True, c', b') \<and>
    gotAll c' \<and> rq_headers (ctx_request c') = Map.empty \<and> m_string (ctx_request c') = ''secret''"
  using stale_body_after_reset[of kGet "''/''" "[]" kHttp11 "[]"
      "buffer_of (render_line kGet ''/'' [] kHttp11 @ crlf @ render_headers [])" "[]" 7
      "new_HttpContext\<lparr>ctx_request := new_HttpRequest\<lparr>m_string := ''secret''\<rparr>\<rparr>"]
  by (simp add: wf_line_def CR_def put_headers_def
        render_line_def render_headers_def version_string_def crlf_def)

end
