(* ===== verification/Http_Response.thy ===== *)
theory Http_Response
  imports Http_Context
begin

text \<open>
  \<open>src/src/http/HttpResponse.h\<close> and \<open>HttpResponse.cc\<close>: the response object and its serialisation
  into the output buffer. The iteration order of the \<open>unordered_map\<close> \<open>headers_\<close> is not specified,
  so \<open>appendToBuffer\<close> takes the order as a list; the lemmas hold for every enumeration of the map.
\<close>

section \<open>State and operations\<close>

datatype StatusCode = kUnknownCode | k200Ok | k204NoContent | k206Partitial
  | k301MovedPermanently | k400BadRequest | k404NotFound | k500InternalError

fun status_value :: "StatusCode \<Rightarrow> nat" where
  "status_value kUnknownCode = 0"
| "status_value k200Ok = 200"
| "status_value k204NoContent = 204"
| "status_value k206Partitial = 206"
| "status_value k301MovedPermanently = 301"
| "status_value k400BadRequest = 400"
| "status_value k404NotFound = 404"
| "status_value k500InternalError = 500"

text \<open>\<open>len_\<close> is not initialised by the constructor: \<open>None\<close>.\<close>

record HttpResponse =
  rs_headers :: "string \<rightharpoonup> string"
  statusCode :: StatusCode
  statusMessage :: string
  closeConnection :: bool
  rs_body :: string
  rs_fd :: int
  rs_len :: "int option"

definition new_HttpResponse :: "bool \<Rightarrow> HttpResponse" where
  "new_HttpResponse close = \<lparr>rs_headers = Map.empty, statusCode = kUnknownCode, statusMessage = [],
     closeConnection = close, rs_body = [], rs_fd = -1, rs_len = None\<rparr>"

definition setStatusCode :: "StatusCode \<Rightarrow> HttpResponse \<Rightarrow> HttpResponse" where
  "setStatusCode c r = r\<lparr>statusCode := c\<rparr>"

definition setStatusMessage :: "string \<Rightarrow> HttpResponse \<Rightarrow> HttpResponse" where
  "setStatusMessage m r = r\<lparr>statusMessage := m\<rparr>"

definition setCloseConnection :: "bool \<Rightarrow> HttpResponse \<Rightarrow> HttpResponse" where
  "setCloseConnection on r = r\<lparr>closeConnection := on\<rparr>"

definition addHeader_rs :: "string \<Rightarrow> string \<Rightarrow> HttpResponse \<Rightarrow> HttpResponse" where
  "addHeader_rs k v r = r\<lparr>rs_headers := (rs_headers r)(k \<mapsto> v)\<rparr>"

definition setContentType :: "string \<Rightarrow> HttpResponse \<Rightarrow> HttpResponse" where
  "setContentType t = addHeader_rs ''Content-Type'' t"

definition setDisposition :: "string \<Rightarrow> HttpResponse \<Rightarrow> HttpResponse" where
  "setDisposition file = addHeader_rs ''Content-Disposition'' (''attachment;filename='' @ file)"

definition setBody :: "string \<Rightarrow> HttpResponse \<Rightarrow> HttpResponse" where
  "setBody s r = r\<lparr>rs_body := s\<rparr>"

definition needSendFile :: "HttpResponse \<Rightarrow> bool" where
  "needSendFile r \<longleftrightarrow> rs_fd r \<noteq> -1"

definition setFd :: "int \<Rightarrow> HttpResponse \<Rightarrow> HttpResponse" where
  "setFd fd r = r\<lparr>rs_fd := fd\<rparr>"

definition setSendLen :: "int \<Rightarrow> HttpResponse \<Rightarrow> HttpResponse" where
  "setSendLen len r = r\<lparr>rs_len := Some len\<rparr>"

text \<open>The status line prefix in the 32 byte array \<open>buf\<close>, cut like \<open>snprintf\<close> cuts.\<close>

definition status_prefix :: "HttpResponse \<Rightarrow> string" where
  "status_prefix r = take 31 (''HTTP/1.1 '' @ show_nat (status_value (statusCode r)) @ '' '')"

text \<open>The pieces in the order of the \<open>append\<close> calls; \<open>hs\<close> is the iteration order of the headers.\<close>

definition response_pieces :: "(string \<times> string) list \<Rightarrow> HttpResponse \<Rightarrow> string list" where
  "response_pieces hs r =
     [status_prefix r, statusMessage r, crlf] @
     (if closeConnection r then [''Connection: close'' @ crlf]
      else [status_prefix r, ''Connection: Keep-Alive'' @ crlf]) @
     concat (map (\<lambda>(k, v). [k, '': '', v, crlf]) hs) @ [crlf, rs_body r]"

definition appendToBuffer ::
  "(string \<times> string) list \<Rightarrow> HttpResponse \<Rightarrow> Buffer \<Rightarrow> Buffer result" where
  "appendToBuffer hs r output = append_all Buffer_append (response_pieces hs r) output"

definition enumerates :: "(string \<times> string) list \<Rightarrow> (string \<rightharpoonup> string) \<Rightarrow> bool" where
  "enumerates hs m \<longleftrightarrow> distinct (map fst hs) \<and> map_of hs = m"

section \<open>Lemmas\<close>

lemma show_nat_status: "length (show_nat (status_value c)) \<le> 3"
  by (rule length_show_nat) (cases c; simp)+

lemma status_prefix_full:
  "status_prefix r = ''HTTP/1.1 '' @ show_nat (status_value (statusCode r)) @ '' ''"
  using show_nat_status[of "statusCode r"] by (simp add: status_prefix_def)

lemma status_prefix_no_special: "CR \<notin> set (status_prefix r)" "CHR '':'' \<notin> set (status_prefix r)"
proof -
  have "\<not> isdigit CR" "\<not> isdigit (CHR '':'')" by (simp_all add: isdigit_def CR_def)
  then show "CR \<notin> set (status_prefix r)" "CHR '':'' \<notin> set (status_prefix r)"
    using show_nat_digits by (auto simp: status_prefix_full CR_def[symmetric]) (auto simp: CR_def)
qed

text \<open>The serialised headers are the header block of the request syntax.\<close>

lemma concat_header_pieces:
  "concat (concat (map (\<lambda>(k, v). [k, '': '', v, crlf]) hs)) = concat (map (\<lambda>h. render_header h @ crlf) hs)"
  by (induction hs) (auto simp: render_header_def)

lemma concat_response_pieces:
  "concat (response_pieces hs r) =
     status_prefix r @ statusMessage r @ crlf @
     render_headers ((if closeConnection r then (''Connection'', ''close'')
                      else (status_prefix r @ ''Connection'', ''Keep-Alive'')) # hs) @ rs_body r"
  by (simp add: response_pieces_def concat_header_pieces render_headers_def render_header_def)

lemma put_headers_enumerates:
  "enumerates hs m \<Longrightarrow> put_headers hs m0 = m0 ++ m"
proof (induction hs arbitrary: m m0)
  case Nil
  then show ?case by (auto simp: enumerates_def put_headers_def)
next
  case (Cons h hs)
  then have "enumerates hs (map_of hs)" "m = (map_of hs)(fst h \<mapsto> snd h)"
      "fst h \<notin> dom (map_of hs)"
    by (auto simp: enumerates_def dom_map_of_conv_image_fst)
  then have "put_headers hs (m0(fst h \<mapsto> snd h)) = m0(fst h \<mapsto> snd h) ++ map_of hs"
      "m0(fst h \<mapsto> snd h) ++ map_of hs = m0 ++ m"
    using Cons.IH[of "map_of hs" "m0(fst h \<mapsto> snd h)"] by (simp_all only: map_add_upd_left map_add_upd simp_thms)
  then show ?case by (simp only: put_headers_def foldl_Cons)
qed

text \<open>The header that comes out for the connection mode, and what a reader of the buffer finds.\<close>

definition connection_header :: "HttpResponse \<Rightarrow> string \<times> string" where
  "connection_header r = (if closeConnection r then (''Connection'', ''close'')
                          else (status_prefix r @ ''Connection'', ''Keep-Alive''))"

definition status_line :: "HttpResponse \<Rightarrow> string" where
  "status_line r = ''HTTP/1.1 '' @ show_nat (status_value (statusCode r)) @ '' '' @ statusMessage r"

lemma wf_connection_header: "wf_header (connection_header r)"
  using status_prefix_no_special[of r]
  by (simp add: connection_header_def wf_header_def isspace_def) (simp add: CR_def)

lemma response_read_back:
  assumes "enumerates hs (rs_headers r)" "\<forall>h \<in> set hs. wf_header h" "CR \<notin> set (statusMessage r)"
    and "buffer_inv b" "content b = []" "length (concat (response_pieces hs r)) < 2 ^ 31"
    and "writerIndex b < 2 ^ 31" "rq_method (ctx_request c) \<noteq> kPost" "ctx_state c = kExpectHeaders"
    and "rq_headers (ctx_request c) = Map.empty" "fst (connection_header r) \<notin> dom (rs_headers r)"
  shows "\<exists>b1 b2 c'. appendToBuffer hs r b = Inr b1 \<and> findCRLF b1 = Some (length (status_line r)) \<and>
    take (length (status_line r)) (content b1) = status_line r \<and>
    parseRequest t c (retrieveUntil (readerIndex b1 + length (status_line r) + 2) b1) =
      Inr (False, c', b2) \<and> gotAll c' \<and> content b2 = rs_body r \<and>
    rq_headers (ctx_request c') = (rs_headers r)(fst (connection_header r) \<mapsto> snd (connection_header r))"
proof -
  define conn where "conn = connection_header r"
  define line where "line = status_line r"
  have "concat (response_pieces hs r) = line @ crlf @ render_headers (conn # hs) @ rs_body r"
    by (simp add: concat_response_pieces conn_def connection_header_def line_def status_line_def
          status_prefix_full)
  then obtain b1 where b1: "appendToBuffer hs r b = Inr b1" "buffer_inv b1"
      "content b1 = line @ crlf @ render_headers (conn # hs) @ rs_body r"
    using bq.append_all_ok[of b "response_pieces hs r"] assms(4-7)
    by (auto simp: appendToBuffer_def vector_max_size_def)
  have cr: "CR \<notin> set line" using assms(3) status_prefix_no_special[of r]
    by (auto simp: line_def status_line_def status_prefix_full)
  define b2 where "b2 = retrieveUntil (readerIndex b1 + length line + 2) b1"
  have "b2 = retrieve (length line + 2) b1" using retrieveUntil_ahead[of b1 "length line + 2"]
    by (simp add: b2_def add.assoc)
  then have b2: "buffer_inv b2" "content b2 = render_headers (conn # hs) @ rs_body r"
    using lq.line_rest[OF b1(2,3)] by simp_all
  have "\<forall>h \<in> set (conn # hs). wf_header h" using assms(2) wf_connection_header by (simp add: conn_def)
  then obtain b3 where b3: "content b3 = rs_body r" "parseRequest t c b2 = parse_loop t False
      (c\<lparr>ctx_state := kExpectBody,
         ctx_request := (ctx_request c)\<lparr>rq_headers := put_headers (conn # hs) Map.empty\<rparr>\<rparr>) b3"
    using parse_loop_headers[OF _ b2(1) assms(9) b2(2), of t False] assms(10)
    by (auto simp: parseRequest_def)
  have "put_headers (conn # hs) Map.empty = [fst conn \<mapsto> snd conn] ++ rs_headers r"
    using put_headers_enumerates[OF assms(1), of "[fst conn \<mapsto> snd conn]"] by (simp add: put_headers_def)
  also have "\<dots> = (rs_headers r)(fst conn \<mapsto> snd conn)"
    using assms(11) by (simp add: map_add_upd_left conn_def)
  finally have h: "put_headers (conn # hs) Map.empty = (rs_headers r)(fst conn \<mapsto> snd conn)" .
  show ?thesis using b1 lq.line_eol[OF cr b1(3)] b3[unfolded b2_def] h assms(8)
    unfolding line_def[symmetric] conn_def[symmetric]
    by (auto simp: parse_loop_body parse_body_def gotAll_def)
qed

section \<open>Properties\<close>

text \<open>The reader of a response: the header parser of the server itself, past the status line.\<close>

definition response_reader :: HttpContext where
  "response_reader = new_HttpContext\<lparr>ctx_state := kExpectHeaders\<rparr>"

text \<open>
  C25: a response that closes the connection is read back from the output buffer as it was set:
  the first line is the status line, the header parser finds exactly \<open>Connection: close\<close> and the
  headers that were set, and what remains behind the blank line is the body; the append does not
  fail below the 2 GiB limit.
\<close>

theorem response_roundtrip:
  assumes "enumerates hs (rs_headers r)" "\<forall>h \<in> set hs. wf_header h" "CR \<notin> set (statusMessage r)"
    and "closeConnection r" "''Connection'' \<notin> dom (rs_headers r)"
    and "buffer_inv b" "content b = []" "length (concat (response_pieces hs r)) < 2 ^ 31"
    and "writerIndex b < 2 ^ 31"
  shows "\<exists>b1 b2 c'. appendToBuffer hs r b = Inr b1 \<and> findCRLF b1 = Some (length (status_line r)) \<and>
    take (length (status_line r)) (content b1) = status_line r \<and>
    parseRequest t response_reader (retrieveUntil (readerIndex b1 + length (status_line r) + 2) b1) =
      Inr (False, c', b2) \<and> gotAll c' \<and> content b2 = rs_body r \<and>
    rq_headers (ctx_request c') = (rs_headers r)(''Connection'' \<mapsto> ''close'')"
  using response_read_back[of hs r b response_reader t] assms
  by (simp add: response_reader_def new_HttpContext_def new_HttpRequest_def connection_header_def)

theorem response_roundtrip_witness:
  "\<exists>b1 b2 c'. appendToBuffer [(''Content-Type'', ''text/html'')]
      (setBody ''hi'' (setContentType ''text/html'' (setStatusMessage ''OK''
        (setStatusCode k200Ok (new_HttpResponse True))))) (new_Buffer 1024) = Inr b1 \<and>
    findCRLF b1 = Some 15 \<and> take 15 (content b1) = ''HTTP/1.1 200 OK'' \<and>
    parseRequest 7 response_reader (retrieveUntil (readerIndex b1 + 15 + 2) b1) = Inr (False, c', b2) \<and>
    gotAll c' \<and> content b2 = ''hi'' \<and>
    rq_headers (ctx_request c') = [''Content-Type'' \<mapsto> ''text/html'', ''Connection'' \<mapsto> ''close'']"
proof -
  define r where "r = setBody ''hi'' (setContentType ''text/html'' (setStatusMessage ''OK''
        (setStatusCode k200Ok (new_HttpResponse True))))"
  have r: "rs_headers r = [''Content-Type'' \<mapsto> ''text/html'']" "statusMessage r = ''OK''"
      "closeConnection r" "rs_body r = ''hi''" "statusCode r = k200Ok"
    by (simp_all add: r_def setBody_def setContentType_def addHeader_rs_def setStatusMessage_def
          setStatusCode_def new_HttpResponse_def)
  have l: "status_line r = ''HTTP/1.1 200 OK''"
    unfolding status_line_def r by code_simp
  have l15: "length ''HTTP/1.1 200 OK'' = 15" by simp
  show ?thesis
    unfolding r_def[symmetric]
    using response_roundtrip[of "[(''Content-Type'', ''text/html'')]" r "new_Buffer 1024" 7,
        unfolded l l15]
    by (simp add: r l15 enumerates_def wf_header_def CR_def isspace_def response_pieces_def
          status_prefix_def new_Buffer_inv vector_max_size_def)
qed

text \<open>
  A response that keeps the connection open is malformed: the status line prefix is appended a
  second time in front of \<open>Connection: Keep-Alive\<close>, so a reader finds a header of the name
  \<open>HTTP/1.1 200 Connection\<close> and none of the name \<open>Connection\<close>.
\<close>

theorem keep_alive_response_malformed:
  assumes "enumerates hs (rs_headers r)" "\<forall>h \<in> set hs. wf_header h" "CR \<notin> set (statusMessage r)"
    and "\<not> closeConnection r" "statusCode r = k200Ok"
    and "''Connection'' \<notin> dom (rs_headers r)" "''HTTP/1.1 200 Connection'' \<notin> dom (rs_headers r)"
    and "buffer_inv b" "content b = []" "length (concat (response_pieces hs r)) < 2 ^ 31"
    and "writerIndex b < 2 ^ 31"
  shows "\<exists>b1 b2 c'. appendToBuffer hs r b = Inr b1 \<and>
    parseRequest t response_reader (retrieveUntil (readerIndex b1 + length (status_line r) + 2) b1) =
      Inr (False, c', b2) \<and> gotAll c' \<and>
    rq_headers (ctx_request c') ''Connection'' = None \<and>
    rq_headers (ctx_request c') ''HTTP/1.1 200 Connection'' = Some ''Keep-Alive''"
proof -
  have "show_nat 200 = ''200''" by code_simp
  then have "connection_header r = (''HTTP/1.1 200 Connection'', ''Keep-Alive'')"
    using assms(4,5) by (simp add: connection_header_def status_prefix_full)
  then show ?thesis
    using response_read_back[of hs r b response_reader t] assms
    by (fastforce simp: response_reader_def new_HttpContext_def new_HttpRequest_def domIff)
qed

theorem keep_alive_response_malformed_witness:
  "\<exists>b1 b2 c'. appendToBuffer [] (setStatusMessage ''OK'' (setStatusCode k200Ok (new_HttpResponse False)))
      (new_Buffer 1024) = Inr b1 \<and>
    parseRequest 7 response_reader (retrieveUntil (readerIndex b1 + 15 + 2) b1) =
      Inr (False, c', b2) \<and> gotAll c' \<and>
    rq_headers (ctx_request c') ''Connection'' = None \<and>
    rq_headers (ctx_request c') ''HTTP/1.1 200 Connection'' = Some ''Keep-Alive''"
proof -
  define r where "r = setStatusMessage ''OK'' (setStatusCode k200Ok (new_HttpResponse False))"
  have r: "rs_headers r = Map.empty" "statusMessage r = ''OK''"
      "\<not> closeConnection r" "rs_body r = []" "statusCode r = k200Ok"
    by (simp_all add: r_def setStatusMessage_def setStatusCode_def new_HttpResponse_def)
  have l: "status_line r = ''HTTP/1.1 200 OK''" unfolding status_line_def r by code_simp
  have l15: "length ''HTTP/1.1 200 OK'' = 15" by simp
  show ?thesis
    unfolding r_def[symmetric]
    using keep_alive_response_malformed[of "[]" r "new_Buffer 1024" 7, unfolded l l15]
    by (simp add: r enumerates_def CR_def response_pieces_def status_prefix_def new_Buffer_inv
          vector_max_size_def)
qed

end
