(* ===== verification/Net_Channel.thy ===== *)
theory Net_Channel
  imports Prelude
begin

unbundle bit_operations_syntax

text \<open>
  \<open>src/src/net/Channel.h\<close> and \<open>Channel.cc\<close>: a file descriptor with the events it waits for and the
  callbacks for them. Event masks are 32 bit words. The registration with the poller
  (\<open>update\<close>, \<open>remove\<close>) is in \<open>EPoll_Poller\<close>; here are the mask operations and the dispatch of the
  returned events to the callbacks. A \<open>std::function\<close> member is the flag whether it is set; the
  dispatch gives the callbacks in the order they are invoked.
\<close>

section \<open>State and operations\<close>

definition EPOLLIN :: "32 word" where "EPOLLIN = 0x001"
definition EPOLLPRI :: "32 word" where "EPOLLPRI = 0x002"
definition EPOLLOUT :: "32 word" where "EPOLLOUT = 0x004"
definition EPOLLERR :: "32 word" where "EPOLLERR = 0x008"
definition EPOLLHUP :: "32 word" where "EPOLLHUP = 0x010"

definition kNoneEvent :: "32 word" where "kNoneEvent = 0"
definition kReadEvent :: "32 word" where "kReadEvent = EPOLLIN OR EPOLLPRI"
definition kWriteEvent :: "32 word" where "kWriteEvent = EPOLLOUT"

text \<open>The registration status kept in \<open>index_\<close>.\<close>

definition kNew :: int where "kNew = -1"
definition kAdded :: int where "kAdded = 1"
definition kDeleted :: int where "kDeleted = 2"

record Channel =
  ch_fd :: int
  ch_events :: "32 word"
  ch_revents :: "32 word"
  ch_index :: int
  ch_tied :: bool
  has_readCb :: bool
  has_writeCb :: bool
  has_closeCb :: bool
  has_errorCb :: bool

definition new_Channel :: "int \<Rightarrow> Channel" where
  "new_Channel fd = \<lparr>ch_fd = fd, ch_events = 0, ch_revents = 0, ch_index = -1, ch_tied = False,
     has_readCb = False, has_writeCb = False, has_closeCb = False, has_errorCb = False\<rparr>"

definition setReadCallback :: "Channel \<Rightarrow> Channel" where "setReadCallback c = c\<lparr>has_readCb := True\<rparr>"
definition setWriteCallback :: "Channel \<Rightarrow> Channel" where "setWriteCallback c = c\<lparr>has_writeCb := True\<rparr>"
definition setCloseCallback :: "Channel \<Rightarrow> Channel" where "setCloseCallback c = c\<lparr>has_closeCb := True\<rparr>"
definition setErrorCallback :: "Channel \<Rightarrow> Channel" where "setErrorCallback c = c\<lparr>has_errorCb := True\<rparr>"

definition tie :: "Channel \<Rightarrow> Channel" where "tie c = c\<lparr>ch_tied := True\<rparr>"

definition set_revents :: "32 word \<Rightarrow> Channel \<Rightarrow> Channel" where
  "set_revents r c = c\<lparr>ch_revents := r\<rparr>"

definition set_index :: "int \<Rightarrow> Channel \<Rightarrow> Channel" where
  "set_index i c = c\<lparr>ch_index := i\<rparr>"

text \<open>The changes of the mask, before \<open>update()\<close> passes them on.\<close>

datatype ch_op = EnableReading | DisableReading | EnableWriting | DisableWriting | DisableAll

fun apply_op :: "ch_op \<Rightarrow> Channel \<Rightarrow> Channel" where
  "apply_op EnableReading c = c\<lparr>ch_events := ch_events c OR kReadEvent\<rparr>"
| "apply_op DisableReading c = c\<lparr>ch_events := ch_events c AND NOT kReadEvent\<rparr>"
| "apply_op EnableWriting c = c\<lparr>ch_events := ch_events c OR kWriteEvent\<rparr>"
| "apply_op DisableWriting c = c\<lparr>ch_events := ch_events c AND NOT kWriteEvent\<rparr>"
| "apply_op DisableAll c = c\<lparr>ch_events := ch_events c AND kNoneEvent\<rparr>"

text \<open>The same change on the mask alone.\<close>

fun mask_op :: "ch_op \<Rightarrow> 32 word \<Rightarrow> 32 word" where
  "mask_op EnableReading m = m OR kReadEvent"
| "mask_op DisableReading m = m AND NOT kReadEvent"
| "mask_op EnableWriting m = m OR kWriteEvent"
| "mask_op DisableWriting m = m AND NOT kWriteEvent"
| "mask_op DisableAll m = m AND kNoneEvent"

definition isNoneEvent :: "Channel \<Rightarrow> bool" where
  "isNoneEvent c \<longleftrightarrow> ch_events c = kNoneEvent"

definition isWriting :: "Channel \<Rightarrow> bool" where
  "isWriting c \<longleftrightarrow> ch_events c AND kWriteEvent \<noteq> 0"

definition isReading :: "Channel \<Rightarrow> bool" where
  "isReading c \<longleftrightarrow> ch_events c AND kReadEvent \<noteq> 0"

datatype callback = CloseCb | ErrorCb | ReadCb int | WriteCb

definition handleEventWithGuard :: "int \<Rightarrow> Channel \<Rightarrow> callback list" where
  "handleEventWithGuard receiveTime c =
     (let re = ch_revents c in
      (if re AND EPOLLHUP \<noteq> 0 \<and> re AND EPOLLIN = 0 \<and> has_closeCb c then [CloseCb] else []) @
      (if re AND EPOLLERR \<noteq> 0 \<and> has_errorCb c then [ErrorCb] else []) @
      (if re AND (EPOLLIN OR EPOLLPRI) \<noteq> 0 \<and> has_readCb c then [ReadCb receiveTime] else []) @
      (if re AND EPOLLOUT \<noteq> 0 \<and> has_writeCb c then [WriteCb] else []))"

text \<open>\<open>alive\<close> is whether the tied object still exists (\<open>tie_.lock()\<close> is not null).\<close>

definition handleEvent :: "bool \<Rightarrow> int \<Rightarrow> Channel \<Rightarrow> callback list" where
  "handleEvent alive receiveTime c =
     (if ch_tied c then if alive then handleEventWithGuard receiveTime c else []
      else handleEventWithGuard receiveTime c)"

section \<open>Lemmas\<close>

lemmas epoll_masks = EPOLLIN_def EPOLLPRI_def EPOLLOUT_def EPOLLERR_def EPOLLHUP_def
  kNoneEvent_def kReadEvent_def kWriteEvent_def

lemma index_distinct [simp]:
  "kNew \<noteq> kAdded" "kAdded \<noteq> kNew" "kNew \<noteq> kDeleted" "kDeleted \<noteq> kNew"
  "kAdded \<noteq> kDeleted" "kDeleted \<noteq> kAdded"
  by (simp_all add: kNew_def kAdded_def kDeleted_def)

lemma apply_op_fields [simp]:
  "ch_fd (apply_op oper c) = ch_fd c" "ch_index (apply_op oper c) = ch_index c"
  "ch_revents (apply_op oper c) = ch_revents c" "ch_tied (apply_op oper c) = ch_tied c"
  by (cases oper; simp)+

lemma ch_events_apply_op [simp]: "ch_events (apply_op oper c) = mask_op oper (ch_events c)"
  by (cases oper) simp_all

lemma set_index_fields [simp]:
  "ch_fd (set_index i c) = ch_fd c" "ch_index (set_index i c) = i"
  "ch_events (set_index i c) = ch_events c" "isNoneEvent (set_index i c) = isNoneEvent c"
  by (simp_all add: set_index_def isNoneEvent_def)

lemma mask_bits:
  "bit (EPOLLIN) n \<longleftrightarrow> n = 0" "bit EPOLLPRI n \<longleftrightarrow> n = 1" "bit EPOLLOUT n \<longleftrightarrow> n = 2"
  "bit EPOLLERR n \<longleftrightarrow> n = 3" "bit EPOLLHUP n \<longleftrightarrow> n = 4"
proof -
  have e: "EPOLLIN = 2 ^ 0" "EPOLLPRI = 2 ^ 1" "EPOLLOUT = 2 ^ 2"
      "EPOLLERR = 2 ^ 3" "EPOLLHUP = 2 ^ 4"
    by (simp_all add: epoll_masks)
  show "bit EPOLLIN n \<longleftrightarrow> n = 0" "bit EPOLLPRI n \<longleftrightarrow> n = 1" "bit EPOLLOUT n \<longleftrightarrow> n = 2"
    "bit EPOLLERR n \<longleftrightarrow> n = 3" "bit EPOLLHUP n \<longleftrightarrow> n = 4"
    unfolding e by (auto simp only: bit_exp_iff possible_bit_word) simp_all
qed

text \<open>Reading and writing interest are independent: an operation changes its own bits only.\<close>

lemma isWriting_bit: "isWriting c \<longleftrightarrow> bit (ch_events c) 2"
  by (auto simp: isWriting_def kWriteEvent_def bit_eq_iff[where 'a = "32 word"] bit_and_iff mask_bits)

lemma isReading_bits: "isReading c \<longleftrightarrow> bit (ch_events c) 0 \<or> bit (ch_events c) 1"
  by (auto simp: isReading_def kReadEvent_def bit_eq_iff[where 'a = "32 word"] bit_and_iff bit_or_iff
        mask_bits intro: exI[of _ 0] exI[of _ 1])

lemma isWriting_ops [simp]:
  "isWriting (apply_op EnableWriting c)" "\<not> isWriting (apply_op DisableWriting c)"
  "\<not> isWriting (apply_op DisableAll c)" "isWriting (apply_op EnableReading c) = isWriting c"
  "isWriting (apply_op DisableReading c) = isWriting c"
  by (simp_all add: isWriting_bit kWriteEvent_def kReadEvent_def kNoneEvent_def bit_simps mask_bits)

lemma isReading_ops [simp]:
  "isReading (apply_op EnableReading c)" "\<not> isReading (apply_op DisableReading c)"
  "\<not> isReading (apply_op DisableAll c)" "isReading (apply_op EnableWriting c) = isReading c"
  "isReading (apply_op DisableWriting c) = isReading c"
  by (simp_all add: isReading_bits kWriteEvent_def kReadEvent_def kNoneEvent_def bit_simps mask_bits)

lemma isNoneEvent_disableAll [simp]: "isNoneEvent (apply_op DisableAll c)"
  by (simp add: isNoneEvent_def kNoneEvent_def)

end
