(* ===== verification/EPoll_Poller.thy ===== *)
theory EPoll_Poller
  imports Net_Channel
begin

text \<open>
  \<open>src/src/net/poller/\<close>: \<open>Poller\<close>, \<open>EPollPoller\<close> and \<open>DefaultPoller\<close>, with \<open>Channel::update\<close> and
  \<open>Channel::remove\<close>, which reach the poller through \<open>EventLoop\<close>. Channels are heap objects, named
  by their address; the poller's map and the kernel refer to them by it. The kernel's interest
  list is part of the state and \<open>epoll_ctl\<close> follows its manual page: \<open>ADD\<close> fails on a descriptor
  that is present, \<open>MOD\<close> and \<open>DEL\<close> fail on one that is absent, and a call may be refused for
  other reasons (\<open>deny\<close>). A failed \<open>ADD\<close> or \<open>MOD\<close> ends the process (\<open>LOG_FATAL\<close>).
\<close>

section \<open>State and operations\<close>

type_synonym addr = nat

record Poller =
  heap :: "addr \<rightharpoonup> Channel"
  channels :: "int \<rightharpoonup> addr"
  interest :: "int \<rightharpoonup> 32 word \<times> addr"
  events_size :: nat

definition kInitEventListSize :: nat where "kInitEventListSize = 16"

text \<open>\<open>epoll_create1\<close> may fail, which is fatal.\<close>

definition new_EPollPoller :: "int \<Rightarrow> Poller result" where
  "new_EPollPoller epollfd = (if epollfd < 0 then Inl Aborted
     else Inr \<lparr>heap = Map.empty, channels = Map.empty, interest = Map.empty,
               events_size = kInitEventListSize\<rparr>)"

text \<open>With \<open>MUDUO_USE_POLL\<close> in the environment there is no poller: a null pointer.\<close>

definition newDefaultPoller :: "bool \<Rightarrow> int \<Rightarrow> Poller option result" where
  "newDefaultPoller use_poll epollfd =
     (if use_poll then Inr None else bind_r (new_EPollPoller epollfd) (\<lambda>p. Inr (Some p)))"

definition hasChannel :: "addr \<Rightarrow> Poller \<Rightarrow> bool result" where
  "hasChannel a p = (case heap p a of None \<Rightarrow> Inl UseAfterFree
                     | Some c \<Rightarrow> Inr (channels p (ch_fd c) = Some a))"

datatype ctl = EPOLL_CTL_ADD | EPOLL_CTL_MOD | EPOLL_CTL_DEL

fun epoll_ctl :: "bool \<Rightarrow> ctl \<Rightarrow> int \<Rightarrow> 32 word \<times> addr \<Rightarrow> (int \<rightharpoonup> 32 word \<times> addr) \<Rightarrow>
    (int \<rightharpoonup> 32 word \<times> addr) option" where
  "epoll_ctl deny EPOLL_CTL_ADD fd ev m = (if deny \<or> m fd \<noteq> None then None else Some (m(fd \<mapsto> ev)))"
| "epoll_ctl deny EPOLL_CTL_MOD fd ev m = (if deny \<or> m fd = None then None else Some (m(fd \<mapsto> ev)))"
| "epoll_ctl deny EPOLL_CTL_DEL fd ev m = (if deny \<or> m fd = None then None else Some (m(fd := None)))"

definition update :: "bool \<Rightarrow> ctl \<Rightarrow> addr \<Rightarrow> Channel \<Rightarrow> Poller \<Rightarrow> Poller result" where
  "update deny operation a c p =
     (case epoll_ctl deny operation (ch_fd c) (ch_events c, a) (interest p) of
        Some m \<Rightarrow> Inr (p\<lparr>interest := m\<rparr>)
      | None \<Rightarrow> if operation = EPOLL_CTL_DEL then Inr p else Inl Aborted)"

definition updateChannel :: "bool \<Rightarrow> addr \<Rightarrow> Poller \<Rightarrow> Poller result" where
  "updateChannel deny a p =
     (case heap p a of
        None \<Rightarrow> Inl UseAfterFree
      | Some c \<Rightarrow>
          let index = ch_index c in
          if index = kNew \<or> index = kDeleted
          then let p1 = (if index = kNew then p\<lparr>channels := (channels p)(ch_fd c \<mapsto> a)\<rparr> else p);
                   p2 = p1\<lparr>heap := (heap p1)(a \<mapsto> set_index kAdded c)\<rparr>
               in update deny EPOLL_CTL_ADD a (set_index kAdded c) p2
          else if isNoneEvent c
               then bind_r (update deny EPOLL_CTL_DEL a c p) (\<lambda>p1.
                      Inr (p1\<lparr>heap := (heap p1)(a \<mapsto> set_index kDeleted c)\<rparr>))
               else update deny EPOLL_CTL_MOD a c p)"

definition removeChannel :: "bool \<Rightarrow> addr \<Rightarrow> Poller \<Rightarrow> Poller result" where
  "removeChannel deny a p =
     (case heap p a of
        None \<Rightarrow> Inl UseAfterFree
      | Some c \<Rightarrow>
          let p1 = p\<lparr>channels := (channels p)(ch_fd c := None)\<rparr> in
          bind_r (if ch_index c = kAdded then update deny EPOLL_CTL_DEL a c p1 else Inr p1) (\<lambda>p2.
            Inr (p2\<lparr>heap := (heap p2)(a \<mapsto> set_index kNew c)\<rparr>)))"

text \<open>\<open>Channel::enableReading\<close> and its siblings: change the mask, then \<open>update()\<close>.\<close>

definition channel_op :: "bool \<Rightarrow> ch_op \<Rightarrow> addr \<Rightarrow> Poller \<Rightarrow> Poller result" where
  "channel_op deny oper a p =
     (case heap p a of
        None \<Rightarrow> Inl UseAfterFree
      | Some c \<Rightarrow> updateChannel deny a (p\<lparr>heap := (heap p)(a \<mapsto> apply_op oper c)\<rparr>))"

text \<open>
  \<open>fillActiveChannels\<close> takes an \<open>int\<close>: its loop runs over the first \<open>numEvents\<close> entries, and not
  at all for a negative number.
\<close>

fun fillActive :: "nat \<Rightarrow> (32 word \<times> addr) list \<Rightarrow> Poller \<Rightarrow> (addr list \<times> Poller) result" where
  "fillActive 0 evs p = Inr ([], p)"
| "fillActive (Suc n) [] p = Inl OutOfBounds"
| "fillActive (Suc n) ((re, a) # evs) p =
     (case heap p a of
        None \<Rightarrow> Inl UseAfterFree
      | Some c \<Rightarrow> bind_r (fillActive n evs (p\<lparr>heap := (heap p)(a \<mapsto> set_revents re c)\<rparr>))
                    (\<lambda>(as, p'). Inr (a # as, p')))"

definition fillActiveChannels ::
  "int \<Rightarrow> (32 word \<times> addr) list \<Rightarrow> Poller \<Rightarrow> (addr list \<times> Poller) result" where
  "fillActiveChannels numEvents evs p = fillActive (nat numEvents) evs p"

text \<open>
  What \<open>epoll_wait\<close> returned: the array it filled, or an error. \<open>poll\<close> gives the active channels,
  the messages it logs and the poller; the return value is held in a \<open>size_t\<close>.
\<close>

datatype epoll_wait_result = EpReady "(32 word \<times> addr) list" | EpError errno
datatype poll_log = LogTimeout | LogPollFailed

fun epoll_ret :: "epoll_wait_result \<Rightarrow> int" where
  "epoll_ret (EpReady evs) = int (length evs)"
| "epoll_ret (EpError e) = -1"

fun epoll_evs :: "epoll_wait_result \<Rightarrow> (32 word \<times> addr) list" where
  "epoll_evs (EpReady evs) = evs"
| "epoll_evs (EpError e) = []"

fun epoll_errno :: "epoll_wait_result \<Rightarrow> errno" where
  "epoll_errno (EpReady evs) = OtherErrno 0"
| "epoll_errno (EpError e) = e"

definition poll :: "epoll_wait_result \<Rightarrow> Poller \<Rightarrow> (addr list \<times> poll_log list \<times> Poller) result" where
  "poll w p =
     (let numEvents = wrap64 (epoll_ret w) in
      if numEvents > 0
      then bind_r (fillActiveChannels (to_int32 (int numEvents)) (epoll_evs w) p) (\<lambda>(as, p1).
             Inr (as, [], if numEvents = events_size p1
                          then p1\<lparr>events_size := events_size p1 * 2\<rparr> else p1))
      else if numEvents = 0 then Inr ([], [LogTimeout], p)
      else if epoll_errno w \<noteq> EINTR then Inr ([], [LogPollFailed], p)
      else Inr ([], [], p))"

section \<open>Invariant\<close>

text \<open>
  The registration status of every channel agrees with the poller's map and the kernel: an added
  channel is in both, with the mask it asks for; a deleted one in the map only; a new one in
  neither.
\<close>

definition channel_ok :: "addr \<Rightarrow> Channel \<Rightarrow> Poller \<Rightarrow> bool" where
  "channel_ok a c p \<longleftrightarrow>
     (ch_index c = kAdded \<and> channels p (ch_fd c) = Some a \<and> interest p (ch_fd c) = Some (ch_events c, a)) \<or>
     (ch_index c = kDeleted \<and> channels p (ch_fd c) = Some a \<and> interest p (ch_fd c) = None) \<or>
     (ch_index c = kNew \<and> channels p (ch_fd c) \<noteq> Some a)"

definition poller_inv :: "Poller \<Rightarrow> bool" where
  "poller_inv p \<longleftrightarrow>
     (\<forall>a c. heap p a = Some c \<longrightarrow> channel_ok a c p) \<and>
     (\<forall>fd ev a. interest p fd = Some (ev, a) \<longrightarrow>
        (\<exists>c. heap p a = Some c \<and> ch_fd c = fd \<and> ch_index c = kAdded)) \<and>
     (\<forall>fd a. channels p fd = Some a \<longrightarrow> (\<exists>c. heap p a = Some c \<and> ch_fd c = fd \<and> ch_index c \<noteq> kNew))"

text \<open>No other channel is registered for the descriptor of \<open>a\<close>.\<close>

definition fd_free :: "addr \<Rightarrow> Poller \<Rightarrow> bool" where
  "fd_free a p \<longleftrightarrow> (case heap p a of None \<Rightarrow> False
     | Some c \<Rightarrow> channels p (ch_fd c) = None \<or> channels p (ch_fd c) = Some a)"

section \<open>The interface of an event registry\<close>

text \<open>
  What the abstract class \<open>Poller\<close> promises to the channels that register with it: an operation
  on a usable channel succeeds, afterwards the kernel watches exactly the mask the channel asks
  for, and no other channel is affected.
\<close>

fun run_channel_ops :: "(ch_op \<Rightarrow> addr \<Rightarrow> 'p \<Rightarrow> 'p result) \<Rightarrow> (addr \<times> ch_op) list \<Rightarrow> 'p \<Rightarrow> 'p result" where
  "run_channel_ops f [] p = Inr p"
| "run_channel_ops f ((a, oper) # ops) p = bind_r (f oper a p) (run_channel_ops f ops)"

locale event_registry =
  fixes invar :: "'p \<Rightarrow> bool"
    and usable :: "addr \<Rightarrow> 'p \<Rightarrow> bool"
    and requested :: "addr \<Rightarrow> 'p \<Rightarrow> 32 word"
    and watched :: "addr \<Rightarrow> 'p \<Rightarrow> 32 word"
    and apply_ch :: "ch_op \<Rightarrow> addr \<Rightarrow> 'p \<Rightarrow> 'p result"
    and drop_ch :: "addr \<Rightarrow> 'p \<Rightarrow> 'p result"
  assumes apply_ok: "invar p \<Longrightarrow> usable a p \<Longrightarrow> \<exists>p'. apply_ch oper a p = Inr p' \<and> invar p' \<and>
      usable a p' \<and> requested a p' = mask_op oper (requested a p) \<and> watched a p' = requested a p' \<and>
      (\<forall>b. b \<noteq> a \<longrightarrow> requested b p' = requested b p \<and> watched b p' = watched b p)"
    and drop_ok: "invar p \<Longrightarrow> usable a p \<Longrightarrow> \<exists>p'. drop_ch a p = Inr p' \<and> invar p' \<and>
      watched a p' = 0 \<and> (\<forall>b. b \<noteq> a \<longrightarrow> requested b p' = requested b p \<and> watched b p' = watched b p)"
begin

text \<open>Any sequence of operations on one channel succeeds and ends with the mask it computes.\<close>

lemma run_ops_ok:
  assumes "invar p" "usable a p" "watched a p = requested a p"
  shows "\<exists>p'. run_channel_ops apply_ch (map (Pair a) ops) p = Inr p' \<and> invar p' \<and> usable a p' \<and>
      watched a p' = fold mask_op ops (requested a p) \<and> requested a p' = watched a p' \<and>
      (\<forall>b. b \<noteq> a \<longrightarrow> watched b p' = watched b p)"
  using assms
proof (induction ops arbitrary: p)
  case (Cons oper ops)
  from apply_ok[OF Cons.prems(1,2), of oper] obtain p1 where p1: "apply_ch oper a p = Inr p1"
      "invar p1" "usable a p1" "requested a p1 = mask_op oper (requested a p)"
      "watched a p1 = requested a p1" "\<forall>b. b \<noteq> a \<longrightarrow> watched b p1 = watched b p" by blast
  with Cons.IH[of p1] show ?case by fastforce
qed simp

lemma ops_then_drop:
  assumes "invar p" "usable a p" "watched a p = requested a p"
  shows "\<exists>p1 p2. run_channel_ops apply_ch (map (Pair a) ops) p = Inr p1 \<and> drop_ch a p1 = Inr p2 \<and>
      invar p2 \<and> watched a p2 = 0 \<and> (\<forall>b. b \<noteq> a \<longrightarrow> watched b p2 = watched b p)"
  using run_ops_ok[OF assms, of ops] drop_ok by metis

end

definition requested_mask :: "addr \<Rightarrow> Poller \<Rightarrow> 32 word" where
  "requested_mask a p = (case heap p a of None \<Rightarrow> 0 | Some c \<Rightarrow> ch_events c)"

definition watched_mask :: "addr \<Rightarrow> Poller \<Rightarrow> 32 word" where
  "watched_mask a p = (case heap p a of None \<Rightarrow> 0
     | Some c \<Rightarrow> (case interest p (ch_fd c) of None \<Rightarrow> 0
                  | Some (ev, b) \<Rightarrow> if b = a then ev else 0))"

section \<open>Lemmas\<close>

lemma poller_invD:
  "poller_inv p \<Longrightarrow> heap p a = Some c \<Longrightarrow> channel_ok a c p"
  "poller_inv p \<Longrightarrow> interest p fd = Some (ev, a) \<Longrightarrow>
     \<exists>c. heap p a = Some c \<and> ch_fd c = fd \<and> ch_index c = kAdded"
  "poller_inv p \<Longrightarrow> channels p fd = Some a \<Longrightarrow>
     \<exists>c. heap p a = Some c \<and> ch_fd c = fd \<and> ch_index c \<noteq> kNew"
  by (simp_all add: poller_inv_def)

text \<open>The state after a successful registration or deregistration of one channel.\<close>

definition register_at :: "addr \<Rightarrow> Channel \<Rightarrow> Poller \<Rightarrow> Poller" where
  "register_at a c p = p\<lparr>heap := (heap p)(a \<mapsto> c),
     channels := (channels p)(ch_fd c := if ch_index c = kNew then None else Some a),
     interest := (interest p)(ch_fd c := if ch_index c = kAdded then Some (ch_events c, a) else None)\<rparr>"

lemma register_at_inv:
  assumes inv: "poller_inv p" and hc: "heap p a = Some c" and free: "fd_free a p"
    and c': "ch_fd c' = ch_fd c" "ch_index c' \<in> {kNew, kAdded, kDeleted}"
  shows "poller_inv (register_at a c' p)"
proof -
  have other: "ch_fd d \<noteq> ch_fd c \<or> ch_index d = kNew" if "heap p b = Some d" "b \<noteq> a" for b d
    using poller_invD(1)[OF inv that(1)] free that hc by (auto simp: channel_ok_def fd_free_def)
  have ok: "channel_ok b d (register_at a c' p)" if "heap (register_at a c' p) b = Some d" for b d
  proof (cases "b = a")
    case True
    with that c' show ?thesis by (auto simp: register_at_def channel_ok_def)
  next
    case False
    with that have "heap p b = Some d" by (simp add: register_at_def)
    then show ?thesis using other[OF _ False] poller_invD(1)[OF inv, of b d] False c'
      by (auto simp: channel_ok_def register_at_def)
  qed
  moreover have "\<exists>d. heap (register_at a c' p) b = Some d \<and> ch_fd d = fd \<and> ch_index d = kAdded"
    if i: "interest (register_at a c' p) fd = Some (ev, b)" for fd ev b
  proof (cases "fd = ch_fd c")
    case True
    with i c' show ?thesis by (auto simp: register_at_def split: if_splits)
  next
    case False
    with i c' have "interest p fd = Some (ev, b)" by (simp add: register_at_def)
    with poller_invD(2)[OF inv this] False hc c' show ?thesis by (auto simp: register_at_def)
  qed
  moreover have "\<exists>d. heap (register_at a c' p) b = Some d \<and> ch_fd d = fd \<and> ch_index d \<noteq> kNew"
    if i: "channels (register_at a c' p) fd = Some b" for fd b
  proof (cases "fd = ch_fd c")
    case True
    with i c' show ?thesis by (auto simp: register_at_def split: if_splits)
  next
    case False
    with i c' have "channels p fd = Some b" by (simp add: register_at_def)
    with poller_invD(3)[OF inv this] False hc c' show ?thesis by (auto simp: register_at_def)
  qed
  ultimately show ?thesis unfolding poller_inv_def by blast
qed

lemma interest_none_unless_added:
  assumes "poller_inv p" "heap p a = Some c" "fd_free a p" "ch_index c \<noteq> kAdded"
  shows "interest p (ch_fd c) = None"
proof (rule ccontr)
  assume "interest p (ch_fd c) \<noteq> None"
  then obtain ev b where i: "interest p (ch_fd c) = Some (ev, b)" by auto
  then obtain d where d: "heap p b = Some d" "ch_fd d = ch_fd c" "ch_index d = kAdded"
    using poller_invD(2)[OF assms(1)] by blast
  then have "channels p (ch_fd c) = Some b"
    using poller_invD(1)[OF assms(1) d(1)] by (auto simp: channel_ok_def)
  with assms(2-4) d show False by (auto simp: fd_free_def)
qed

text \<open>Every operation of a channel is a registration of the changed channel.\<close>

lemma channel_op_registers:
  assumes inv: "poller_inv p" and hc: "heap p a = Some c" and free: "fd_free a p"
  shows "\<exists>i. i \<in> {kAdded, kDeleted} \<and> (i = kDeleted \<longrightarrow> ch_events (apply_op oper c) = 0) \<and>
    channel_op False oper a p = Inr (register_at a (set_index i (apply_op oper c)) p)"
proof (cases "ch_index c = kAdded")
  case True
  then have ci: "channels p (ch_fd c) = Some a" "interest p (ch_fd c) = Some (ch_events c, a)"
    using poller_invD(1)[OF inv hc] by (auto simp: channel_ok_def)
  have cf: "channels p = (channels p)(ch_fd c := Some a)" using ci by (simp add: fun_upd_idem)
  show ?thesis
  proof (cases "isNoneEvent (apply_op oper c)")
    case none: True
    then show ?thesis using True hc ci cf
      by (intro exI[of _ kDeleted])
         (simp add: channel_op_def updateChannel_def update_def register_at_def isNoneEvent_def kNoneEvent_def)
  next
    case some: False
    have "apply_op oper c = set_index kAdded (apply_op oper c)" using True by (simp add: set_index_def)
    with some show ?thesis using True hc ci cf
      by (intro exI[of _ kAdded]) (simp add: channel_op_def updateChannel_def update_def register_at_def)
  qed
next
  case False
  have none: "interest p (ch_fd c) = None"
    by (rule interest_none_unless_added[OF inv hc free False])
  have "ch_index c = kNew \<or> ch_index c = kDeleted \<and> channels p = (channels p)(ch_fd c := Some a)"
    using poller_invD(1)[OF inv hc] False by (auto simp: channel_ok_def fun_upd_idem)
  with none hc show ?thesis
    by (intro exI[of _ kAdded]) (auto simp: channel_op_def updateChannel_def update_def register_at_def)
qed

lemma removeChannel_registers:
  assumes inv: "poller_inv p" and hc: "heap p a = Some c" and free: "fd_free a p"
  shows "removeChannel False a p = Inr (register_at a (set_index kNew c) p)"
proof (cases "ch_index c = kAdded")
  case True
  then have "interest p (ch_fd c) = Some (ch_events c, a)"
    using poller_invD(1)[OF inv hc] by (auto simp: channel_ok_def)
  with True hc show ?thesis by (simp add: removeChannel_def update_def register_at_def)
next
  case False
  have "interest p (ch_fd c) = None" by (rule interest_none_unless_added[OF inv hc free False])
  then have "interest p = (interest p)(ch_fd c := None)" by (simp add: fun_upd_idem)
  with False hc show ?thesis by (simp add: removeChannel_def register_at_def)
qed

lemma register_at_masks:
  assumes inv: "poller_inv p" and hc: "heap p a = Some c" and free: "fd_free a p"
    and c': "ch_fd c' = ch_fd c"
  shows "fd_free a (register_at a c' p)" "requested_mask a (register_at a c' p) = ch_events c'"
    and "watched_mask a (register_at a c' p) = (if ch_index c' = kAdded then ch_events c' else 0)"
    and "b \<noteq> a \<Longrightarrow> requested_mask b (register_at a c' p) = requested_mask b p"
    and "b \<noteq> a \<Longrightarrow> watched_mask b (register_at a c' p) = watched_mask b p"
proof -
  show "fd_free a (register_at a c' p)" using c' by (auto simp: fd_free_def register_at_def)
  show "requested_mask a (register_at a c' p) = ch_events c'"
    by (simp add: requested_mask_def register_at_def)
  show "watched_mask a (register_at a c' p) = (if ch_index c' = kAdded then ch_events c' else 0)"
    by (simp add: watched_mask_def register_at_def)
  assume ba: "b \<noteq> a"
  then show "requested_mask b (register_at a c' p) = requested_mask b p"
    by (simp add: requested_mask_def register_at_def)
  have "\<nexists>ev. interest p (ch_fd c) = Some (ev, b)"
  proof
    assume "\<exists>ev. interest p (ch_fd c) = Some (ev, b)"
    then obtain d where "heap p b = Some d" "ch_fd d = ch_fd c" "ch_index d = kAdded"
      using poller_invD(2)[OF inv] by blast
    with poller_invD(1)[OF inv, of b d] free hc ba show False by (auto simp: fd_free_def channel_ok_def)
  qed
  then show "watched_mask b (register_at a c' p) = watched_mask b p"
    using ba c' by (auto simp: watched_mask_def register_at_def split: option.splits)
qed

interpretation ep: event_registry poller_inv fd_free requested_mask watched_mask
  "channel_op False" "removeChannel False"
proof (unfold_locales, goal_cases)
  case (1 p a oper)
  then obtain c where hc: "heap p a = Some c" by (auto simp: fd_free_def split: option.splits)
  define c1 where "c1 = apply_op oper c"
  obtain i where i: "i \<in> {kAdded, kDeleted}" "i = kDeleted \<longrightarrow> ch_events c1 = 0"
      "channel_op False oper a p = Inr (register_at a (set_index i c1) p)"
    using channel_op_registers[OF 1(1) hc 1(2), of oper] c1_def by blast
  have "ch_fd (set_index i c1) = ch_fd c" "ch_events c1 = mask_op oper (requested_mask a p)"
    using hc by (simp_all add: c1_def requested_mask_def)
  with i 1 hc show ?case
    using register_at_inv[OF 1(1) hc 1(2), of "set_index i c1"]
      register_at_masks[OF 1(1) hc 1(2), of "set_index i c1"] by auto
next
  case (2 p a)
  then obtain c where hc: "heap p a = Some c" by (auto simp: fd_free_def split: option.splits)
  show ?case using removeChannel_registers[OF 2(1) hc 2(2)]
      register_at_inv[OF 2(1) hc 2(2), of "set_index kNew c"]
      register_at_masks[OF 2(1) hc 2(2), of "set_index kNew c"] by auto
qed

section \<open>Reachable states\<close>

text \<open>
  The life of the poller: channels are created, operated on while no other channel is registered
  for their descriptor, removed, and destroyed once removed; \<open>poll\<close> delivers entries of the
  kernel's interest list.
\<close>

definition delivers :: "epoll_wait_result \<Rightarrow> Poller \<Rightarrow> bool" where
  "delivers w p \<longleftrightarrow> length (epoll_evs w) < 2 ^ 31 \<and>
     (\<forall>(re, a) \<in> set (epoll_evs w). \<exists>fd ev. interest p fd = Some (ev, a))"

inductive poller_step :: "Poller \<Rightarrow> Poller \<Rightarrow> bool" where
  step_new: "heap p a = None \<Longrightarrow> poller_step p (p\<lparr>heap := (heap p)(a \<mapsto> new_Channel fd)\<rparr>)"
| step_op: "fd_free a p \<Longrightarrow> channel_op False oper a p = Inr p' \<Longrightarrow> poller_step p p'"
| step_remove: "fd_free a p \<Longrightarrow> removeChannel False a p = Inr p' \<Longrightarrow> poller_step p p'"
| step_destroy: "heap p a = Some c \<Longrightarrow> ch_index c = kNew \<Longrightarrow>
    poller_step p (p\<lparr>heap := (heap p)(a := None)\<rparr>)"
| step_poll: "delivers w p \<Longrightarrow> poll w p = Inr (as, lg, p') \<Longrightarrow> poller_step p p'"

inductive poller_reach :: "Poller \<Rightarrow> bool" where
  reach_init: "new_EPollPoller fd = Inr p \<Longrightarrow> poller_reach p"
| reach_step: "poller_reach p \<Longrightarrow> poller_step p p' \<Longrightarrow> poller_reach p'"

inductive_cases poller_step_elim: "poller_step p p'"

text \<open>Filling in the returned events keeps everything but \<open>revents_\<close>.\<close>

definition same_registration :: "Poller \<Rightarrow> Poller \<Rightarrow> bool" where
  "same_registration p q \<longleftrightarrow> channels q = channels p \<and> interest q = interest p \<and>
     (\<forall>a. (heap q a = None) = (heap p a = None)) \<and>
     (\<forall>a c d. heap p a = Some c \<longrightarrow> heap q a = Some d \<longrightarrow>
        ch_fd d = ch_fd c \<and> ch_events d = ch_events c \<and> ch_index d = ch_index c)"

lemma same_registration_refl [simp]: "same_registration p p"
  by (simp add: same_registration_def)

lemma same_registration_size [simp]:
  "same_registration p (q\<lparr>events_size := n\<rparr>) = same_registration p q"
  by (simp add: same_registration_def)

lemma same_registration_inv:
  assumes "same_registration p q" "poller_inv p"
  shows "poller_inv q"
proof -
  have sr: "channels q = channels p" "interest q = interest p" using assms(1) by (simp_all add: same_registration_def)
  have h: "\<exists>c. heap p a = Some c \<and> ch_fd d = ch_fd c \<and> ch_events d = ch_events c \<and> ch_index d = ch_index c"
    if "heap q a = Some d" for a d using assms(1) that unfolding same_registration_def by (metis not_None_eq)
  have h': "\<exists>d. heap q a = Some d \<and> ch_fd d = ch_fd c \<and> ch_index d = ch_index c"
    if "heap p a = Some c" for a c using assms(1) that unfolding same_registration_def by (metis not_None_eq)
  have "channel_ok a d q" if hq: "heap q a = Some d" for a d
  proof -
    obtain c where c: "heap p a = Some c" "ch_fd d = ch_fd c" "ch_events d = ch_events c"
        "ch_index d = ch_index c" using h[OF hq] by blast
    from poller_invD(1)[OF assms(2) c(1)] c sr show ?thesis unfolding channel_ok_def by simp
  qed
  moreover have "\<exists>d. heap q a = Some d \<and> ch_fd d = fd \<and> ch_index d = kAdded"
    if "interest q fd = Some (ev, a)" for fd ev a
    using poller_invD(2)[OF assms(2), of fd ev a] that sr h' by metis
  moreover have "\<exists>d. heap q a = Some d \<and> ch_fd d = fd \<and> ch_index d \<noteq> kNew"
    if "channels q fd = Some a" for fd a
    using poller_invD(3)[OF assms(2), of fd a] that sr h' by metis
  ultimately show ?thesis unfolding poller_inv_def by blast
qed

lemma fillActive_ok:
  assumes "\<forall>(re, a) \<in> set evs. heap p a \<noteq> None"
  shows "\<exists>p'. fillActive (length evs) evs p = Inr (map snd evs, p') \<and> same_registration p p' \<and>
              events_size p' = events_size p"
  using assms
proof (induction evs arbitrary: p)
  case (Cons e evs)
  obtain re a where e: "e = (re, a)" by fastforce
  then obtain c where c: "heap p a = Some c" using Cons.prems by auto
  define p1 where "p1 = p\<lparr>heap := (heap p)(a \<mapsto> set_revents re c)\<rparr>"
  have sr: "same_registration p p1" using c by (auto simp: p1_def same_registration_def set_revents_def)
  have "\<forall>(re, b) \<in> set evs. heap p1 b \<noteq> None" using Cons.prems by (auto simp: p1_def)
  then obtain p' where p': "fillActive (length evs) evs p1 = Inr (map snd evs, p')"
      "same_registration p1 p'" "events_size p' = events_size p1" using Cons.IH by blast
  moreover have "same_registration p p'" using sr p'(2)
    unfolding same_registration_def by (metis not_None_eq)
  ultimately show ?case using c e by (simp add: p1_def)
qed simp

lemma fillActive_0 [simp]: "fillActiveChannels (- 1) evs p = Inr ([], p)"
  by (simp add: fillActiveChannels_def)

lemma poll_error: "poll (EpError e) p = (if events_size p = 2 ^ 64 - 1
    then Inr ([], [], p\<lparr>events_size := events_size p * 2\<rparr>) else Inr ([], [], p))"
proof -
  have "wrap64 (- 1) = 2 ^ 64 - 1" using wrap64_neg[of "-1"] by simp
  moreover have "to_int32 (int (2 ^ 64 - 1)) = - 1" by (simp add: to_int32_def)
  ultimately show ?thesis by (simp add: poll_def fillActiveChannels_def)
qed

lemma poll_ready:
  assumes "delivers (EpReady evs) p" "poller_inv p"
  shows "\<exists>p'. poll (EpReady evs) p = Inr (map snd evs, if evs = [] then [LogTimeout] else [], p') \<and>
    same_registration p p' \<and>
    events_size p' = (if evs \<noteq> [] \<and> length evs = events_size p then 2 * events_size p else events_size p)"
proof -
  have "\<forall>(re, a) \<in> set evs. heap p a \<noteq> None"
    using assms poller_invD(2)[OF assms(2)] by (fastforce simp: delivers_def)
  then obtain p' where p': "fillActive (length evs) evs p = Inr (map snd evs, p')"
      "same_registration p p'" "events_size p' = events_size p" using fillActive_ok by blast
  have n: "length evs < 2 ^ 31" using assms(1) by (simp add: delivers_def)
  then have "wrap64 (int (length evs)) = length evs" "to_int32 (int (length evs)) = int (length evs)"
    by (simp_all add: int32_ok_def)
  note conv = this
  show ?thesis
  proof (cases "evs = []")
    case True
    with conv show ?thesis by (simp add: poll_def)
  next
    case False
    define p2 where "p2 = (if length evs = events_size p' then p'\<lparr>events_size := events_size p' * 2\<rparr> else p')"
    have "same_registration p p2" using p'(2) by (simp add: p2_def)
    moreover have "poll (EpReady evs) p = Inr (map snd evs, [], p2)"
      using False p'(1)
      by (simp only: poll_def Let_def epoll_ret.simps epoll_evs.simps conv fillActiveChannels_def nat_int)
         (simp add: p2_def)
    ultimately show ?thesis using False p'(3) by (simp add: p2_def)
  qed
qed

lemma poller_step_inv:
  assumes "poller_step p p'" "poller_inv p"
  shows "poller_inv p'"
  using assms(1)
proof (cases rule: poller_step.cases)
  case (step_new a fd)
  have "channels p fd' \<noteq> Some a" "interest p fd' \<noteq> Some (ev, a)" for fd' ev
    using poller_invD(2,3)[OF assms(2)] step_new(2) by fastforce+
  with step_new assms(2) show ?thesis
    by (fastforce simp: poller_inv_def channel_ok_def new_Channel_def kNew_def)
next
  case (step_op a oper)
  then show ?thesis using ep.apply_ok[OF assms(2), of a oper] by auto
next
  case (step_remove a)
  then show ?thesis using ep.drop_ok[OF assms(2), of a] by auto
next
  case (step_destroy a c)
  have "channels p fd' \<noteq> Some a" "interest p fd' \<noteq> Some (ev, a)" for fd' ev
    using poller_invD(2,3)[OF assms(2)] step_destroy(2,3) by fastforce+
  with step_destroy assms(2) show ?thesis by (auto simp: poller_inv_def channel_ok_def)
next
  case (step_poll w as lg)
  show ?thesis
  proof (cases w)
    case (EpReady evs)
    then show ?thesis using step_poll poll_ready[of evs p] assms(2) same_registration_inv by auto
  next
    case (EpError e)
    then have "same_registration p p'"
      using step_poll by (auto simp: poll_error split: if_splits)
    then show ?thesis using assms(2) same_registration_inv by blast
  qed
qed

lemma poller_reach_inv: "poller_reach p \<Longrightarrow> poller_inv p"
proof (induction rule: poller_reach.induct)
  case (reach_init fd p)
  then show ?case by (auto simp: new_EPollPoller_def poller_inv_def split: if_splits)
qed (rule poller_step_inv)

section \<open>Properties\<close>

text \<open>
  C9: in every reachable state of the poller, a channel whose descriptor no other channel claims
  can run any sequence of enable and disable operations and be removed: \<open>epoll_ctl\<close> is never
  called in a way the kernel rejects (no \<open>LOG_FATAL\<close>), after the operations the kernel watches
  exactly the mask they compute, after the removal nothing, and no other channel's
  registration changes.
\<close>

theorem channel_ops_never_abort:
  assumes "poller_reach p" "fd_free a p" "watched_mask a p = requested_mask a p"
  shows "\<exists>p1 p2. run_channel_ops (channel_op False) (map (Pair a) ops) p = Inr p1 \<and>
      watched_mask a p1 = fold mask_op ops (requested_mask a p) \<and>
      (\<forall>b. b \<noteq> a \<longrightarrow> watched_mask b p1 = watched_mask b p) \<and>
      removeChannel False a p1 = Inr p2 \<and> watched_mask a p2 = 0 \<and>
      (\<forall>b. b \<noteq> a \<longrightarrow> watched_mask b p2 = watched_mask b p)"
proof -
  have inv: "poller_inv p" using assms(1) by (rule poller_reach_inv)
  from ep.run_ops_ok[OF inv assms(2,3), of ops] ep.ops_then_drop[OF inv assms(2,3), of ops]
  show ?thesis by auto
qed

definition poller_example :: Poller where
  "poller_example = \<lparr>heap = [10 \<mapsto> new_Channel 5], channels = Map.empty, interest = Map.empty,
     events_size = 16\<rparr>"

theorem channel_ops_never_abort_witness:
  "\<exists>p1 p2. run_channel_ops (channel_op False) [(10, EnableReading), (10, DisableAll), (10, EnableWriting)]
        poller_example = Inr p1 \<and> watched_mask 10 p1 = EPOLLOUT \<and>
      removeChannel False 10 p1 = Inr p2 \<and> watched_mask 10 p2 = 0"
proof -
  let ?p0 = "\<lparr>heap = Map.empty, channels = Map.empty, interest = Map.empty, events_size = 16\<rparr> :: Poller"
  have "poller_reach ?p0"
    by (rule reach_init[of 3]) (simp add: new_EPollPoller_def kInitEventListSize_def)
  moreover have "poller_step ?p0 poller_example"
    using step_new[of ?p0 10 5] by (simp add: poller_example_def)
  ultimately have "poller_reach poller_example" by (rule reach_step)
  then show ?thesis
    using channel_ops_never_abort[of poller_example 10 "[EnableReading, DisableAll, EnableWriting]"]
    by (auto simp: poller_example_def fd_free_def watched_mask_def requested_mask_def new_Channel_def
          kNoneEvent_def kWriteEvent_def)
qed

text \<open>
  C30: \<open>poll\<close> reports every entry the kernel delivered, in order, as a channel that is alive and
  registered for its descriptor; it changes no registration, and doubles the event array exactly
  when the array was full.
\<close>

theorem poll_reports_registered:
  assumes "poller_reach p" "delivers (EpReady evs) p" "evs \<noteq> []"
  shows "\<exists>p'. poll (EpReady evs) p = Inr (map snd evs, [], p') \<and> same_registration p p' \<and>
    (\<forall>a \<in> set (map snd evs). \<exists>c. heap p' a = Some c \<and> ch_index c = kAdded \<and> hasChannel a p' = Inr True) \<and>
    events_size p' = (if length evs = events_size p then 2 * events_size p else events_size p)"
proof -
  have inv: "poller_inv p" using assms(1) by (rule poller_reach_inv)
  from poll_ready[OF assms(2) inv] assms(3) obtain p' where
    p': "poll (EpReady evs) p = Inr (map snd evs, [], p')" "same_registration p p'"
      "events_size p' = (if length evs = events_size p then 2 * events_size p else events_size p)" by auto
  have inv': "poller_inv p'" using p'(2) inv by (rule same_registration_inv)
  have "\<exists>c. heap p' a = Some c \<and> ch_index c = kAdded \<and> hasChannel a p' = Inr True"
    if a: "a \<in> set (map snd evs)" for a
  proof -
    obtain fd ev where "interest p fd = Some (ev, a)" using a assms(2) by (auto simp: delivers_def)
    then have i: "interest p' fd = Some (ev, a)" using p'(2) by (simp add: same_registration_def)
    then obtain c where c: "heap p' a = Some c" "ch_fd c = fd" "ch_index c = kAdded"
      using poller_invD(2)[OF inv'] by blast
    with poller_invD(1)[OF inv' c(1)] show ?thesis by (auto simp: channel_ok_def hasChannel_def)
  qed
  with p' show ?thesis by blast
qed

theorem poll_reports_registered_witness:
  "\<exists>p p'. poll (EpReady [(EPOLLIN, 10)]) p = Inr ([10], [], p') \<and>
     (\<exists>c. heap p' 10 = Some c \<and> ch_index c = kAdded \<and> hasChannel 10 p' = Inr True)"
proof -
  let ?p0 = "\<lparr>heap = Map.empty, channels = Map.empty, interest = Map.empty, events_size = 16\<rparr> :: Poller"
  define p where "p = register_at 10 (set_index kAdded (apply_op EnableReading (new_Channel 5))) poller_example"
  have "poller_reach ?p0"
    by (rule reach_init[of 3]) (simp add: new_EPollPoller_def kInitEventListSize_def)
  moreover have "poller_step ?p0 poller_example"
    using step_new[of ?p0 10 5] by (simp add: poller_example_def)
  ultimately have r: "poller_reach poller_example" by (rule reach_step)
  have "channel_op False EnableReading 10 poller_example = Inr p"
    by (simp add: p_def channel_op_def updateChannel_def update_def register_at_def poller_example_def
          new_Channel_def set_index_def kNew_def kAdded_def kDeleted_def)
  then have "poller_step poller_example p"
    by (intro step_op[of 10 _ EnableReading]) (simp_all add: fd_free_def poller_example_def)
  with r have "poller_reach p" by (rule reach_step)
  moreover have "delivers (EpReady [(EPOLLIN, 10)]) p"
    by (auto simp: delivers_def p_def register_at_def new_Channel_def)
  ultimately show ?thesis
    using poll_reports_registered[of p "[(EPOLLIN, 10)]"] by fastforce
qed

text \<open>
  The error branch of \<open>poll\<close> is dead. The result of \<open>epoll_wait\<close> is kept in a \<open>size_t\<close>, so \<open>-1\<close>
  counts as events that arrived: no failure, whatever its \<open>errno\<close>, is ever logged, and no channel
  becomes active.
\<close>

theorem poll_failure_never_logged:
  "(\<exists>p'. poll (EpError e) p = Inr ([], [], p')) \<and>
   (\<forall>w as lg p'. poll w p = Inr (as, lg, p') \<longrightarrow> LogPollFailed \<notin> set lg)"
proof -
  have "LogPollFailed \<notin> set lg" if "poll w p = Inr (as, lg, p')" for w as lg p'
    using that by (auto simp: poll_def Let_def bind_r_eq_Inr split: if_splits prod.splits)
  then show ?thesis by (auto simp: poll_error)
qed

theorem poll_failure_never_logged_witness:
  "\<exists>p'. poll (EpError (OtherErrno 9)) poller_example = Inr ([], [], p')"
  using poll_failure_never_logged[of "OtherErrno 9" poller_example] by blast

end
