(* ===== verification/Task_Fifo.thy ===== *)
theory Task_Fifo
  imports Prelude
begin

text \<open>
  The contract of a queue of tasks that one thread fills and another drains: tasks are put at the
  back and taken in batches from the front. \<open>EventLoop::pendingFunctors_\<close> (taken as a whole by a
  swap) and the queue of \<open>ThreadPool\<close> (taken one by one) both keep it; the consequence proved
  here, that every task comes out exactly once and in order, is instantiated for each.
\<close>

datatype 'f fifo_op = PutTask 'f | GrabTasks

fun run_fifo :: "('f \<Rightarrow> 's \<Rightarrow> 's) \<Rightarrow> ('s \<Rightarrow> 'f list \<times> 's) \<Rightarrow> 'f fifo_op list \<Rightarrow> 's \<Rightarrow> 'f list \<times> 's" where
  "run_fifo put grab [] s = ([], s)"
| "run_fifo put grab (PutTask f # ops) s = run_fifo put grab ops (put f s)"
| "run_fifo put grab (GrabTasks # ops) s =
     (let (fs, s1) = grab s; (gs, s2) = run_fifo put grab ops s1 in (fs @ gs, s2))"

fun puts_of :: "'f fifo_op list \<Rightarrow> 'f list" where
  "puts_of [] = []"
| "puts_of (PutTask f # ops) = f # puts_of ops"
| "puts_of (GrabTasks # ops) = puts_of ops"

locale task_fifo =
  fixes waiting :: "'s \<Rightarrow> 'f list"
    and put :: "'f \<Rightarrow> 's \<Rightarrow> 's"
    and grab :: "'s \<Rightarrow> 'f list \<times> 's"
  assumes put_waiting: "waiting (put f s) = waiting s @ [f]"
    and grab_waiting: "grab s = (fs, s') \<Longrightarrow> waiting s = fs @ waiting s'"
    and grab_progress: "grab s = (fs, s') \<Longrightarrow> waiting s \<noteq> [] \<Longrightarrow> fs \<noteq> []"
begin

text \<open>Exactly once and in order: what was grabbed, then what still waits, is what was put.\<close>

lemma fifo_exact:
  "run_fifo put grab ops s = (out, s') \<Longrightarrow> waiting s @ puts_of ops = out @ waiting s'"
proof (induction ops arbitrary: s out)
  case (Cons x ops)
  show ?case
  proof (cases x)
    case (PutTask f)
    with Cons.prems Cons.IH[of "put f s" out] show ?thesis by (simp add: put_waiting)
  next
    case GrabTasks
    obtain fs s1 where g: "grab s = (fs, s1)" by fastforce
    obtain gs where r: "run_fifo put grab ops s1 = (gs, s')" "out = fs @ gs"
      using Cons.prems GrabTasks g by (auto split: prod.splits)
    show ?thesis using Cons.IH[OF r(1)] grab_waiting[OF g] r(2) GrabTasks by simp
  qed
qed simp

lemma run_fifo_append:
  "run_fifo put grab (ops @ ops') s =
     (let (fs, s1) = run_fifo put grab ops s; (gs, s2) = run_fifo put grab ops' s1 in (fs @ gs, s2))"
  by (induction ops arbitrary: s rule: puts_of.induct) (auto simp: Let_def split: prod.splits)

text \<open>Enough grabs empty the queue.\<close>

lemma fifo_drains:
  "\<exists>n s'. run_fifo put grab (replicate n GrabTasks) s = (waiting s, s') \<and> waiting s' = []"
proof (induction "length (waiting s)" arbitrary: s rule: less_induct)
  case less
  show ?case
  proof (cases "waiting s = []")
    case True
    then show ?thesis by (intro exI[of _ 0]) simp
  next
    case False
    obtain fs s1 where g: "grab s = (fs, s1)" by fastforce
    then have w: "waiting s = fs @ waiting s1" "fs \<noteq> []"
      using grab_waiting[OF g] grab_progress[OF g False] by auto
    then obtain n s' where "run_fifo put grab (replicate n GrabTasks) s1 = (waiting s1, s')" "waiting s' = []"
      using less[of s1] by auto
    with g w show ?thesis by (intro exI[of _ "Suc n"] exI[of _ s']) simp
  qed
qed

end

end
