(* ===== verification/Event_Loop.thy ===== *)
theory Event_Loop
  imports EPoll_Poller Task_Fifo
begin

text \<open>
  \<open>src/src/net/EventLoop.h\<close> and \<open>EventLoop.cc\<close>. The loop owns a poller and a channel for its
  \<open>eventfd\<close>, whose 64 bit counter is the field \<open>el_eventfd\<close>. A functor is a value of the type
  parameter; what running it does (code of other components) is the argument \<open>exec\<close>, and what the
  callbacks of other channels do is the argument \<open>user_cb\<close>. The sequential operations come first;
  then the interleaving of the loop thread with other threads as a step relation, whose steps are
  the sections the mutex makes atomic.
\<close>

section \<open>State and operations\<close>

record 'f EventLoop =
  el_poller :: Poller
  el_wakeup :: addr
  el_eventfd :: nat
  el_looping :: bool
  el_quit :: bool
  el_calling :: bool
  el_pending :: "'f list"

definition createEventfd :: "int \<Rightarrow> int result" where
  "createEventfd evfd = (if evfd < 0 then Inl Aborted else Inr evfd)"

text \<open>
  The constructor: \<open>other\<close> is whether the thread already has a loop, \<open>wk\<close> the address of the
  wakeup channel; the environment supplies the poller and the descriptor. Without a poller the
  timer queue, constructed before the descriptor, already follows a null pointer.
\<close>

definition new_EventLoop :: "bool \<Rightarrow> Poller option \<Rightarrow> int \<Rightarrow> addr \<Rightarrow> 'f EventLoop result" where
  "new_EventLoop other poller evfd wk =
     (case poller of
        None \<Rightarrow> Inl NullPointer
      | Some p \<Rightarrow>
          bind_r (createEventfd evfd) (\<lambda>fd.
            if other then Inl Aborted
            else bind_r (channel_op False EnableReading wk
                           (p\<lparr>heap := (heap p)(wk \<mapsto> setReadCallback (new_Channel fd))\<rparr>)) (\<lambda>p'.
              Inr \<lparr>el_poller = p', el_wakeup = wk, el_eventfd = 0, el_looping = False, el_quit = False,
                   el_calling = False, el_pending = []\<rparr>)))"

definition destroy_EventLoop :: "'f EventLoop \<Rightarrow> Poller result" where
  "destroy_EventLoop l =
     bind_r (channel_op False DisableAll (el_wakeup l) (el_poller l)) (\<lambda>p1.
       removeChannel False (el_wakeup l) p1)"

definition updateChannel_loop :: "bool \<Rightarrow> addr \<Rightarrow> 'f EventLoop \<Rightarrow> 'f EventLoop result" where
  "updateChannel_loop deny a l =
     bind_r (updateChannel deny a (el_poller l)) (\<lambda>p. Inr (l\<lparr>el_poller := p\<rparr>))"

definition removeChannel_loop :: "bool \<Rightarrow> addr \<Rightarrow> 'f EventLoop \<Rightarrow> 'f EventLoop result" where
  "removeChannel_loop deny a l =
     bind_r (removeChannel deny a (el_poller l)) (\<lambda>p. Inr (l\<lparr>el_poller := p\<rparr>))"

definition hasChannel_loop :: "addr \<Rightarrow> 'f EventLoop \<Rightarrow> bool result" where
  "hasChannel_loop a l = hasChannel a (el_poller l)"

text \<open>
  A write of 1 to a non-blocking \<open>eventfd\<close> fails (and is only logged) when the counter is at its
  maximum; a read resets the counter and fails when it is zero.
\<close>

definition eventfd_max :: nat where "eventfd_max = 2 ^ 64 - 2"

definition wakeup :: "'f EventLoop \<Rightarrow> 'f EventLoop" where
  "wakeup l = (if el_eventfd l + 1 \<le> eventfd_max then l\<lparr>el_eventfd := el_eventfd l + 1\<rparr> else l)"

definition handleRead_loop :: "'f EventLoop \<Rightarrow> 'f EventLoop" where
  "handleRead_loop l = l\<lparr>el_eventfd := 0\<rparr>"

definition quit_loop :: "bool \<Rightarrow> 'f EventLoop \<Rightarrow> 'f EventLoop" where
  "quit_loop inLoopThread l =
     (let l1 = l\<lparr>el_quit := True\<rparr> in if inLoopThread then wakeup l1 else l1)"

definition push_functor :: "'f \<Rightarrow> 'f EventLoop \<Rightarrow> 'f EventLoop" where
  "push_functor cb l = l\<lparr>el_pending := el_pending l @ [cb]\<rparr>"

definition queueInLoop :: "bool \<Rightarrow> 'f \<Rightarrow> 'f EventLoop \<Rightarrow> 'f EventLoop" where
  "queueInLoop inLoopThread cb l =
     (let l1 = push_functor cb l in if \<not> inLoopThread \<or> el_calling l1 then wakeup l1 else l1)"

definition runInLoop ::
  "('f \<Rightarrow> 'f EventLoop \<Rightarrow> 'f EventLoop result) \<Rightarrow> bool \<Rightarrow> 'f \<Rightarrow> 'f EventLoop \<Rightarrow> 'f EventLoop result" where
  "runInLoop exec inLoopThread cb l =
     (if inLoopThread then exec cb l else Inr (queueInLoop inLoopThread cb l))"

text \<open>The critical section of \<open>doPendingFunctors\<close>: the swap with an empty vector.\<close>

definition swap_pending :: "'f EventLoop \<Rightarrow> 'f list \<times> 'f EventLoop" where
  "swap_pending l = (el_pending l, l\<lparr>el_pending := []\<rparr>)"

fun run_functors :: "('f \<Rightarrow> 'f EventLoop \<Rightarrow> 'f EventLoop result) \<Rightarrow> 'f list \<Rightarrow> 'f EventLoop \<Rightarrow>
    'f EventLoop result" where
  "run_functors exec [] l = Inr l"
| "run_functors exec (f # fs) l = bind_r (exec f l) (run_functors exec fs)"

definition doPendingFunctors ::
  "('f \<Rightarrow> 'f EventLoop \<Rightarrow> 'f EventLoop result) \<Rightarrow> 'f EventLoop \<Rightarrow> 'f EventLoop result" where
  "doPendingFunctors exec l =
     (let (functors, l1) = swap_pending (l\<lparr>el_calling := True\<rparr>) in
      bind_r (run_functors exec functors l1) (\<lambda>l2. Inr (l2\<lparr>el_calling := False\<rparr>)))"

text \<open>
  The wakeup channel's read callback is \<open>handleRead\<close>; all others are the user's. Callbacks of one
  channel run in the order of \<open>handleEvent\<close>; \<open>alive\<close> says whether a tied owner still exists.
\<close>

definition dispatch :: "(addr \<Rightarrow> callback \<Rightarrow> 'f EventLoop \<Rightarrow> 'f EventLoop result) \<Rightarrow> addr \<Rightarrow> callback \<Rightarrow>
    'f EventLoop \<Rightarrow> 'f EventLoop result" where
  "dispatch user_cb a cb l =
     (case cb of ReadCb t \<Rightarrow> if a = el_wakeup l then Inr (handleRead_loop l) else user_cb a cb l
               | _ \<Rightarrow> user_cb a cb l)"

fun run_callbacks :: "(addr \<Rightarrow> callback \<Rightarrow> 'f EventLoop \<Rightarrow> 'f EventLoop result) \<Rightarrow> addr \<Rightarrow>
    callback list \<Rightarrow> 'f EventLoop \<Rightarrow> 'f EventLoop result" where
  "run_callbacks user_cb a [] l = Inr l"
| "run_callbacks user_cb a (cb # cbs) l = bind_r (dispatch user_cb a cb l) (run_callbacks user_cb a cbs)"

fun handle_active :: "(addr \<Rightarrow> callback \<Rightarrow> 'f EventLoop \<Rightarrow> 'f EventLoop result) \<Rightarrow>
    (addr \<Rightarrow> 'f EventLoop \<Rightarrow> bool) \<Rightarrow> int \<Rightarrow> addr list \<Rightarrow> 'f EventLoop \<Rightarrow> 'f EventLoop result" where
  "handle_active user_cb alive now [] l = Inr l"
| "handle_active user_cb alive now (a # as) l =
     (case heap (el_poller l) a of
        None \<Rightarrow> Inl UseAfterFree
      | Some c \<Rightarrow> bind_r (run_callbacks user_cb a (handleEvent (alive a l) now c) l)
                    (handle_active user_cb alive now as))"

text \<open>
  \<open>loop()\<close> over the results \<open>poll\<close> gets, one per iteration, each with the time it returned. The
  flag of the result is whether the loop was left; otherwise it waits for more events.
\<close>

fun loop_while :: "('f \<Rightarrow> 'f EventLoop \<Rightarrow> 'f EventLoop result) \<Rightarrow>
    (addr \<Rightarrow> callback \<Rightarrow> 'f EventLoop \<Rightarrow> 'f EventLoop result) \<Rightarrow> (addr \<Rightarrow> 'f EventLoop \<Rightarrow> bool) \<Rightarrow>
    (int \<times> epoll_wait_result) list \<Rightarrow> 'f EventLoop \<Rightarrow> (bool \<times> 'f EventLoop) result" where
  "loop_while exec user_cb alive polls l =
     (if el_quit l then Inr (True, l\<lparr>el_looping := False\<rparr>)
      else (case polls of
          [] \<Rightarrow> Inr (False, l)
        | (now, w) # ws \<Rightarrow>
            bind_r (poll w (el_poller l)) (\<lambda>(active, lg, p).
            bind_r (handle_active user_cb alive now active (l\<lparr>el_poller := p\<rparr>)) (\<lambda>l1.
            bind_r (doPendingFunctors exec l1) (\<lambda>l2.
              loop_while exec user_cb alive ws l2)))))"

definition loop :: "('f \<Rightarrow> 'f EventLoop \<Rightarrow> 'f EventLoop result) \<Rightarrow>
    (addr \<Rightarrow> callback \<Rightarrow> 'f EventLoop \<Rightarrow> 'f EventLoop result) \<Rightarrow> (addr \<Rightarrow> 'f EventLoop \<Rightarrow> bool) \<Rightarrow>
    (int \<times> epoll_wait_result) list \<Rightarrow> 'f EventLoop \<Rightarrow> (bool \<times> 'f EventLoop) result" where
  "loop exec user_cb alive polls l =
     loop_while exec user_cb alive polls (l\<lparr>el_looping := True, el_quit := False\<rparr>)"

declare loop_while.simps [simp del]

section \<open>Lemmas\<close>

lemma wakeup_fields [simp]:
  "el_pending (wakeup l) = el_pending l" "el_calling (wakeup l) = el_calling l"
  "el_quit (wakeup l) = el_quit l" "el_poller (wakeup l) = el_poller l" "el_wakeup (wakeup l) = el_wakeup l"
  by (simp_all add: wakeup_def)

lemma wakeup_readable [simp]: "0 < el_eventfd (wakeup l)"
  by (auto simp: wakeup_def eventfd_max_def)

lemma wakeup_mono: "0 < el_eventfd l \<Longrightarrow> 0 < el_eventfd (wakeup l)"
  by simp

lemma queueInLoop_fields [simp]:
  "el_pending (queueInLoop t f l) = el_pending l @ [f]" "el_calling (queueInLoop t f l) = el_calling l"
  "el_quit (queueInLoop t f l) = el_quit l" "el_poller (queueInLoop t f l) = el_poller l"
  by (simp_all add: queueInLoop_def push_functor_def Let_def)

lemma queueInLoop_wakes: "\<not> t \<or> el_calling l \<Longrightarrow> 0 < el_eventfd (queueInLoop t f l)"
  by (simp add: queueInLoop_def push_functor_def Let_def)

lemma queueInLoop_keeps_wake: "0 < el_eventfd l \<Longrightarrow> 0 < el_eventfd (queueInLoop t f l)"
  by (simp add: queueInLoop_def push_functor_def wakeup_def Let_def)

interpretation loop_fifo: task_fifo el_pending "queueInLoop t" swap_pending
  by unfold_locales (auto simp: swap_pending_def)

text \<open>Functors that do nothing to the loop but queue further functors.\<close>

definition exec_queueing :: "('f \<Rightarrow> 'f list) \<Rightarrow> 'f \<Rightarrow> 'f EventLoop \<Rightarrow> 'f EventLoop result" where
  "exec_queueing children f l = Inr (fold (queueInLoop True) (children f) l)"

lemma fold_queueInLoop:
  "el_pending (fold (queueInLoop t) fs l) = el_pending l @ fs"
  "el_calling (fold (queueInLoop t) fs l) = el_calling l"
  "el_quit (fold (queueInLoop t) fs l) = el_quit l"
  by (induction fs arbitrary: l) simp_all

lemma fold_queueInLoop_wakes:
  "el_calling l \<Longrightarrow> fs \<noteq> [] \<or> 0 < el_eventfd l \<Longrightarrow> 0 < el_eventfd (fold (queueInLoop t) fs l)"
proof (induction fs arbitrary: l)
  case (Cons f fs)
  then show ?case using queueInLoop_wakes[of t l f] by simp
qed simp

lemma run_functors_queueing:
  "run_functors (exec_queueing children) fs l =
     Inr (fold (queueInLoop True) (concat (map children fs)) l)"
  by (induction fs arbitrary: l) (simp_all add: exec_queueing_def)

section \<open>The loop thread and the other threads\<close>

text \<open>
  Where the loop thread is: in \<open>poll\<close>, in the event handlers, running the functors it swapped out,
  or out of the loop. \<open>waking\<close> counts the other threads that have pushed a functor and not yet
  written to the \<open>eventfd\<close>; \<open>queued\<close> and \<open>ran\<close> record every functor queued and run so far.
\<close>

datatype 'f pc = Polling | Handling | Calling "'f list" | Stopped

record 'f threads =
  th_loop :: "'f EventLoop"
  th_pc :: "'f pc"
  waking :: nat
  queued :: "'f list"
  ran :: "'f list"

inductive loop_step :: "'f threads \<Rightarrow> 'f threads \<Rightarrow> bool" where
  other_push: "loop_step s (s\<lparr>th_loop := push_functor f (th_loop s), waking := waking s + 1,
      queued := queued s @ [f]\<rparr>)"
| other_wake: "0 < waking s \<Longrightarrow> loop_step s (s\<lparr>th_loop := wakeup (th_loop s), waking := waking s - 1\<rparr>)"
| other_quit: "loop_step s (s\<lparr>th_loop := quit_loop False (th_loop s)\<rparr>)"
| poll_wakeup: "th_pc s = Polling \<Longrightarrow> 0 < el_eventfd (th_loop s) \<Longrightarrow>
    loop_step s (s\<lparr>th_loop := handleRead_loop (th_loop s), th_pc := Handling\<rparr>)"
| poll_return: "th_pc s = Polling \<Longrightarrow> loop_step s (s\<lparr>th_pc := Handling\<rparr>)"
| own_queue: "th_pc s = Handling \<or> th_pc s = Calling fs \<Longrightarrow>
    loop_step s (s\<lparr>th_loop := queueInLoop True f (th_loop s), queued := queued s @ [f]\<rparr>)"
| own_quit: "th_pc s = Handling \<or> th_pc s = Calling fs \<Longrightarrow>
    loop_step s (s\<lparr>th_loop := quit_loop True (th_loop s)\<rparr>)"
| begin_pending: "th_pc s = Handling \<Longrightarrow> swap_pending ((th_loop s)\<lparr>el_calling := True\<rparr>) = (fs, l) \<Longrightarrow>
    loop_step s (s\<lparr>th_loop := l, th_pc := Calling fs\<rparr>)"
| run_functor: "th_pc s = Calling (f # fs) \<Longrightarrow> loop_step s (s\<lparr>th_pc := Calling fs, ran := ran s @ [f]\<rparr>)"
| end_pending: "th_pc s = Calling [] \<Longrightarrow>
    loop_step s (s\<lparr>th_loop := (th_loop s)\<lparr>el_calling := False\<rparr>,
      th_pc := if el_quit (th_loop s) then Stopped else Polling\<rparr>)"

definition threads_init :: "'f EventLoop \<Rightarrow> 'f threads" where
  "threads_init l = \<lparr>th_loop = l\<lparr>el_looping := True, el_quit := False\<rparr>, th_pc = Polling, waking = 0,
     queued = el_pending l, ran = []\<rparr>"

text \<open>A loop enters \<open>loop()\<close> freshly constructed, or with functors queued from other threads.\<close>

inductive threads_reach :: "'f threads \<Rightarrow> bool" where
  threads_start: "\<not> el_calling l \<Longrightarrow> el_pending l = [] \<or> 0 < el_eventfd l \<Longrightarrow> threads_reach (threads_init l)"
| threads_step: "threads_reach s \<Longrightarrow> loop_step s s' \<Longrightarrow> threads_reach s'"

fun running :: "'f pc \<Rightarrow> 'f list" where
  "running (Calling fs) = fs"
| "running _ = []"

definition wake_assured :: "'f threads \<Rightarrow> bool" where
  "wake_assured s \<longleftrightarrow> 0 < el_eventfd (th_loop s) \<or> 0 < waking s"

definition threads_inv :: "'f threads \<Rightarrow> bool" where
  "threads_inv s \<longleftrightarrow>
     (el_calling (th_loop s) \<longleftrightarrow> (\<exists>fs. th_pc s = Calling fs)) \<and>
     (el_pending (th_loop s) \<noteq> [] \<longrightarrow> th_pc s \<noteq> Handling \<longrightarrow> wake_assured s) \<and>
     queued s = ran s @ running (th_pc s) @ el_pending (th_loop s)"

lemma threads_step_inv: "loop_step s s' \<Longrightarrow> threads_inv s \<Longrightarrow> threads_inv s'"
proof (induction rule: loop_step.induct)
  case (own_queue s fs f)
  show ?case
  proof (cases "th_pc s = Handling")
    case True
    with own_queue show ?thesis by (simp add: threads_inv_def)
  next
    case False
    with own_queue have "el_calling (th_loop s)" by (auto simp: threads_inv_def)
    with False own_queue queueInLoop_wakes[of True "th_loop s" f] show ?thesis
      by (auto simp: threads_inv_def wake_assured_def)
  qed
next
  case (own_quit s fs)
  then show ?case by (auto simp: threads_inv_def wake_assured_def quit_loop_def Let_def)
next
  case (begin_pending s fs l)
  then show ?case by (auto simp: threads_inv_def swap_pending_def)
next
  case (other_push s f)
  then show ?case by (auto simp: threads_inv_def wake_assured_def push_functor_def)
next
  case (other_quit s)
  then show ?case by (auto simp: threads_inv_def wake_assured_def quit_loop_def)
next
  case (end_pending s)
  then show ?case by (auto simp: threads_inv_def wake_assured_def)
qed (auto simp: threads_inv_def wake_assured_def handleRead_loop_def)

lemma threads_reach_inv: "threads_reach s \<Longrightarrow> threads_inv s"
proof (induction rule: threads_reach.induct)
  case (threads_start l)
  then show ?case by (auto simp: threads_inv_def threads_init_def wake_assured_def)
qed (rule threads_step_inv)

section \<open>Progress of the loop thread\<close>

text \<open>
  A run with \<open>k\<close> steps of the loop thread itself (returning from \<open>poll\<close>, swapping, running one functor,
  leaving \<open>doPendingFunctors\<close>); in between the other threads, the event handlers and the functors make
  any steps, which leave the loop thread where it is and run nothing.
\<close>

definition own_step :: "'f threads \<Rightarrow> 'f threads \<Rightarrow> bool" where
  "own_step s s' \<longleftrightarrow> loop_step s s' \<and> (th_pc s' \<noteq> th_pc s \<or> ran s' \<noteq> ran s)"

inductive loop_run :: "nat \<Rightarrow> 'f threads \<Rightarrow> 'f threads \<Rightarrow> bool" where
  run_here: "loop_run 0 s s"
| run_own: "own_step s s1 \<Longrightarrow> loop_run k s1 s2 \<Longrightarrow> loop_run (Suc k) s s2"
| run_other: "loop_step s s1 \<Longrightarrow> th_pc s1 = th_pc s \<Longrightarrow> ran s1 = ran s \<Longrightarrow> loop_run k s1 s2 \<Longrightarrow> loop_run k s s2"

text \<open>The own steps that are needed until the first \<open>q\<close> functors have run.\<close>

fun need :: "nat \<Rightarrow> 'f threads \<Rightarrow> nat" where
  "need q s = (if q \<le> length (ran s) then 0
     else (q - length (ran s)) +
       (case th_pc s of Polling \<Rightarrow> 2 | Handling \<Rightarrow> 1 | Calling fs \<Rightarrow> (if q \<le> length (ran s) + length fs then 0 else 3) | Stopped \<Rightarrow> 0))"

declare need.simps [simp del]

lemma loop_step_grows:
  "loop_step s s' \<Longrightarrow> (\<exists>new. queued s' = queued s @ new) \<and> (el_quit (th_loop s) \<longrightarrow> el_quit (th_loop s')) \<and>
    (th_pc s' = Stopped \<longrightarrow> th_pc s = Stopped \<or> el_quit (th_loop s'))"
  by (induction rule: loop_step.induct)
    (auto simp: push_functor_def quit_loop_def handleRead_loop_def swap_pending_def Let_def)

lemma own_step_need:
  assumes "own_step s s'" "threads_inv s" "q \<le> length (queued s)" "\<not> el_quit (th_loop s')"
  shows "need q s' \<le> need q s - 1"
proof -
  have inv: "queued s = ran s @ running (th_pc s) @ el_pending (th_loop s)" using assms(2) by (simp add: threads_inv_def)
  have s: "loop_step s s'" "th_pc s' \<noteq> th_pc s \<or> ran s' \<noteq> ran s" using assms(1) by (auto simp: own_step_def)
  from s(1) show ?thesis
  proof (cases rule: loop_step.cases)
    case (begin_pending fs l)
    then have "fs = el_pending (th_loop s)" by (simp add: swap_pending_def)
    then show ?thesis using begin_pending inv assms(3) by (auto simp: need.simps)
  next
    case end_pending
    then show ?thesis using assms(4) by (auto simp: need.simps)
  qed (use s(2) in \<open>auto simp: need.simps\<close>)
qed

lemma loop_run_need:
  assumes "loop_run k s s'" "threads_inv s" "q \<le> length (queued s)" "\<not> el_quit (th_loop s')"
  shows "threads_inv s' \<and> need q s' \<le> need q s - k \<and> \<not> el_quit (th_loop s) \<and> (\<exists>new. queued s' = queued s @ new) \<and>
    (th_pc s' = Stopped \<longrightarrow> th_pc s = Stopped)"
  using assms
proof (induction rule: loop_run.induct)
  case (run_own s s1 k s2)
  have st: "loop_step s s1" using run_own.hyps(1) by (simp add: own_step_def)
  note g = loop_step_grows[OF st] and i = threads_step_inv[OF st run_own.prems(1)]
  have ih: "threads_inv s2 \<and> need q s2 \<le> need q s1 - k \<and> \<not> el_quit (th_loop s1) \<and> (\<exists>new. queued s2 = queued s1 @ new) \<and>
    (th_pc s2 = Stopped \<longrightarrow> th_pc s1 = Stopped)"
    using run_own.IH[OF i] g run_own.prems(2,3) by auto
  then have "need q s1 \<le> need q s - 1" using own_step_need[OF run_own.hyps(1) run_own.prems(1,2)] by blast
  then show ?case using ih g by auto
next
  case (run_other s s1 k s2)
  note g = loop_step_grows[OF run_other.hyps(1)] and i = threads_step_inv[OF run_other.hyps(1) run_other.prems(1)]
  have "need q s1 = need q s" unfolding need.simps run_other.hyps(2,3) ..
  then show ?case using run_other.IH[OF i] run_other.hyps(2) g run_other.prems(2,3) by auto
qed simp

lemma need_bound: "threads_inv s \<Longrightarrow> th_pc s \<noteq> Stopped \<Longrightarrow>
    need (length (queued s)) s \<le> length (running (th_pc s)) + length (el_pending (th_loop s)) + 3"
  by (cases "th_pc s") (auto simp: threads_inv_def need.simps)

lemma own_step_exists: "th_pc s \<noteq> Stopped \<Longrightarrow> \<exists>s'. own_step s s'"
proof (cases "th_pc s")
  case Polling
  then show ?thesis using poll_return[of s] by (auto simp: own_step_def)
next
  case Handling
  obtain fs l where "swap_pending ((th_loop s)\<lparr>el_calling := True\<rparr>) = (fs, l)" by fastforce
  from begin_pending[OF Handling this] show ?thesis using Handling by (auto simp: own_step_def)
next
  case (Calling fs)
  then show ?thesis
  proof (cases fs)
    case Nil
    let ?s = "s\<lparr>th_loop := (th_loop s)\<lparr>el_calling := False\<rparr>, th_pc := if el_quit (th_loop s) then Stopped else Polling\<rparr>"
    have "own_step s ?s" using end_pending[of s] Calling Nil by (simp add: own_step_def)
    then show ?thesis by blast
  next
    case (Cons f gs)
    then show ?thesis using run_functor[of s f gs] Calling by (auto simp: own_step_def)
  qed
qed simp

section \<open>Properties\<close>

text \<open>
  C10: no functor is lost to a sleeping loop. In every interleaving, whenever the loop thread is at
  \<open>poll\<close> and functors are pending, the \<open>eventfd\<close> is readable, so that \<open>poll\<close> returns, or a thread
  that pushed one is about to write to it.
\<close>

theorem no_lost_wakeup:
  assumes "threads_reach s" "th_pc s = Polling" "el_pending (th_loop s) \<noteq> []"
  shows "0 < el_eventfd (th_loop s) \<or> 0 < waking s"
  using threads_reach_inv[OF assms(1)] assms(2,3) by (simp add: threads_inv_def wake_assured_def)

definition idle_loop :: "nat EventLoop" where
  "idle_loop = \<lparr>el_poller = \<lparr>heap = Map.empty, channels = Map.empty, interest = Map.empty, events_size = 16\<rparr>,
     el_wakeup = 1, el_eventfd = 0, el_looping = False, el_quit = False, el_calling = False, el_pending = []\<rparr>"

theorem no_lost_wakeup_witness:
  "\<exists>s :: nat threads. threads_reach s \<and> th_pc s = Polling \<and> el_pending (th_loop s) = [7] \<and>
     (0 < el_eventfd (th_loop s) \<or> 0 < waking s)"
proof -
  have r: "threads_reach (threads_init idle_loop)"
    by (rule threads_start) (simp_all add: idle_loop_def)
  define s where "s = (threads_init idle_loop)\<lparr>th_loop := push_functor 7 (th_loop (threads_init idle_loop)),
      waking := waking (threads_init idle_loop) + 1, queued := queued (threads_init idle_loop) @ [7]\<rparr>"
  have "threads_reach s" unfolding s_def by (rule threads_step[OF r other_push])
  moreover have "th_pc s = Polling" "el_pending (th_loop s) = [7]"
    by (simp_all add: s_def threads_init_def idle_loop_def push_functor_def)
  ultimately show ?thesis using no_lost_wakeup[of s] by auto
qed

text \<open>
  C11: functors run exactly once and in the order they were queued, whichever thread queued them, as
  long as the loop is not told to quit. At any moment the functors queued so far are those that
  ran, those swapped out and those still pending, in this order, so none runs twice or early. And
  the loop thread can always go on until it has stopped; when it has made as many steps of its own as
  functors wait, and three more, and was not told to quit meanwhile, all that were queued at the
  start have run, whatever the other threads did in between. (Functors that are pending when the
  loop is left after \<open>quit\<close> are not run.)
\<close>

theorem functors_run_in_order:
  assumes "threads_reach s"
  shows "queued s = ran s @ running (th_pc s) @ el_pending (th_loop s) \<and>
    (th_pc s \<noteq> Stopped \<longrightarrow> (\<exists>s'. loop_run 1 s s')) \<and>
    (\<forall>k s'. th_pc s \<noteq> Stopped \<longrightarrow> loop_run k s s' \<longrightarrow> \<not> el_quit (th_loop s') \<longrightarrow>
       length (running (th_pc s)) + length (el_pending (th_loop s)) + 3 \<le> k \<longrightarrow> (\<exists>later. ran s' = queued s @ later))"
proof (intro conjI impI allI)
  note inv = threads_reach_inv[OF assms]
  then show "queued s = ran s @ running (th_pc s) @ el_pending (th_loop s)" by (simp add: threads_inv_def)
  show "\<exists>s'. loop_run 1 s s'" if "th_pc s \<noteq> Stopped"
    using own_step_exists[OF that] run_own[OF _ run_here] by auto
  fix k s'
  assume a: "th_pc s \<noteq> Stopped" "loop_run k s s'" "\<not> el_quit (th_loop s')"
    "length (running (th_pc s)) + length (el_pending (th_loop s)) + 3 \<le> k"
  have r: "threads_inv s'" "need (length (queued s)) s' = 0" "\<exists>new. queued s' = queued s @ new" "th_pc s' \<noteq> Stopped"
    using loop_run_need[OF a(2) inv order_refl a(3)] need_bound[OF inv a(1)] a(1,4) by auto
  then have "length (queued s) \<le> length (ran s')" by (auto simp: need.simps split: if_splits)
  moreover obtain new where "ran s' @ running (th_pc s') @ el_pending (th_loop s') = queued s @ new"
    using r(1,3) by (auto simp: threads_inv_def)
  moreover from this have "ran s' = take (length (ran s')) (queued s @ new)" by (metis append_eq_conv_conj)
  ultimately show "\<exists>later. ran s' = queued s @ later" by (metis take_all take_append)
qed

text \<open>A functor from another thread, run by the next round of the loop.\<close>

theorem functors_run_in_order_witness:
  "\<exists>s s' :: nat threads. threads_reach s \<and> el_pending (th_loop s) = [7] \<and> queued s = [7] \<and> ran s = [] \<and>
     loop_run 4 s s' \<and> ran s' = [7]"
proof -
  let ?i = "threads_init idle_loop"
  have r: "threads_reach ?i" by (rule threads_start) (simp_all add: idle_loop_def)
  define s where "s = ?i\<lparr>th_loop := push_functor 7 (th_loop ?i), waking := waking ?i + 1, queued := queued ?i @ [7]\<rparr>"
  have s: "threads_reach s" unfolding s_def by (rule threads_step[OF r other_push])
  define s1 where "s1 = s\<lparr>th_pc := Handling\<rparr>"
  define s2 where "s2 = s1\<lparr>th_loop := (th_loop s1)\<lparr>el_calling := True, el_pending := []\<rparr>, th_pc := Calling [7]\<rparr>"
  define s3 where "s3 = s2\<lparr>th_pc := Calling [], ran := ran s2 @ [7]\<rparr>"
  define s4 where "s4 = s3\<lparr>th_loop := (th_loop s3)\<lparr>el_calling := False\<rparr>, th_pc := if el_quit (th_loop s3) then Stopped else Polling\<rparr>"
  have f: "el_pending (th_loop s) = [7]" "queued s = [7]" "ran s = []" "th_pc s = Polling" "\<not> el_quit (th_loop s)"
    by (simp_all add: s_def push_functor_def threads_init_def idle_loop_def)
  have "own_step s s1" using poll_return[of s] f by (simp add: own_step_def s1_def)
  moreover have "own_step s1 s2" unfolding own_step_def s2_def
    by (intro conjI begin_pending) (simp_all add: s1_def f swap_pending_def)
  moreover have "own_step s2 s3" using run_functor[of s2 7 "[]"] by (simp add: own_step_def s3_def s2_def)
  moreover have "own_step s3 s4" using end_pending[of s3] by (simp add: own_step_def s4_def s3_def)
  ultimately have l: "loop_run 4 s s4" using run_here[of s4] by (simp add: numeral_eq_Suc run_own)
  have "\<not> el_quit (th_loop s4)" "ran s4 = [7]" using f by (simp_all add: s4_def s3_def s2_def s1_def)
  moreover have "length (running (th_pc s)) + length (el_pending (th_loop s)) + 3 \<le> 4" "th_pc s \<noteq> Stopped" using f by simp_all
  then have "\<exists>later. ran s4 = queued s @ later" using functors_run_in_order[OF s] l calculation(1) by blast
  ultimately show ?thesis using s f l by auto
qed

text \<open>
  \<open>doPendingFunctors\<close> runs the functors that were pending when it started, each once; functors
  they queue are not run but left pending, in order, and then the \<open>eventfd\<close> is readable so that
  the next \<open>poll\<close> does not block.
\<close>

theorem doPendingFunctors_batch:
  assumes "doPendingFunctors (exec_queueing children) l = Inr l'"
  shows "el_pending l' = concat (map children (el_pending l)) \<and> \<not> el_calling l' \<and>
     (el_pending l' \<noteq> [] \<longrightarrow> 0 < el_eventfd l')"
proof -
  define l1 where "l1 = l\<lparr>el_calling := True, el_pending := []\<rparr>"
  have "l' = (fold (queueInLoop True) (concat (map children (el_pending l))) l1)\<lparr>el_calling := False\<rparr>"
    using assms by (auto simp: doPendingFunctors_def swap_pending_def run_functors_queueing l1_def)
  moreover have "el_pending l1 = []" "el_calling l1" by (simp_all add: l1_def)
  ultimately show ?thesis
    using fold_queueInLoop_wakes[of l1 "concat (map children (el_pending l))" True]
    by (simp add: fold_queueInLoop)
qed

theorem doPendingFunctors_batch_witness:
  "\<exists>l'. doPendingFunctors (exec_queueing (\<lambda>n. if n = 1 then [5, 6] else [])) (idle_loop\<lparr>el_pending := [1, 2]\<rparr>) = Inr l' \<and>
     el_pending l' = [5, 6] \<and> 0 < el_eventfd l'"
proof -
  let ?ch = "\<lambda>n :: nat. if n = 1 then [5, 6] else []"
  obtain l' where l': "doPendingFunctors (exec_queueing ?ch) (idle_loop\<lparr>el_pending := [1, 2]\<rparr>) = Inr l'"
    by (simp add: doPendingFunctors_def swap_pending_def run_functors_queueing)
  with doPendingFunctors_batch[OF l'] show ?thesis by simp
qed

text \<open>
  A \<open>quit\<close> from another thread does not wake the loop (the condition is inverted, the comment
  above it describes the opposite): there is an interleaving after which the loop has been told
  to quit, sits in \<open>poll\<close> and nothing will make \<open>poll\<close> return before its timeout.
\<close>

theorem quit_from_other_thread_sleeps:
  fixes l :: "'f EventLoop"
  assumes "\<not> el_calling l" "el_pending l = []" "el_eventfd l = 0"
  shows "\<exists>s :: 'f threads. threads_reach s \<and> el_quit (th_loop s) \<and> th_pc s = Polling \<and>
     el_eventfd (th_loop s) = 0 \<and> waking s = 0"
proof -
  let ?s = "threads_init l"
  have "threads_reach ?s" using assms by (intro threads_start) simp_all
  then have "threads_reach (?s\<lparr>th_loop := quit_loop False (th_loop ?s)\<rparr>)"
    by (rule threads_step[OF _ other_quit])
  then show ?thesis using assms
    by (intro exI[of _ "?s\<lparr>th_loop := quit_loop False (th_loop ?s)\<rparr>"])
       (simp add: threads_init_def quit_loop_def)
qed

theorem quit_from_other_thread_sleeps_witness:
  "\<exists>s :: nat threads. threads_reach s \<and> el_quit (th_loop s) \<and> th_pc s = Polling \<and>
     el_eventfd (th_loop s) = 0 \<and> waking s = 0"
  by (rule quit_from_other_thread_sleeps[of idle_loop]) (simp_all add: idle_loop_def)

end
