(* ===== verification/Tcp_Connection.thy ===== *)
theory Tcp_Connection
  imports Net_Buffer Event_Loop
begin

text \<open>
  \<open>src/src/net/TcpConnection.h\<close> and \<open>TcpConnection.cc\<close>. A connection refers to its channel by
  address; the channel lives in the poller of the connection's loop, so every operation takes and
  returns the poller as well. The results of \<open>write\<close>, \<open>readv\<close> and \<open>sendfile\<close> are inputs. What an
  operation does to the outside (callbacks invoked or queued, messages logged, \<open>shutdown\<close> and
  \<open>close\<close> calls) is the list of effects it returns, in order. \<open>tc_wire\<close> is a history variable:
  the bytes \<open>write\<close> has accepted so far.
\<close>

section \<open>State\<close>

datatype StateE = kDisconnected | kConnecting | kConnected | kDisconnecting

record TcpConnection =
  tc_name :: string
  tc_state :: StateE
  tc_addr :: addr
  tc_fd :: int
  tc_sendFd :: int
  tc_sendLen :: nat
  tc_writeComplete :: bool
  tc_highWater :: bool
  tc_highWaterMark :: nat
  tc_in :: Buffer
  tc_out :: Buffer
  tc_wire :: "char list"

datatype tc_effect =
    QueueWriteComplete
  | QueueHighWaterMark nat
  | CallConnection StateE
  | CallMessage int
  | CallClose
  | LogError
  | SetKeepAlive bool
  | ShutdownWrite
  | SendFile int nat
  | CloseFd int

type_synonym tc_result = "(TcpConnection \<times> Poller \<times> tc_effect list) result"

text \<open>The functors a call from another thread hands to the loop.\<close>

datatype conn_functor = FSendPtr nat nat | FSendString string | FSendFile | FShutdown

section \<open>Operations\<close>

definition new_TcpConnection :: "bool \<Rightarrow> string \<Rightarrow> int \<Rightarrow> addr \<Rightarrow> Poller \<Rightarrow> tc_result" where
  "new_TcpConnection loop_null nameArg sockfd a p =
     (if loop_null then Inl Aborted
      else Inr
        (\<lparr>tc_name = nameArg, tc_state = kConnecting, tc_addr = a, tc_fd = sockfd, tc_sendFd = 0,
          tc_sendLen = 0, tc_writeComplete = False, tc_highWater = False,
          tc_highWaterMark = 64 * 1024 * 1024, tc_in = new_Buffer kInitialSize,
          tc_out = new_Buffer kInitialSize, tc_wire = []\<rparr>,
         p\<lparr>heap := (heap p)(a \<mapsto> setErrorCallback (setCloseCallback (setWriteCallback (setReadCallback
                                   (new_Channel sockfd)))))\<rparr>,
         [SetKeepAlive True]))"

definition connected :: "TcpConnection \<Rightarrow> bool" where
  "connected c \<longleftrightarrow> tc_state c = kConnected"

definition setState :: "StateE \<Rightarrow> TcpConnection \<Rightarrow> TcpConnection" where
  "setState s c = c\<lparr>tc_state := s\<rparr>"

definition setWriteCompleteCallback :: "TcpConnection \<Rightarrow> TcpConnection" where
  "setWriteCompleteCallback c = c\<lparr>tc_writeComplete := True\<rparr>"

definition setHighWaterMarkCallback :: "nat \<Rightarrow> TcpConnection \<Rightarrow> TcpConnection" where
  "setHighWaterMarkCallback m c = c\<lparr>tc_highWater := True, tc_highWaterMark := m\<rparr>"

text \<open>\<open>channel_->isWriting()\<close>.\<close>

definition conn_writing :: "TcpConnection \<Rightarrow> Poller \<Rightarrow> bool result" where
  "conn_writing c p = (case heap p (tc_addr c) of None \<Rightarrow> Inl UseAfterFree
                       | Some ch \<Rightarrow> Inr (isWriting ch))"

text \<open>The direct write of \<open>sendInLoop\<close>: bytes written, \<open>faultError\<close> and the effects.\<close>

fun direct_write :: "write_result \<Rightarrow> nat \<Rightarrow> bool \<Rightarrow> nat \<times> bool \<times> tc_effect list" where
  "direct_write (WriteOk n) len complete = (n, False, if n = len \<and> complete then [QueueWriteComplete] else [])"
| "direct_write (WriteErr e) len complete =
     (0, e = EPIPE \<or> e = ECONNRESET, if e \<noteq> EWOULDBLOCK then [LogError] else [])"

definition enable_writing_if :: "TcpConnection \<Rightarrow> Poller \<Rightarrow> Poller result" where
  "enable_writing_if c p =
     bind_r (conn_writing c p) (\<lambda>w. if \<not> w then channel_op False EnableWriting (tc_addr c) p else Inr p)"

definition sendInLoop :: "write_result \<Rightarrow> char list \<Rightarrow> TcpConnection \<Rightarrow> Poller \<Rightarrow> tc_result" where
  "sendInLoop wr data c p =
     (if tc_state c = kDisconnected then Inr (c, p, [LogError])
      else bind_r (conn_writing c p) (\<lambda>writing.
        let (nwrote, faultError, e1) =
              (if \<not> writing \<and> readableBytes (tc_out c) = 0
               then direct_write wr (length data) (tc_writeComplete c) else (0, False, []));
            c1 = c\<lparr>tc_wire := tc_wire c @ take nwrote data\<rparr>;
            remaining = length data - nwrote
        in if \<not> faultError \<and> remaining > 0
           then let oldLen = readableBytes (tc_out c1);
                    e2 = (if oldLen + remaining \<ge> tc_highWaterMark c1 \<and> oldLen < tc_highWaterMark c1 \<and>
                             tc_highWater c1 then [QueueHighWaterMark (oldLen + remaining)] else [])
                in bind_r (Buffer_append (drop nwrote data) (tc_out c1)) (\<lambda>out.
                   bind_r (enable_writing_if c1 p) (\<lambda>p'.
                     Inr (c1\<lparr>tc_out := out\<rparr>, p', e1 @ e2)))
           else Inr (c1, p, e1)))"

text \<open>The result of \<open>sendfile\<close> of at most \<open>sendLen_\<close> bytes from \<open>sendFd_\<close>.\<close>

datatype sendfile_result = SfOk nat | SfErr errno

definition sendFileInLoop :: "sendfile_result \<Rightarrow> TcpConnection \<Rightarrow> Poller \<Rightarrow> tc_result" where
  "sendFileInLoop sf c p =
     (if tc_state c = kDisconnected then Inr (c, p, [LogError])
      else bind_r (conn_writing c p) (\<lambda>writing.
        let (faultError, c1, e1) =
              (if \<not> writing \<and> readableBytes (tc_out c) = 0
               then (case sf of
                   SfOk n \<Rightarrow> (False, c\<lparr>tc_sendLen := tc_sendLen c - n\<rparr>,
                             [SendFile (tc_sendFd c) n] @
                             (if tc_sendLen c - n = 0 then [CloseFd (tc_sendFd c)] else []))
                 | SfErr e \<Rightarrow> (e = EPIPE \<or> e = ECONNRESET, c, if e \<noteq> EWOULDBLOCK then [LogError] else []))
               else (False, c, []))
        in if \<not> faultError \<and> tc_sendLen c1 > 0
           then bind_r (enable_writing_if c1 p) (\<lambda>p'. Inr (c1, p', e1))
           else Inr (c1, p, e1)))"

definition shutdownInLoop :: "TcpConnection \<Rightarrow> Poller \<Rightarrow> tc_result" where
  "shutdownInLoop c p =
     bind_r (conn_writing c p) (\<lambda>w. Inr (c, p, if \<not> w then [ShutdownWrite] else []))"

text \<open>
  The public operations, called in the loop's thread or not. From another thread they give the
  functor they pass to \<open>runInLoop\<close>. \<open>send(const std::string&)\<close> binds the pointer \<open>buf.c_str()\<close>
  (here the address \<open>ptr\<close> of the caller's string), \<open>send(Buffer*)\<close> a copy of the bytes.
\<close>

definition send_string :: "bool \<Rightarrow> write_result \<Rightarrow> nat \<Rightarrow> string \<Rightarrow> TcpConnection \<Rightarrow> Poller \<Rightarrow>
    (conn_functor list \<times> TcpConnection \<times> Poller \<times> tc_effect list) result" where
  "send_string inLoopThread wr ptr buf c p =
     (if tc_state c = kConnected
      then if inLoopThread then bind_r (sendInLoop wr buf c p) (\<lambda>r. Inr ([], r))
           else Inr ([FSendPtr ptr (length buf)], c, p, [])
      else Inr ([], c, p, []))"

definition send_buffer :: "bool \<Rightarrow> write_result \<Rightarrow> Buffer \<Rightarrow> TcpConnection \<Rightarrow> Poller \<Rightarrow>
    (Buffer \<times> conn_functor list \<times> TcpConnection \<times> Poller \<times> tc_effect list) result" where
  "send_buffer inLoopThread wr buf c p =
     (if tc_state c = kConnected
      then if inLoopThread
           then bind_r (string_at_peek (readableBytes buf) buf) (\<lambda>data.
                bind_r (sendInLoop wr data c p) (\<lambda>r. Inr (retrieveAll buf, [], r)))
           else bind_r (retrieveAllAsString buf) (\<lambda>(s, buf'). Inr (buf', [FSendString s], c, p, []))
      else Inr (buf, [], c, p, []))"

definition sendFile :: "bool \<Rightarrow> sendfile_result \<Rightarrow> int \<Rightarrow> nat \<Rightarrow> TcpConnection \<Rightarrow> Poller \<Rightarrow>
    (conn_functor list \<times> TcpConnection \<times> Poller \<times> tc_effect list) result" where
  "sendFile inLoopThread sf fd count c p =
     (if tc_state c = kConnected
      then let c1 = c\<lparr>tc_sendFd := fd, tc_sendLen := count\<rparr> in
           if inLoopThread then bind_r (sendFileInLoop sf c1 p) (\<lambda>r. Inr ([], r))
           else Inr ([FSendFile], c1, p, [])
      else Inr ([], c, p, []))"

definition shutdown :: "bool \<Rightarrow> TcpConnection \<Rightarrow> Poller \<Rightarrow>
    (conn_functor list \<times> TcpConnection \<times> Poller \<times> tc_effect list) result" where
  "shutdown inLoopThread c p =
     (if tc_state c = kConnected
      then let c1 = setState kDisconnecting c in
           if inLoopThread then bind_r (shutdownInLoop c1 p) (\<lambda>r. Inr ([], r))
           else Inr ([FShutdown], c1, p, [])
      else Inr ([], c, p, []))"

text \<open>Running such a functor later, in the loop's thread; \<open>mem\<close> is what still lives where.\<close>

fun run_conn_functor :: "(nat \<rightharpoonup> string) \<Rightarrow> write_result \<Rightarrow> sendfile_result \<Rightarrow> conn_functor \<Rightarrow>
    TcpConnection \<Rightarrow> Poller \<Rightarrow> tc_result" where
  "run_conn_functor mem wr sf (FSendPtr ptr len) c p =
     (case mem ptr of None \<Rightarrow> Inl UseAfterFree
      | Some s \<Rightarrow> if length s < len then Inl OutOfBounds else sendInLoop wr (take len s) c p)"
| "run_conn_functor mem wr sf (FSendString s) c p = sendInLoop wr s c p"
| "run_conn_functor mem wr sf FSendFile c p = sendFileInLoop sf c p"
| "run_conn_functor mem wr sf FShutdown c p = shutdownInLoop c p"

definition connectEstablished :: "TcpConnection \<Rightarrow> Poller \<Rightarrow> tc_result" where
  "connectEstablished c p =
     (let c1 = setState kConnected c in
      case heap p (tc_addr c) of
        None \<Rightarrow> Inl UseAfterFree
      | Some ch \<Rightarrow>
          bind_r (channel_op False EnableReading (tc_addr c)
                    (p\<lparr>heap := (heap p)(tc_addr c \<mapsto> tie ch)\<rparr>)) (\<lambda>p'.
            Inr (c1, p', [CallConnection kConnected])))"

definition connectDestroyed :: "TcpConnection \<Rightarrow> Poller \<Rightarrow> tc_result" where
  "connectDestroyed c p =
     (if tc_state c = kConnected
      then bind_r (channel_op False DisableAll (tc_addr c) p) (\<lambda>p1.
           bind_r (removeChannel False (tc_addr c) p1) (\<lambda>p2.
             Inr (setState kDisconnected c, p2, [CallConnection kDisconnected])))
      else bind_r (removeChannel False (tc_addr c) p) (\<lambda>p1. Inr (c, p1, [])))"

definition handleClose :: "TcpConnection \<Rightarrow> Poller \<Rightarrow> tc_result" where
  "handleClose c p =
     bind_r (channel_op False DisableAll (tc_addr c) p) (\<lambda>p'.
       Inr (setState kDisconnected c, p', [CallConnection kDisconnected, CallClose]))"

text \<open>\<open>handleError\<close> asks the socket for its error and logs it; it does not close the connection.\<close>

definition handleError :: "TcpConnection \<Rightarrow> Poller \<Rightarrow> tc_result" where
  "handleError c p = Inr (c, p, [LogError])"

definition handleRead :: "readv_result \<Rightarrow> int \<Rightarrow> TcpConnection \<Rightarrow> Poller \<Rightarrow> tc_result" where
  "handleRead rv receiveTime c p =
     bind_r (readFd rv (tc_in c)) (\<lambda>(n, savedErrno, buf).
       let c1 = c\<lparr>tc_in := buf\<rparr> in
       if n > 0 then Inr (c1, p, [CallMessage receiveTime])
       else if n = 0 then handleClose c1 p
       else bind_r (handleError c1 p) (\<lambda>(c2, p2, es). Inr (c2, p2, LogError # es)))"

definition handleWrite :: "write_result \<Rightarrow> TcpConnection \<Rightarrow> Poller \<Rightarrow> tc_result" where
  "handleWrite wr c p =
     bind_r (conn_writing c p) (\<lambda>writing.
       if writing
       then bind_r (writeFd wr (tc_out c)) (\<lambda>(n, saveErrno, written).
         let c0 = c\<lparr>tc_wire := tc_wire c @ written\<rparr> in
         if n > 0
         then let c1 = c0\<lparr>tc_out := retrieve (nat n) (tc_out c0)\<rparr> in
              if readableBytes (tc_out c1) = 0
              then bind_r (channel_op False DisableWriting (tc_addr c1) p) (\<lambda>p1.
                   let e1 = (if tc_writeComplete c1 then [QueueWriteComplete] else []) in
                   if tc_state c1 = kDisconnecting
                   then bind_r (shutdownInLoop c1 p1) (\<lambda>(c2, p2, e2). Inr (c2, p2, e1 @ e2))
                   else Inr (c1, p1, e1))
              else Inr (c1, p, [])
         else Inr (c0, p, [LogError]))
       else Inr (c, p, [LogError]))"

section \<open>Invariant\<close>

text \<open>
  The connection's channel is registered and the kernel watches what it asks for; bytes that wait
  in the output buffer of a connection that is not disconnected have the channel wait for
  writability. All the bytes handed to the connection are its stream.
\<close>

definition writing :: "TcpConnection \<Rightarrow> Poller \<Rightarrow> bool" where
  "writing c p \<longleftrightarrow> bit (requested_mask (tc_addr c) p) 2"

definition conn_inv :: "TcpConnection \<Rightarrow> Poller \<Rightarrow> bool" where
  "conn_inv c p \<longleftrightarrow> poller_inv p \<and> fd_free (tc_addr c) p \<and>
     watched_mask (tc_addr c) p = requested_mask (tc_addr c) p \<and>
     buffer_inv (tc_in c) \<and> buffer_inv (tc_out c) \<and>
     (tc_state c \<noteq> kDisconnected \<longrightarrow> content (tc_out c) \<noteq> [] \<longrightarrow> writing c p)"

definition stream :: "TcpConnection \<Rightarrow> char list" where
  "stream c = tc_wire c @ content (tc_out c)"

text \<open>What \<open>write\<close> may return for \<open>len\<close> bytes on a connection the peer has not reset.\<close>

fun write_valid :: "write_result \<Rightarrow> nat \<Rightarrow> bool" where
  "write_valid (WriteOk n) len = (n \<le> len)"
| "write_valid (WriteErr e) len = (e \<noteq> EPIPE \<and> e \<noteq> ECONNRESET)"

section \<open>The interface of an outgoing byte stream\<close>

text \<open>
  What the users of a connection rely on: \<open>send\<close> accepts bytes in any state of the kernel's send
  buffer, \<open>pump\<close> (the writability event) moves accepted bytes to the wire, and neither loses,
  duplicates or reorders any.
\<close>

fun run_sends :: "(write_result \<Rightarrow> char list \<Rightarrow> 's \<Rightarrow> 's result) \<Rightarrow> (write_result \<times> char list) list \<Rightarrow> 's \<Rightarrow>
    's result" where
  "run_sends f [] s = Inr s"
| "run_sends f ((wr, d) # ds) s = bind_r (f wr d s) (run_sends f ds)"

fun run_pumps :: "(write_result \<Rightarrow> 's \<Rightarrow> 's result) \<Rightarrow> nat list \<Rightarrow> 's \<Rightarrow> 's result" where
  "run_pumps f [] s = Inr s"
| "run_pumps f (n # ns) s = bind_r (f (WriteOk n) s) (run_pumps f ns)"

locale stream_out =
  fixes invar :: "'s \<Rightarrow> bool"
    and wire :: "'s \<Rightarrow> char list"
    and backlog :: "'s \<Rightarrow> char list"
    and room :: "'s \<Rightarrow> nat"
    and send_bytes :: "write_result \<Rightarrow> char list \<Rightarrow> 's \<Rightarrow> 's result"
    and pump :: "write_result \<Rightarrow> 's \<Rightarrow> 's result"
  assumes send_ok: "invar s \<Longrightarrow> write_valid wr (length d) \<Longrightarrow> length d < 2 ^ 31 \<Longrightarrow>
      room s + length d \<le> vector_max_size \<Longrightarrow>
      \<exists>s'. send_bytes wr d s = Inr s' \<and> invar s' \<and> wire s' @ backlog s' = wire s @ backlog s @ d \<and>
           room s' \<le> room s + length d"
    and pump_ok: "invar s \<Longrightarrow> 0 < n \<Longrightarrow> n \<le> length (backlog s) \<Longrightarrow>
      \<exists>s'. pump (WriteOk n) s = Inr s' \<and> invar s' \<and> wire s' = wire s @ take n (backlog s) \<and>
           backlog s' = drop n (backlog s)"
begin

lemma sends_ok:
  assumes "invar s" "\<forall>(wr, d) \<in> set ds. write_valid wr (length d) \<and> length d < 2 ^ 31"
    and "room s + length (concat (map snd ds)) \<le> vector_max_size"
  shows "\<exists>s'. run_sends send_bytes ds s = Inr s' \<and> invar s' \<and>
      wire s' @ backlog s' = wire s @ backlog s @ concat (map snd ds)"
  using assms
proof (induction ds arbitrary: s)
  case (Cons x ds)
  obtain wr d where x: "x = (wr, d)" by fastforce
  with Cons.prems obtain s1 where s1: "send_bytes wr d s = Inr s1" "invar s1"
      "wire s1 @ backlog s1 = wire s @ backlog s @ d" "room s1 \<le> room s + length d"
    using send_ok[of s wr d] by auto
  then obtain s' where "run_sends send_bytes ds s1 = Inr s'" "invar s'"
      "wire s' @ backlog s' = wire s1 @ backlog s1 @ concat (map snd ds)"
    using Cons.IH[of s1] Cons.prems x by auto
  moreover have "wire s1 @ backlog s1 @ concat (map snd ds) = (wire s1 @ backlog s1) @ concat (map snd ds)" by simp
  ultimately show ?case using s1 x by auto
qed simp

text \<open>Positive writes that add up to the backlog put exactly the backlog on the wire.\<close>

lemma pumps_drain:
  assumes "invar s" "\<forall>n \<in> set ns. 0 < n" "sum_list ns = length (backlog s)"
  shows "\<exists>s'. run_pumps pump ns s = Inr s' \<and> invar s' \<and> wire s' = wire s @ backlog s \<and> backlog s' = []"
  using assms
proof (induction ns arbitrary: s)
  case (Cons n ns)
  then obtain s1 where s1: "pump (WriteOk n) s = Inr s1" "invar s1"
      "wire s1 = wire s @ take n (backlog s)" "backlog s1 = drop n (backlog s)"
    using pump_ok[of s n] by auto
  with Cons.prems Cons.IH[of s1] show ?case by fastforce
qed simp

lemma sends_then_pumps:
  assumes "invar s" "\<forall>(wr, d) \<in> set ds. write_valid wr (length d) \<and> length d < 2 ^ 31"
    and "room s + length (concat (map snd ds)) \<le> vector_max_size" "\<forall>n \<in> set ns. 0 < n"
    and "\<And>s'. run_sends send_bytes ds s = Inr s' \<Longrightarrow> sum_list ns = length (backlog s')"
  shows "\<exists>s'. bind_r (run_sends send_bytes ds s) (run_pumps pump ns) = Inr s' \<and> invar s' \<and>
      wire s' = wire s @ backlog s @ concat (map snd ds) \<and> backlog s' = []"
proof -
  obtain s1 where s1: "run_sends send_bytes ds s = Inr s1" "invar s1"
      "wire s1 @ backlog s1 = wire s @ backlog s @ concat (map snd ds)"
    using sends_ok[OF assms(1-3)] by blast
  from pumps_drain[OF s1(2) assms(4) assms(5)[OF s1(1)]] s1 show ?thesis by auto
qed

end

section \<open>Lemmas\<close>

lemma fd_free_heap: "fd_free a p \<Longrightarrow> \<exists>ch. heap p a = Some ch"
  by (auto simp: fd_free_def split: option.splits)

lemma conn_writing_eq: "fd_free (tc_addr c) p \<Longrightarrow> conn_writing c p = Inr (writing c p)"
  by (auto simp: conn_writing_def writing_def requested_mask_def isWriting_bit fd_free_def
        split: option.splits)

lemma mask_op_bit2 [simp]:
  "bit (mask_op EnableWriting m) 2" "\<not> bit (mask_op DisableWriting m) 2" "\<not> bit (mask_op DisableAll m) 2"
  "bit (mask_op EnableReading m) 2 = bit m 2" "bit (mask_op DisableReading m) 2 = bit m 2"
  by (simp_all add: kWriteEvent_def kReadEvent_def kNoneEvent_def bit_simps mask_bits)

lemma conn_fields_writing [simp]:
  "writing (c\<lparr>tc_wire := w\<rparr>) p = writing c p" "writing (c\<lparr>tc_out := b\<rparr>) p = writing c p"
  "writing (c\<lparr>tc_in := b\<rparr>) p = writing c p" "writing (setState st c) p = writing c p"
  "writing (c\<lparr>tc_sendLen := n\<rparr>) p = writing c p"
  by (simp_all add: writing_def setState_def)

lemma enable_writing_ok:
  assumes "poller_inv p" "fd_free (tc_addr c) p" "watched_mask (tc_addr c) p = requested_mask (tc_addr c) p"
  shows "\<exists>p'. enable_writing_if c p = Inr p' \<and> poller_inv p' \<and> fd_free (tc_addr c) p' \<and>
    watched_mask (tc_addr c) p' = requested_mask (tc_addr c) p' \<and> writing c p' \<and>
    (\<forall>b. b \<noteq> tc_addr c \<longrightarrow> watched_mask b p' = watched_mask b p)"
proof (cases "writing c p")
  case True
  with assms show ?thesis by (simp add: enable_writing_if_def conn_writing_eq)
next
  case False
  from ep.apply_ok[OF assms(1,2), of EnableWriting] obtain p' where
    p': "channel_op False EnableWriting (tc_addr c) p = Inr p'" "poller_inv p'" "fd_free (tc_addr c) p'"
      "requested_mask (tc_addr c) p' = mask_op EnableWriting (requested_mask (tc_addr c) p)"
      "watched_mask (tc_addr c) p' = requested_mask (tc_addr c) p'"
      "\<forall>b. b \<noteq> tc_addr c \<longrightarrow> watched_mask b p' = watched_mask b p" by blast
  have "writing c p'" unfolding writing_def p'(4) by (rule mask_op_bit2(1))
  with p' False assms show ?thesis by (simp add: enable_writing_if_def conn_writing_eq)
qed

text \<open>The bytes that remain after the direct write go to the buffer, and writability is awaited.\<close>

lemma buffer_rest_ok:
  assumes "conn_inv c p" "length d < 2 ^ 31" "writerIndex (tc_out c) + length d \<le> vector_max_size"
  shows "\<exists>out p'. Buffer_append d (tc_out c) = Inr out \<and> enable_writing_if c p = Inr p' \<and>
    conn_inv (c\<lparr>tc_out := out\<rparr>) p' \<and> content out = content (tc_out c) @ d \<and>
    writerIndex out \<le> writerIndex (tc_out c) + length d"
proof -
  obtain out where out: "Buffer_append d (tc_out c) = Inr out" "buffer_inv out"
      "content out = content (tc_out c) @ d" "writerIndex out \<le> writerIndex (tc_out c) + length d"
    using append_ok[of "tc_out c" d] assms by (auto simp: conn_inv_def)
  obtain p' where "enable_writing_if c p = Inr p'" "poller_inv p'" "fd_free (tc_addr c) p'"
      "watched_mask (tc_addr c) p' = requested_mask (tc_addr c) p'" "writing c p'"
    using enable_writing_ok[of p c] assms(1) by (auto simp: conn_inv_def)
  with out assms(1) show ?thesis by (auto simp: conn_inv_def)
qed

lemma conn_inv_wire [simp]: "conn_inv (c\<lparr>tc_wire := w\<rparr>) p = conn_inv c p"
  by (simp add: conn_inv_def)

lemma direct_write_valid:
  "write_valid wr len \<Longrightarrow> direct_write wr len complete = (n, fault, es) \<Longrightarrow> n \<le> len \<and> \<not> fault"
  by (cases wr) auto

lemma sendInLoop_ok:
  assumes inv: "conn_inv c p" and st: "tc_state c \<noteq> kDisconnected" and wr: "write_valid wr (length d)"
    and len: "length d < 2 ^ 31" "writerIndex (tc_out c) + length d \<le> vector_max_size"
  shows "\<exists>c' p' es. sendInLoop wr d c p = Inr (c', p', es) \<and> conn_inv c' p' \<and> stream c' = stream c @ d \<and>
    tc_state c' = tc_state c \<and> writerIndex (tc_out c') \<le> writerIndex (tc_out c) + length d"
proof -
  have w: "conn_writing c p = Inr (writing c p)" using inv by (simp add: conn_inv_def conn_writing_eq)
  obtain n fault es where dw: "(if \<not> writing c p \<and> readableBytes (tc_out c) = 0
      then direct_write wr (length d) (tc_writeComplete c) else (0, False, [])) = (n, fault, es)"
    by (metis prod_cases3)
  with direct_write_valid[OF wr] have n: "n \<le> length d" "\<not> fault" by (auto split: if_splits)
  have empty: "n \<noteq> 0 \<Longrightarrow> content (tc_out c) = []"
    using dw inv by (auto simp: conn_inv_def buffer_defs subrange_eq_Nil_iff split: if_splits)
  define c1 where "c1 = c\<lparr>tc_wire := tc_wire c @ take n d\<rparr>"
  show ?thesis
  proof (cases "length d - n > 0")
    case True
    have "length (drop n d) < 2 ^ 31" "writerIndex (tc_out c1) + length (drop n d) \<le> vector_max_size"
        "conn_inv c1 p"
      using len inv by (simp_all add: c1_def)
    then obtain out p' where o: "Buffer_append (drop n d) (tc_out c1) = Inr out" "enable_writing_if c1 p = Inr p'"
        "conn_inv (c1\<lparr>tc_out := out\<rparr>) p'" "content out = content (tc_out c1) @ drop n d"
        "writerIndex out \<le> writerIndex (tc_out c1) + length (drop n d)"
      using buffer_rest_ok[of c1 p "drop n d"] by blast
    then show ?thesis using st w dw n empty True
      by (cases "n = 0") (auto simp: sendInLoop_def c1_def stream_def Let_def)
  next
    case False
    then have "d = take n d" "n = length d" using n by simp_all
    then show ?thesis using st w dw n empty False inv
      by (cases "n = 0") (auto simp: sendInLoop_def stream_def Let_def)
  qed
qed

lemma readable_0_iff: "buffer_inv b \<Longrightarrow> readableBytes b = 0 \<longleftrightarrow> content b = []"
  by (metis length_0_conv length_content)

text \<open>
  A connection that waits for writability exactly when it has output stays so; a send emits no
  shutdown; on an idle connection, what the kernel did not take waits in the buffer.
\<close>

lemma sendInLoop_waits:
  assumes inv: "conn_inv c p" and st: "tc_state c \<noteq> kDisconnected" and wr: "write_valid wr (length d)"
    and len: "length d < 2 ^ 31" "writerIndex (tc_out c) + length d \<le> vector_max_size"
    and w: "writing c p \<longleftrightarrow> content (tc_out c) \<noteq> []" and s: "sendInLoop wr d c p = Inr (c', p', es)"
  shows "(writing c' p' \<longleftrightarrow> content (tc_out c') \<noteq> []) \<and> tc_in c' = tc_in c \<and> ShutdownWrite \<notin> set es \<and>
    (\<forall>n. wr = WriteOk n \<and> content (tc_out c) = [] \<longrightarrow> content (tc_out c') = drop n d \<and>
      (\<not> tc_writeComplete c \<and> \<not> tc_highWater c \<longrightarrow> es = []))"
proof -
  have cw: "conn_writing c p = Inr (writing c p)" using inv by (simp add: conn_inv_def conn_writing_eq)
  have ob: "buffer_inv (tc_out c)" using inv by (simp add: conn_inv_def)
  obtain n fault e1 where dw: "(if \<not> writing c p \<and> readableBytes (tc_out c) = 0
      then direct_write wr (length d) (tc_writeComplete c) else (0, False, [])) = (n, fault, e1)"
    by (metis prod_cases3)
  with direct_write_valid[OF wr] have n: "n \<le> length d" "\<not> fault" by (auto split: if_splits)
  have k: "\<forall>k. wr = WriteOk k \<and> content (tc_out c) = [] \<longrightarrow> n = k \<and> (\<not> tc_writeComplete c \<longrightarrow> e1 = [])"
      "ShutdownWrite \<notin> set e1"
    using dw w readable_0_iff[OF ob] by (cases wr; auto split: if_splits)+
  have e: "n \<noteq> 0 \<Longrightarrow> content (tc_out c) = []" using dw w by (auto split: if_splits)
  define c1 where "c1 = c\<lparr>tc_wire := tc_wire c @ take n d\<rparr>"
  show ?thesis
  proof (cases "length d - n > 0")
    case True
    have c1: "length (drop n d) < 2 ^ 31" "writerIndex (tc_out c1) + length (drop n d) \<le> vector_max_size" "conn_inv c1 p"
      using len inv by (simp_all add: c1_def)
    obtain out q where o: "Buffer_append (drop n d) (tc_out c1) = Inr out" "enable_writing_if c1 p = Inr q"
        "content out = content (tc_out c1) @ drop n d"
      using buffer_rest_ok[OF c1(3,1,2)] by blast
    have "writing c1 q" using enable_writing_ok[of p c1] o(2) c1(3) by (auto simp: conn_inv_def)
    then have wq: "writing (c1\<lparr>tc_out := out\<rparr>) q" by simp
    define e2 where "e2 = (if readableBytes (tc_out c1) + (length d - n) \<ge> tc_highWaterMark c1 \<and>
        readableBytes (tc_out c1) < tc_highWaterMark c1 \<and> tc_highWater c1 then [QueueHighWaterMark (readableBytes (tc_out c1) + (length d - n))] else [])"
    have "sendInLoop wr d c p = Inr (c1\<lparr>tc_out := out\<rparr>, q, e1 @ e2)"
      using st cw dw n True o(1,2) unfolding sendInLoop_def by (simp add: c1_def[symmetric] e2_def Let_def)
    then have c': "c' = c1\<lparr>tc_out := out\<rparr>" "p' = q" "es = e1 @ e2" using s by simp_all
    have "content out \<noteq> []" using o(3) True by simp
    moreover have "ShutdownWrite \<notin> set e2" "\<not> tc_highWater c \<longrightarrow> e2 = []" by (simp_all add: e2_def c1_def)
    moreover have "content out = content (tc_out c) @ drop n d" "tc_in c1 = tc_in c" using o(3) by (simp_all add: c1_def)
    ultimately show ?thesis unfolding c' using wq k by auto
  next
    case False
    then have nd: "n = length d" using n by simp
    have "sendInLoop wr d c p = Inr (c1, p, e1)"
      using st cw dw n False unfolding sendInLoop_def by (simp add: c1_def Let_def)
    then have c': "c' = c1" "p' = p" "es = e1" using s by simp_all
    have "tc_out c1 = tc_out c" "tc_in c1 = tc_in c" "writing c1 p = writing c p" by (simp_all add: c1_def)
    then show ?thesis unfolding c' using k nd w by auto
  qed
qed

lemma writeFd_ok:
  "buffer_inv b \<Longrightarrow> writeFd (WriteOk n) b = Inr (int n, None, take n (content b))"
  by (simp add: string_at_peek_readable length_content[symmetric] del: length_content)

text \<open>A writability event on a connection with output: the effects, and the stream unchanged.\<close>

lemma handleWrite_writing:
  assumes inv: "conn_inv c p" and w: "writing c p"
    and n: "0 < n" "n \<le> length (content (tc_out c))"
  shows "\<exists>c' p' es. handleWrite (WriteOk n) c p = Inr (c', p', es) \<and> conn_inv c' p' \<and>
    tc_wire c' = tc_wire c @ take n (content (tc_out c)) \<and> content (tc_out c') = drop n (content (tc_out c)) \<and>
    tc_state c' = tc_state c \<and> (writing c' p' \<longleftrightarrow> content (tc_out c') \<noteq> []) \<and>
    (ShutdownWrite \<in> set es \<longleftrightarrow> tc_state c = kDisconnecting \<and> content (tc_out c') = []) \<and>
    count_list es ShutdownWrite = (if tc_state c = kDisconnecting \<and> content (tc_out c') = [] then 1 else 0) \<and> tc_in c' = tc_in c"
proof -
  have cw: "conn_writing c p = Inr True" using inv w by (simp add: conn_inv_def conn_writing_eq)
  have ob: "buffer_inv (tc_out c)" using inv by (simp add: conn_inv_def)
  define out where "out = retrieve n (tc_out c)"
  have out: "buffer_inv out" "content out = drop n (content (tc_out c))"
    using ob by (simp_all add: out_def)
  define c1 where "c1 = c\<lparr>tc_wire := tc_wire c @ take n (content (tc_out c)), tc_out := out\<rparr>"
  show ?thesis
  proof (cases "content out = []")
    case True
    obtain p' where p': "channel_op False DisableWriting (tc_addr c) p = Inr p'" "poller_inv p'"
        "fd_free (tc_addr c) p'"
        "requested_mask (tc_addr c) p' = mask_op DisableWriting (requested_mask (tc_addr c) p)"
        "watched_mask (tc_addr c) p' = requested_mask (tc_addr c) p'"
      using ep.apply_ok[of p "tc_addr c" DisableWriting] inv by (auto simp: conn_inv_def)
    have nw: "\<not> writing c1 p'"
      unfolding writing_def by (simp add: c1_def p'(4) del: mask_op.simps)
    have "conn_inv c1 p'" using p' out True inv by (simp add: conn_inv_def c1_def)
    moreover have "conn_writing c1 p' = Inr False" using p'(3) nw by (simp add: conn_writing_eq c1_def)
    ultimately show ?thesis
      using cw ob n(1) True nw p'(1) out out_def[symmetric] readable_0_iff[OF out(1)]
      by (auto simp: handleWrite_def writeFd_ok shutdownInLoop_def c1_def Let_def
            simp del: writeFd.simps)
  next
    case False
    have "conn_inv c1 p" using inv out w by (simp add: conn_inv_def c1_def)
    moreover have "writing c1 p" using w by (simp add: c1_def)
    ultimately show ?thesis
      using cw ob n(1) False out out_def[symmetric] readable_0_iff[OF out(1)]
      by (auto simp: handleWrite_def writeFd_ok c1_def Let_def simp del: writeFd.simps)
  qed
qed

lemma handleWrite_ok:
  assumes "conn_inv c p" "tc_state c \<noteq> kDisconnected" "0 < n" "n \<le> length (content (tc_out c))"
  shows "\<exists>c' p' es. handleWrite (WriteOk n) c p = Inr (c', p', es) \<and> conn_inv c' p' \<and>
    tc_wire c' = tc_wire c @ take n (content (tc_out c)) \<and> content (tc_out c') = drop n (content (tc_out c)) \<and>
    tc_state c' = tc_state c \<and> (writing c' p' \<longleftrightarrow> content (tc_out c') \<noteq> []) \<and>
    (ShutdownWrite \<in> set es \<longleftrightarrow> tc_state c = kDisconnecting \<and> content (tc_out c') = []) \<and>
    count_list es ShutdownWrite = (if tc_state c = kDisconnecting \<and> content (tc_out c') = [] then 1 else 0) \<and> tc_in c' = tc_in c"
proof -
  have "content (tc_out c) \<noteq> []" using assms(3,4) by auto
  then have "writing c p" using assms(1,2) by (simp add: conn_inv_def)
  from handleWrite_writing[OF assms(1) this assms(3,4)] show ?thesis .
qed

text \<open>A run of writability events in which \<open>write\<close> takes so many bytes each time.\<close>

fun run_writes :: "nat list \<Rightarrow> TcpConnection \<Rightarrow> Poller \<Rightarrow> tc_result" where
  "run_writes [] c p = Inr (c, p, [])"
| "run_writes (n # ns) c p =
     bind_r (handleWrite (WriteOk n) c p) (\<lambda>(c1, p1, e1).
     bind_r (run_writes ns c1 p1) (\<lambda>(c2, p2, e2). Inr (c2, p2, e1 @ e2)))"

lemma handleWrite_nothing:
  assumes "conn_inv c p" "n = 0 \<or> \<not> writing c p"
  shows "handleWrite (WriteOk n) c p = Inr (c, p, [LogError])"
proof -
  have "conn_writing c p = Inr (writing c p)" using assms(1) by (simp add: conn_inv_def conn_writing_eq)
  then show ?thesis using assms writeFd_ok[of "tc_out c" 0]
    by (auto simp: handleWrite_def conn_inv_def simp del: writeFd.simps)
qed

text \<open>None of these events touches a file.\<close>

definition no_file :: "tc_result \<Rightarrow> bool" where
  "no_file r \<longleftrightarrow> (\<forall>c p es. r = Inr (c, p, es) \<longrightarrow> (\<forall>f l. SendFile f l \<notin> set es \<and> CloseFd f \<notin> set es))"

lemma no_file_bind: "(\<And>y. x = Inr y \<Longrightarrow> no_file (f y)) \<Longrightarrow> no_file (bind_r x f)"
  by (cases x) (auto simp: no_file_def)

lemma no_file_Inr: "no_file (Inr (c, p, es)) \<longleftrightarrow> (\<forall>f l. SendFile f l \<notin> set es \<and> CloseFd f \<notin> set es)"
  by (simp add: no_file_def)

lemma no_file_if: "(b \<Longrightarrow> no_file x) \<Longrightarrow> (\<not> b \<Longrightarrow> no_file y) \<Longrightarrow> no_file (if b then x else y)"
  by simp

lemma shutdownInLoop_no_file: "no_file (shutdownInLoop c p)"
  unfolding shutdownInLoop_def by (intro no_file_bind) (simp add: no_file_Inr)

lemma handleWrite_no_file: "no_file (handleWrite wr c p)"
proof -
  have k: "no_file (bind_r (shutdownInLoop c p) (\<lambda>(c2, p2, e2). Inr (c2, p2, (if b then [QueueWriteComplete] else []) @ e2)))" for b c p
    using shutdownInLoop_no_file[of c p] by (intro no_file_bind) (auto simp: no_file_def split: prod.splits)
  show ?thesis unfolding handleWrite_def Let_def
    by (rule k | rule no_file_bind | rule no_file_if | (split prod.split, intro allI impI) | (simp add: no_file_Inr; fail))+
qed

lemma run_writes_no_file: "no_file (run_writes ns c p)"
proof (induction ns arbitrary: c p)
  case (Cons n ns)
  have "no_file (bind_r (run_writes ns c1 p1) (\<lambda>(c2, p2, e2). Inr (c2, p2, e1 @ e2)))"
    if "handleWrite (WriteOk n) c p = Inr (c1, p1, e1)" for c1 p1 e1
    using handleWrite_no_file[of "WriteOk n" c p] Cons.IH[of c1 p1] that
    by (intro no_file_bind) (auto simp: no_file_def split: prod.splits)
  then show ?case by (auto intro!: no_file_bind simp del: run_writes.simps simp: run_writes.simps(2) split: prod.splits)
qed (simp add: no_file_Inr)

lemma run_writes_ok:
  assumes "conn_inv c p" "tc_state c \<noteq> kDisconnected" "content (tc_out c) = [] \<Longrightarrow> \<not> writing c p"
    and "sum_list ns \<le> length (content (tc_out c))"
  shows "\<exists>c' p' es. run_writes ns c p = Inr (c', p', es) \<and> conn_inv c' p' \<and>
    tc_wire c' = tc_wire c @ take (sum_list ns) (content (tc_out c)) \<and> content (tc_out c') = drop (sum_list ns) (content (tc_out c)) \<and>
    tc_state c' = tc_state c \<and> tc_in c' = tc_in c \<and>
    count_list es ShutdownWrite =
      (if tc_state c = kDisconnecting \<and> content (tc_out c) \<noteq> [] \<and> sum_list ns = length (content (tc_out c)) then 1 else 0)"
  using assms
proof (induction ns arbitrary: c p)
  case (Cons n ns)
  show ?case
  proof (cases "n = 0 \<or> content (tc_out c) = []")
    case True
    then have n: "n = 0" using Cons.prems(4) by auto
    show ?thesis using handleWrite_nothing[OF Cons.prems(1), of n] n Cons.IH[OF Cons.prems(1-3)] Cons.prems(4) by auto
  next
    case False
    then have "0 < n" "n \<le> length (content (tc_out c))" using Cons.prems(4) by auto
    from handleWrite_ok[OF Cons.prems(1,2) this] obtain c1 p1 e1 where h: "handleWrite (WriteOk n) c p = Inr (c1, p1, e1)" "conn_inv c1 p1"
        "tc_wire c1 = tc_wire c @ take n (content (tc_out c))" "content (tc_out c1) = drop n (content (tc_out c))"
        "tc_state c1 = tc_state c" "writing c1 p1 \<longleftrightarrow> content (tc_out c1) \<noteq> []" "tc_in c1 = tc_in c"
        "count_list e1 ShutdownWrite = (if tc_state c = kDisconnecting \<and> content (tc_out c1) = [] then 1 else 0)" by blast
    have pre: "tc_state c1 \<noteq> kDisconnected" "content (tc_out c1) = [] \<Longrightarrow> \<not> writing c1 p1" "sum_list ns \<le> length (content (tc_out c1))"
      using h(4-6) Cons.prems(2,4) by auto
    obtain c2 p2 e2 where r: "run_writes ns c1 p1 = Inr (c2, p2, e2)" "conn_inv c2 p2"
        "tc_wire c2 = tc_wire c1 @ take (sum_list ns) (content (tc_out c1))" "content (tc_out c2) = drop (sum_list ns) (content (tc_out c1))"
        "tc_state c2 = tc_state c1" "tc_in c2 = tc_in c1" "count_list e2 ShutdownWrite =
          (if tc_state c1 = kDisconnecting \<and> content (tc_out c1) \<noteq> [] \<and> sum_list ns = length (content (tc_out c1)) then 1 else 0)"
      using Cons.IH[OF h(2) pre] by blast
    have "count_list (e1 @ e2) ShutdownWrite =
        (if tc_state c = kDisconnecting \<and> n + sum_list ns = length (content (tc_out c)) then 1 else 0)"
      using h(4,5,8) r(7) Cons.prems(4) by (auto simp: count_list_append)
    then show ?thesis using h r False
      by (intro exI[of _ c2] exI[of _ p2] exI[of _ "e1 @ e2"]) (simp add: take_add add.commute)
  qed
qed simp

text \<open>An open connection with its poller, as an outgoing stream.\<close>

definition open_inv :: "TcpConnection \<times> Poller \<Rightarrow> bool" where
  "open_inv s \<longleftrightarrow> conn_inv (fst s) (snd s) \<and> tc_state (fst s) \<noteq> kDisconnected"

definition send_step :: "write_result \<Rightarrow> char list \<Rightarrow> TcpConnection \<times> Poller \<Rightarrow> (TcpConnection \<times> Poller) result" where
  "send_step wr d s = bind_r (sendInLoop wr d (fst s) (snd s)) (\<lambda>(c, p, es). Inr (c, p))"

definition write_step :: "write_result \<Rightarrow> TcpConnection \<times> Poller \<Rightarrow> (TcpConnection \<times> Poller) result" where
  "write_step wr s = bind_r (handleWrite wr (fst s) (snd s)) (\<lambda>(c, p, es). Inr (c, p))"

interpretation tcp: stream_out open_inv "\<lambda>s. tc_wire (fst s)" "\<lambda>s. content (tc_out (fst s))"
  "\<lambda>s. writerIndex (tc_out (fst s))" send_step write_step
proof (unfold_locales, goal_cases)
  case (1 s wr d)
  then show ?case using sendInLoop_ok[of "fst s" "snd s" wr d]
    by (fastforce simp: open_inv_def send_step_def stream_def)
next
  case (2 s n)
  then show ?case using handleWrite_ok[of "fst s" "snd s" n]
    by (fastforce simp: open_inv_def write_step_def)
qed

lemma same_registration_masks:
  assumes "same_registration p q"
  shows "fd_free a q = fd_free a p" "requested_mask a q = requested_mask a p" "watched_mask a q = watched_mask a p"
proof -
  have "channels q = channels p" "interest q = interest p" using assms by (simp_all add: same_registration_def)
  moreover have "heap p a = None \<and> heap q a = None \<or>
      (\<exists>c d. heap p a = Some c \<and> heap q a = Some d \<and> ch_fd d = ch_fd c \<and> ch_events d = ch_events c)"
    using assms unfolding same_registration_def by (metis not_None_eq)
  ultimately show "fd_free a q = fd_free a p" "requested_mask a q = requested_mask a p"
      "watched_mask a q = watched_mask a p"
    unfolding fd_free_def requested_mask_def watched_mask_def by auto
qed

text \<open>Construction and \<open>connectEstablished\<close> bring the connection into the invariant.\<close>

lemma established_inv:
  assumes "poller_inv p" "heap p a = None" "channels p fd = None"
    and "new_TcpConnection False nm fd a p = Inr (c0, p0, es0)"
  shows "\<exists>c p'. connectEstablished c0 p0 = Inr (c, p', [CallConnection kConnected]) \<and> conn_inv c p' \<and>
    tc_state c = kConnected \<and> stream c = [] \<and> tc_addr c = a \<and> writerIndex (tc_out c) = 8 \<and>
    content (tc_out c) = [] \<and> \<not> tc_writeComplete c \<and> \<not> writing c p' \<and>
    (\<forall>b. b \<noteq> a \<longrightarrow> watched_mask b p' = watched_mask b p)"
proof -
  define p1 where "p1 = p\<lparr>heap := (heap p)(a \<mapsto> new_Channel fd)\<rparr>"
  define ch where "ch = setErrorCallback (setCloseCallback (setWriteCallback (setReadCallback (new_Channel fd))))"
  define p2 where "p2 = p\<lparr>heap := (heap p)(a \<mapsto> tie ch)\<rparr>"
  have inv1: "poller_inv p1" using poller_step_inv[OF step_new[OF assms(2)] assms(1)] by (simp add: p1_def)
  have sr: "same_registration p1 p2"
    by (auto simp: same_registration_def p1_def p2_def ch_def tie_def setErrorCallback_def
          setCloseCallback_def setWriteCallback_def setReadCallback_def)
  have "fd_free a p1" using assms(3) by (simp add: fd_free_def p1_def new_Channel_def)
  then have inv2: "poller_inv p2" "fd_free a p2"
    using sr inv1 same_registration_inv same_registration_masks(1) by blast+
  have c0: "c0 = \<lparr>tc_name = nm, tc_state = kConnecting, tc_addr = a, tc_fd = fd, tc_sendFd = 0,
          tc_sendLen = 0, tc_writeComplete = False, tc_highWater = False,
          tc_highWaterMark = 64 * 1024 * 1024, tc_in = new_Buffer kInitialSize,
          tc_out = new_Buffer kInitialSize, tc_wire = []\<rparr>" "p0 = p\<lparr>heap := (heap p)(a \<mapsto> ch)\<rparr>"
    using assms(4) by (simp_all add: new_TcpConnection_def ch_def)
  have r0: "requested_mask a p2 = 0" "b \<noteq> a \<Longrightarrow> watched_mask b p2 = watched_mask b p" for b
    by (simp_all add: requested_mask_def watched_mask_def p2_def ch_def tie_def setErrorCallback_def
          setCloseCallback_def setWriteCallback_def setReadCallback_def new_Channel_def
          cong: option.case_cong)
  obtain p' where p': "channel_op False EnableReading a p2 = Inr p'" "poller_inv p'" "fd_free a p'"
      "requested_mask a p' = mask_op EnableReading (requested_mask a p2)"
      "watched_mask a p' = requested_mask a p'" "\<forall>b. b \<noteq> a \<longrightarrow> watched_mask b p' = watched_mask b p2"
    using ep.apply_ok[OF inv2, of EnableReading] by blast
  have ce: "connectEstablished c0 p0 = Inr (setState kConnected c0, p', [CallConnection kConnected])"
    using p'(1) by (simp add: connectEstablished_def c0 p2_def)
  have nw: "\<not> writing (setState kConnected c0) p'"
    unfolding writing_def using p'(4) r0(1) by (simp add: c0 setState_def del: mask_op.simps)
  show ?thesis
    using ce nw p' r0(2) by (auto simp: conn_inv_def setState_def c0 kInitialSize_def new_Buffer_inv
        vector_max_size_def stream_def)
qed

section \<open>Properties\<close>

text \<open>
  C3: the outgoing byte stream. On an open connection, any number of \<open>sendInLoop\<close> calls, each of less
  than 2 GiB and together within the maximal size of the buffer, whatever part of each the kernel takes
  at once or refuses for now, succeed and append their bytes to the stream in order; and any sequence of writability events in which the kernel takes the backlog
  puts exactly the bytes sent on the wire, none lost, repeated or reordered.
\<close>

theorem sends_reach_the_wire:
  assumes "conn_inv c p" "tc_state c \<noteq> kDisconnected"
    and "\<forall>(wr, d) \<in> set ds. write_valid wr (length d) \<and> length d < 2 ^ 31"
    and "writerIndex (tc_out c) + length (concat (map snd ds)) \<le> vector_max_size"
  shows "\<exists>c1 p1. run_sends send_step ds (c, p) = Inr (c1, p1) \<and> stream c1 = stream c @ concat (map snd ds) \<and>
    (\<forall>ns. (\<forall>n \<in> set ns. 0 < n) \<longrightarrow> sum_list ns = length (content (tc_out c1)) \<longrightarrow>
      (\<exists>c2 p2. run_pumps write_step ns (c1, p1) = Inr (c2, p2) \<and> content (tc_out c2) = [] \<and>
               tc_wire c2 = stream c @ concat (map snd ds)))"
proof -
  have o: "open_inv (c, p)" using assms(1,2) by (simp add: open_inv_def)
  obtain s1 where s1: "run_sends send_step ds (c, p) = Inr s1" "open_inv s1"
      "tc_wire (fst s1) @ content (tc_out (fst s1)) = tc_wire c @ content (tc_out c) @ concat (map snd ds)"
    using tcp.sends_ok[OF o assms(3)] assms(4) by auto
  then have "stream (fst s1) = stream c @ concat (map snd ds)" by (simp add: stream_def)
  moreover have "\<exists>c2 p2. run_pumps write_step ns s1 = Inr (c2, p2) \<and> content (tc_out c2) = [] \<and>
               tc_wire c2 = stream c @ concat (map snd ds)"
    if "\<forall>n \<in> set ns. 0 < n" "sum_list ns = length (content (tc_out (fst s1)))" for ns
    using tcp.pumps_drain[OF s1(2) that] s1(3) by (force simp: stream_def)
  ultimately show ?thesis using s1(1) by (cases s1) auto
qed

text \<open>An established connection at address 1 on descriptor 9, for the examples.\<close>

lemma example_connection:
  "\<exists>c p. conn_inv c p \<and> tc_state c = kConnected \<and> stream c = [] \<and> tc_addr c = 1 \<and>
     writerIndex (tc_out c) = 8 \<and> content (tc_out c) = [] \<and> \<not> writing c p \<and> \<not> tc_writeComplete c"
proof -
  let ?p = "\<lparr>heap = Map.empty, channels = Map.empty, interest = Map.empty, events_size = 16\<rparr> :: Poller"
  have "poller_inv ?p" by (simp add: poller_inv_def)
  moreover obtain c0 p0 es0 where "new_TcpConnection False ''c'' 9 1 ?p = Inr (c0, p0, es0)"
    by (simp add: new_TcpConnection_def)
  ultimately show ?thesis using established_inv[of ?p 1 9 "''c''" c0 p0 es0] by auto
qed

theorem sends_reach_the_wire_witness:
  "\<exists>c p c1 p1. run_sends send_step [(WriteOk 2, ''abcd''), (WriteErr EWOULDBLOCK, ''ef'')] (c, p) = Inr (c1, p1) \<and>
    stream c1 = ''abcdef''"
proof -
  obtain c p where c: "conn_inv c p" "tc_state c = kConnected" "stream c = []" "writerIndex (tc_out c) = 8"
    using example_connection by blast
  then show ?thesis
    using sends_reach_the_wire[of c p "[(WriteOk 2, ''abcd''), (WriteErr EWOULDBLOCK, ''ef'')]"]
    by (auto simp: vector_max_size_def)
qed

text \<open>
  C28: \<open>shutdown\<close> does not cut off output, and it does close. On a connection that is not waiting for
  writability (nothing to send, no file begun) it closes the write side at once. When output waits,
  it does not close yet; then, however many bytes the kernel takes at each writability event, the
  write side is closed by the event that puts the last of them on the wire, exactly once, and by
  none before. (The case left is the unfinished file transfer of \<open>partial_sendfile_never_completes\<close>.)
\<close>

theorem shutdown_after_output:
  assumes "conn_inv c p" "tc_state c = kConnected"
  shows "\<exists>c1. shutdown True c p = Inr ([], c1, p, if writing c p then [] else [ShutdownWrite]) \<and>
    tc_state c1 = kDisconnecting \<and> tc_wire c1 = tc_wire c \<and> content (tc_out c1) = content (tc_out c) \<and>
    (\<not> writing c p \<longrightarrow> content (tc_out c) = []) \<and>
    (content (tc_out c) \<noteq> [] \<longrightarrow> writing c p \<and>
      (\<forall>ns. sum_list ns \<le> length (content (tc_out c)) \<longrightarrow>
        (\<exists>c2 p2 es. run_writes ns c1 p = Inr (c2, p2, es) \<and>
           tc_wire c2 = tc_wire c @ take (sum_list ns) (content (tc_out c)) \<and>
           content (tc_out c2) = drop (sum_list ns) (content (tc_out c)) \<and>
           count_list es ShutdownWrite = (if sum_list ns = length (content (tc_out c)) then 1 else 0))))"
proof -
  let ?c = "setState kDisconnecting c"
  have cw: "conn_writing ?c p = Inr (writing c p)"
    using assms(1) by (subst conn_writing_eq) (simp_all add: conn_inv_def setState_def writing_def)
  have r: "shutdown True c p = Inr ([], ?c, p, if writing c p then [] else [ShutdownWrite])"
    using assms(2) cw by (simp add: shutdown_def shutdownInLoop_def)
  have c: "conn_inv ?c p" "tc_state ?c = kDisconnecting" "tc_out ?c = tc_out c" "tc_wire ?c = tc_wire c"
    using assms by (auto simp: conn_inv_def setState_def writing_def)
  have w: "content (tc_out c) \<noteq> [] \<Longrightarrow> writing c p" using assms by (simp add: conn_inv_def)
  have "\<exists>c2 p2 es. run_writes ns ?c p = Inr (c2, p2, es) \<and>
           tc_wire c2 = tc_wire c @ take (sum_list ns) (content (tc_out c)) \<and>
           content (tc_out c2) = drop (sum_list ns) (content (tc_out c)) \<and>
           count_list es ShutdownWrite = (if sum_list ns = length (content (tc_out c)) then 1 else 0)"
    if "content (tc_out c) \<noteq> []" "sum_list ns \<le> length (content (tc_out c))" for ns
    using run_writes_ok[OF c(1), of ns] c(2-4) that by auto
  then show ?thesis using r c(2-4) w by (intro exI[of _ ?c]) auto
qed

text \<open>Of four bytes the kernel takes one at once; after the shutdown it takes one, none, and the other two.\<close>

theorem shutdown_after_output_witness:
  "\<exists>c p c1 c2 p2 es. conn_inv c p \<and> tc_state c = kConnected \<and> content (tc_out c) = ''bcd'' \<and>
     shutdown True c p = Inr ([], c1, p, []) \<and> run_writes [1, 0, 2] c1 p = Inr (c2, p2, es) \<and>
     tc_wire c2 = ''abcd'' \<and> count_list es ShutdownWrite = 1"
proof -
  obtain c0 p0 where c0: "conn_inv c0 p0" "tc_state c0 = kConnected" "stream c0 = []" "writerIndex (tc_out c0) = 8"
      "content (tc_out c0) = []" "\<not> writing c0 p0"
    using example_connection by blast
  then obtain c p es where c: "sendInLoop (WriteOk 1) ''abcd'' c0 p0 = Inr (c, p, es)" "conn_inv c p" "stream c = ''abcd''"
      "tc_state c = kConnected"
    using sendInLoop_ok[of c0 p0 "WriteOk 1" "''abcd''"] by (auto simp: vector_max_size_def)
  have "conn_writing c0 p0 = Inr False" "readableBytes (tc_out c0) = 0"
    using c0 by (simp_all add: conn_inv_def conn_writing_eq readable_0_iff)
  then have "tc_wire c = ''a''" using c0 c(1) by (auto simp: sendInLoop_def stream_def Let_def bind_r_eq_Inr)
  then have out: "content (tc_out c) = ''bcd''" using c(3) by (simp add: stream_def)
  obtain c1 where s: "shutdown True c p = Inr ([], c1, p, if writing c p then [] else [ShutdownWrite])" "writing c p"
      "\<forall>ns. sum_list ns \<le> length (content (tc_out c)) \<longrightarrow>
        (\<exists>c2 p2 es. run_writes ns c1 p = Inr (c2, p2, es) \<and>
           tc_wire c2 = tc_wire c @ take (sum_list ns) (content (tc_out c)) \<and>
           content (tc_out c2) = drop (sum_list ns) (content (tc_out c)) \<and>
           count_list es ShutdownWrite = (if sum_list ns = length (content (tc_out c)) then 1 else 0))"
    using shutdown_after_output[OF c(2,4)] out by auto
  obtain c2 p2 es2 where "run_writes [1, 0, 2] c1 p = Inr (c2, p2, es2)" "tc_wire c2 = tc_wire c @ take 3 (content (tc_out c))"
      "count_list es2 ShutdownWrite = 1"
    using s(3)[rule_format, of "[1, 0, 2]"] out by (auto simp: eval_nat_numeral)
  then have "run_writes [1, 0, 2] c1 p = Inr (c2, p2, es2)" "tc_wire c2 = ''abcd''" "count_list es2 ShutdownWrite = 1"
    using out \<open>tc_wire c = ''a''\<close> by (simp_all add: eval_nat_numeral)
  moreover have "shutdown True c p = Inr ([], c1, p, [])" using s(1,2) by simp
  ultimately show ?thesis using c(2,4) out by blast
qed

text \<open>
  Tearing a connection down: whether the peer closes first (\<open>handleClose\<close>, then
  \<open>connectDestroyed\<close>) or the server destroys the connection, the user is told exactly once that
  it is down, the kernel stops watching the descriptor, and no other connection is affected.
\<close>

theorem teardown_once:
  assumes "conn_inv c p" "tc_state c = kConnected"
  shows "(\<exists>c1 p1 es1 c2 p2 es2. handleClose c p = Inr (c1, p1, es1) \<and> connectDestroyed c1 p1 = Inr (c2, p2, es2) \<and>
      es1 @ es2 = [CallConnection kDisconnected, CallClose] \<and> tc_state c2 = kDisconnected \<and>
      watched_mask (tc_addr c) p2 = 0 \<and> (\<forall>b. b \<noteq> tc_addr c \<longrightarrow> watched_mask b p2 = watched_mask b p)) \<and>
    (\<exists>c2 p2. connectDestroyed c p = Inr (c2, p2, [CallConnection kDisconnected]) \<and> tc_state c2 = kDisconnected \<and>
      watched_mask (tc_addr c) p2 = 0 \<and> (\<forall>b. b \<noteq> tc_addr c \<longrightarrow> watched_mask b p2 = watched_mask b p))"
proof -
  have i: "poller_inv p" "fd_free (tc_addr c) p" using assms(1) by (simp_all add: conn_inv_def)
  obtain p1 where p1: "channel_op False DisableAll (tc_addr c) p = Inr p1" "poller_inv p1"
      "fd_free (tc_addr c) p1" "\<forall>b. b \<noteq> tc_addr c \<longrightarrow> watched_mask b p1 = watched_mask b p"
    using ep.apply_ok[OF i, of DisableAll] by blast
  obtain p2 where p2: "removeChannel False (tc_addr c) p1 = Inr p2" "watched_mask (tc_addr c) p2 = 0"
      "\<forall>b. b \<noteq> tc_addr c \<longrightarrow> watched_mask b p2 = watched_mask b p1"
    using ep.drop_ok[OF p1(2,3)] by blast
  show ?thesis using p1 p2 assms(2) by (simp add: handleClose_def connectDestroyed_def setState_def)
qed

theorem teardown_once_witness:
  "\<exists>c p c2 p2. tc_addr c = 1 \<and> connectDestroyed c p = Inr (c2, p2, [CallConnection kDisconnected]) \<and>
     tc_state c2 = kDisconnected \<and> watched_mask 1 p2 = 0"
proof -
  obtain c p where c: "conn_inv c p" "tc_state c = kConnected" "tc_addr c = 1"
    using example_connection by blast
  from conjunct2[OF teardown_once[OF c(1,2)]] c(3) show ?thesis by auto
qed

text \<open>A run of writability events on which \<open>write\<close> of the empty buffer returns 0.\<close>

fun write_events :: "nat \<Rightarrow> TcpConnection \<Rightarrow> Poller \<Rightarrow> tc_result" where
  "write_events 0 c p = Inr (c, p, [])"
| "write_events (Suc k) c p =
     bind_r (handleWrite (WriteOk 0) c p) (\<lambda>(c1, p1, e1).
     bind_r (write_events k c1 p1) (\<lambda>(c2, p2, e2). Inr (c2, p2, e1 @ e2)))"

text \<open>
  C37: a file that \<open>sendfile\<close> takes only in part is never completed. The rest waits for
  writability, but \<open>handleWrite\<close> only looks at the (empty) output buffer: every event fails, logs
  an error and leaves the connection as it is, writability stays on, the rest is never sent, the
  descriptor never closed, and a later \<open>shutdown\<close> does not close the connection either.
\<close>

theorem partial_sendfile_never_completes:
  assumes "conn_inv c p" "tc_state c = kConnected" "content (tc_out c) = []" "\<not> writing c p"
    and "n < count"
  shows "\<exists>c1 p1. sendFile True (SfOk n) fd count c p = Inr ([], c1, p1, [SendFile fd n]) \<and>
    tc_sendLen c1 = count - n \<and> writing c1 p1 \<and>
    (\<forall>k. write_events k c1 p1 = Inr (c1, p1, replicate k LogError)) \<and>
    shutdown True c1 p1 = Inr ([], setState kDisconnecting c1, p1, [])"
proof -
  define c1 where "c1 = c\<lparr>tc_sendFd := fd, tc_sendLen := count - n\<rparr>"
  have i: "poller_inv p" "fd_free (tc_addr c1) p" "watched_mask (tc_addr c1) p = requested_mask (tc_addr c1) p"
      "buffer_inv (tc_out c1)" "content (tc_out c1) = []"
    using assms by (simp_all add: conn_inv_def c1_def)
  then have r0: "readableBytes (tc_out c1) = 0" by (simp add: readable_0_iff)
  obtain p1 where p1: "enable_writing_if c1 p = Inr p1" "fd_free (tc_addr c1) p1" "writing c1 p1"
    using enable_writing_ok[OF i(1-3)] by blast
  have "conn_writing (c\<lparr>tc_sendFd := fd, tc_sendLen := count\<rparr>) p = Inr False"
    using i(2) assms(4) by (subst conn_writing_eq) (simp_all add: c1_def writing_def)
  then have s: "sendFile True (SfOk n) fd count c p = Inr ([], c1, p1, [SendFile fd n])"
    using assms(2,5) r0 p1(1) by (simp add: sendFile_def sendFileInLoop_def c1_def)
  have cw: "conn_writing c1 p1 = Inr True" using p1 by (simp add: conn_writing_eq)
  then have "handleWrite (WriteOk 0) c1 p1 = Inr (c1, p1, [LogError])"
    using i(4) by (simp add: handleWrite_def writeFd_ok del: writeFd.simps)
  then have "write_events k c1 p1 = Inr (c1, p1, replicate k LogError)" for k
    by (induction k) simp_all
  moreover have "conn_writing (setState kDisconnecting c1) p1 = Inr True"
    using p1 by (subst conn_writing_eq) (simp_all add: setState_def writing_def)
  ultimately show ?thesis using s p1 assms(2)
    by (auto simp: shutdown_def shutdownInLoop_def c1_def)
qed

theorem partial_sendfile_never_completes_witness:
  "\<exists>c p c1 p1. sendFile True (SfOk 100) 5 4096 c p = Inr ([], c1, p1, [SendFile 5 100]) \<and>
     tc_sendLen c1 = 3996 \<and> write_events 1000 c1 p1 = Inr (c1, p1, replicate 1000 LogError)"
proof -
  obtain c p where c: "conn_inv c p" "tc_state c = kConnected" "content (tc_out c) = []" "\<not> writing c p"
    using example_connection by blast
  have "(100 :: nat) < 4096" by simp
  from partial_sendfile_never_completes[OF c this, of 5] show ?thesis by fastforce
qed

text \<open>
  \<open>send(const std::string&)\<close> from another thread queues the address of the caller's characters,
  not the characters: when the string is gone before the loop runs the functor, the loop reads
  freed memory. \<open>send(Buffer*)\<close> queues a copy and has no such fault.
\<close>

theorem cross_thread_send:
  assumes "tc_state c = kConnected" "buffer_inv b" "content b = s" "mem ptr = None"
  shows "\<exists>f b' g. send_string False wr ptr s c p = Inr ([f], c, p, []) \<and>
    run_conn_functor mem wr sf f c' p' = Inl UseAfterFree \<and>
    send_buffer False wr b c p = Inr (b', [g], c, p, []) \<and> content b' = [] \<and>
    run_conn_functor mem wr sf g c' p' = sendInLoop wr s c' p'"
proof -
  have "retrieveAllAsString b = Inr (s, retrieve (readableBytes b) b)"
    using assms(2,3) by (simp add: retrieveAllAsString_def retrieveAsString_def string_at_peek_readable
        length_content[symmetric] del: length_content)
  moreover have "content (retrieve (readableBytes b) b) = []" using assms(2) by simp
  ultimately show ?thesis using assms by (simp add: send_string_def send_buffer_def)
qed

theorem cross_thread_send_witness:
  "\<exists>c :: TcpConnection. \<exists>p f. tc_state c = kConnected \<and>
     send_string False (WriteOk 0) 42 ''hi'' c p = Inr ([f], c, p, []) \<and>
     run_conn_functor Map.empty (WriteOk 0) (SfOk 0) f c p = Inl UseAfterFree"
proof -
  obtain c p where c: "tc_state c = kConnected" and "conn_inv c p" using example_connection by blast
  have b: "buffer_inv (buffer_of ''hi'')" "content (buffer_of ''hi'') = ''hi''" by simp_all
  show ?thesis
    using cross_thread_send[OF c b, of Map.empty 42 "WriteOk 0" p "SfOk 0" c p] c by blast
qed

end
