(* ===== verification/Html_Pages.thy ===== *)
theory Html_Pages
  imports Prelude
begin

text \<open>
  The constant texts of \<open>src/src/http/FileServer.cc\<close>: the pages the handlers return, byte for byte
  (the source file is UTF-8; bytes outside printable ASCII are written as numbers), and the icon
  \<open>favicon\<close>.
\<close>

abbreviation NL :: string where "NL \<equiv> [CHR 0x0A]"

definition get404Html :: "string \<Rightarrow> string" where
  "get404Html msg =
    ''<!DOCTYPE HTML PUBLIC '' @ [CHR 0x22] @ ''-//W3C//DTD HTML 4.01//EN'' @ [CHR 0x22] @ '' '' @
    [CHR 0x22] @ ''http://www.w3.org/TR/html4/strict.dtd'' @ [CHR 0x22] @ ''>'' @ NL @ ''<html>'' @
    NL @ ''    <head>'' @ NL @ ''        <meta http-equiv='' @ [CHR 0x22] @ ''Content-Type'' @
    [CHR 0x22] @ '' content='' @ [CHR 0x22] @ ''text/html;charset=utf-8'' @ [CHR 0x22] @ ''>'' @
    NL @ ''        <title>Error response</title>'' @ NL @ ''    </head>'' @ NL @ ''    <body>'' @
    NL @ ''        <h1>Error response</h1>'' @ NL @ ''        <p>Error code: 404</p>'' @ NL @
    ''        <p>Message:'' @ msg @
    ''</p>'' @ NL @
    ''        <p>Error code explanation: HTTPStatus.NOT_FOUND - Nothing matches the given URI.</p>'' @
    NL @ ''    </body>'' @ NL @ ''</html>'' @ NL"

definition page_welcome :: string where
  "page_welcome =
    ''<!DOCTYPE html>'' @ NL @ ''<html>'' @ NL @ ''    <head>'' @ NL @ ''        <meta charset='' @
    [CHR 0x22] @ ''UTF-8'' @ [CHR 0x22] @ ''>'' @ NL @ ''        <title>WebServer</title>'' @ NL @
    ''    </head>'' @ NL @ ''    <body>'' @ NL @ ''    <br/>'' @ NL @ ''    <br/>'' @ NL @
    ''    <div align='' @ [CHR 0x22] @ ''center'' @ [CHR 0x22] @ ''><font size='' @ [CHR 0x22] @
    ''5'' @ [CHR 0x22] @ ''> <strong>'' @
    [CHR 0xE6, CHR 0xAC, CHR 0xA2, CHR 0xE8, CHR 0xBF, CHR 0x8E, CHR 0xE8, CHR 0xAE, CHR 0xBF,
     CHR 0xE9, CHR 0x97, CHR 0xAE] @ ''</strong></font></div>'' @ NL @ [CHR 0x09] @ ''<br/>'' @
    NL @ [CHR 0x09, CHR 0x09] @ ''<br/>'' @ NL @ [CHR 0x09, CHR 0x09] @ ''<form action='' @
    [CHR 0x22] @ ''0'' @ [CHR 0x22] @ '' method='' @ [CHR 0x22] @ ''post'' @ [CHR 0x22] @ ''>'' @
    NL @ '' '' @ [CHR 0x09, CHR 0x09, CHR 0x09] @ ''<div align='' @ [CHR 0x22] @ ''center'' @
    [CHR 0x22] @ ''><button type='' @ [CHR 0x22] @ ''submit'' @ [CHR 0x22] @ ''>'' @
    [CHR 0xE6, CHR 0x96, CHR 0xB0, CHR 0xE7, CHR 0x94, CHR 0xA8, CHR 0xE6, CHR 0x88, CHR 0xB7] @
    ''</button></div>'' @ NL @ ''                </form>'' @ NL @ [CHR 0x09, CHR 0x09] @
    ''<br/>'' @ NL @ ''                <form action='' @ [CHR 0x22] @ ''1'' @ [CHR 0x22] @
    '' method='' @ [CHR 0x22] @ ''post'' @ [CHR 0x22] @ ''>'' @ NL @
    ''                        <div align='' @ [CHR 0x22] @ ''center'' @ [CHR 0x22] @
    ''><button type='' @ [CHR 0x22] @ ''submit'' @ [CHR 0x22] @ '' >'' @
    [CHR 0xE5, CHR 0xB7, CHR 0xB2, CHR 0xE6, CHR 0x9C, CHR 0x89, CHR 0xE8, CHR 0xB4, CHR 0xA6,
     CHR 0xE5, CHR 0x8F, CHR 0xB7] @ ''</button></div>'' @ NL @ ''                </form>'' @ NL @
    [CHR 0x09, CHR 0x09] @ NL @ [CHR 0x09, CHR 0x09] @ NL @ ''        </div>'' @ NL @
    ''    </body>'' @ NL @ ''</html>''"

definition page_signup :: string where
  "page_signup =
    ''<!DOCTYPE html>'' @ NL @ ''<html>'' @ NL @ ''    <head>'' @ NL @ ''        <meta charset='' @
    [CHR 0x22] @ ''UTF-8'' @ [CHR 0x22] @ ''>'' @ NL @ ''        <title>Sign up</title>'' @ NL @
    ''    </head>'' @ NL @ ''    <body>'' @ NL @ ''<br/>'' @ NL @ ''<br/>'' @ NL @
    ''    <div align='' @ [CHR 0x22] @ ''center'' @ [CHR 0x22] @ ''><font size='' @ [CHR 0x22] @
    ''5'' @ [CHR 0x22] @ ''> <strong>'' @
    [CHR 0xE6, CHR 0xB3, CHR 0xA8, CHR 0xE5, CHR 0x86, CHR 0x8C] @ ''</strong></font></div>'' @
    NL @ ''    <br/>'' @ NL @ ''        <div class='' @ [CHR 0x22] @ ''login'' @ [CHR 0x22] @
    ''>'' @ NL @ ''                <form action='' @ [CHR 0x22] @ ''3CGISQL.cgi'' @ [CHR 0x22] @
    '' method='' @ [CHR 0x22] @ ''post'' @ [CHR 0x22] @ ''>'' @ NL @
    ''                        <div align='' @ [CHR 0x22] @ ''center'' @ [CHR 0x22] @
    ''><input type='' @ [CHR 0x22] @ ''text'' @ [CHR 0x22] @ '' name='' @ [CHR 0x22] @ ''user'' @
    [CHR 0x22] @ '' placeholder='' @
    [CHR 0x22, CHR 0xE7, CHR 0x94, CHR 0xA8, CHR 0xE6, CHR 0x88, CHR 0xB7, CHR 0xE5, CHR 0x90,
     CHR 0x8D, CHR 0x22] @ '' required='' @ [CHR 0x22] @ ''required'' @ [CHR 0x22] @
    ''></div><br/>'' @ NL @ ''                        <div align='' @ [CHR 0x22] @ ''center'' @
    [CHR 0x22] @ ''><input type='' @ [CHR 0x22] @ ''password'' @ [CHR 0x22] @ '' name='' @
    [CHR 0x22] @ ''password'' @ [CHR 0x22] @ '' placeholder='' @
    [CHR 0x22, CHR 0xE7, CHR 0x94, CHR 0xA8, CHR 0xE6, CHR 0x88, CHR 0xB7, CHR 0xE5, CHR 0xAF,
     CHR 0x86, CHR 0xE7, CHR 0xA0, CHR 0x81, CHR 0x22] @ '' required='' @ [CHR 0x22] @
    ''required'' @ [CHR 0x22] @ ''></div><br/>'' @ NL @ ''                        <div align='' @
    [CHR 0x22] @ ''center'' @ [CHR 0x22] @ ''><button type='' @ [CHR 0x22] @ ''submit'' @
    [CHR 0x22] @ ''>'' @ [CHR 0xE6, CHR 0xB3, CHR 0xA8, CHR 0xE5, CHR 0x86, CHR 0x8C] @
    ''</button></div>'' @ NL @ ''                </form>'' @ NL @ ''        </div>'' @ NL @
    ''    </body>'' @ NL @ ''</html>''"

definition page_signin :: string where
  "page_signin =
    ''<!DOCTYPE html>'' @ NL @ ''<html>'' @ NL @ ''    <head>'' @ NL @ ''        <meta charset='' @
    [CHR 0x22] @ ''UTF-8'' @ [CHR 0x22] @ ''>'' @ NL @ ''        <title>Sign in</title>'' @ NL @
    ''    </head>'' @ NL @ ''    <body>'' @ NL @ ''<br/>'' @ NL @ ''<br/>'' @ NL @
    ''    <div align='' @ [CHR 0x22] @ ''center'' @ [CHR 0x22] @ ''><font size='' @ [CHR 0x22] @
    ''5'' @ [CHR 0x22] @ ''> <strong>'' @
    [CHR 0xE7, CHR 0x99, CHR 0xBB, CHR 0xE5, CHR 0xBD, CHR 0x95] @ ''</strong></font></div>'' @
    NL @ ''    <br/>'' @ NL @ ''        <div class='' @ [CHR 0x22] @ ''login'' @ [CHR 0x22] @
    ''>'' @ NL @ ''                <form action='' @ [CHR 0x22] @ ''2CGISQL.cgi'' @ [CHR 0x22] @
    '' method='' @ [CHR 0x22] @ ''post'' @ [CHR 0x22] @ ''>'' @ NL @
    ''                        <div align='' @ [CHR 0x22] @ ''center'' @ [CHR 0x22] @
    ''><input type='' @ [CHR 0x22] @ ''text'' @ [CHR 0x22] @ '' name='' @ [CHR 0x22] @ ''user'' @
    [CHR 0x22] @ '' placeholder='' @
    [CHR 0x22, CHR 0xE7, CHR 0x94, CHR 0xA8, CHR 0xE6, CHR 0x88, CHR 0xB7, CHR 0xE5, CHR 0x90,
     CHR 0x8D, CHR 0x22] @ '' required='' @ [CHR 0x22] @ ''required'' @ [CHR 0x22] @
    ''></div><br/>'' @ NL @ ''                        <div align='' @ [CHR 0x22] @ ''center'' @
    [CHR 0x22] @ ''><input type='' @ [CHR 0x22] @ ''password'' @ [CHR 0x22] @ '' name='' @
    [CHR 0x22] @ ''password'' @ [CHR 0x22] @ '' placeholder='' @
    [CHR 0x22, CHR 0xE7, CHR 0x99, CHR 0xBB, CHR 0xE5, CHR 0xBD, CHR 0x95, CHR 0xE5, CHR 0xAF,
     CHR 0x86, CHR 0xE7, CHR 0xA0, CHR 0x81, CHR 0x22] @ '' required='' @ [CHR 0x22] @
    ''required'' @ [CHR 0x22] @ ''></div><br/>'' @ NL @ ''                        <div align='' @
    [CHR 0x22] @ ''center'' @ [CHR 0x22] @ ''><button type='' @ [CHR 0x22] @ ''submit'' @
    [CHR 0x22] @ ''>'' @ [CHR 0xE7, CHR 0xA1, CHR 0xAE, CHR 0xE5, CHR 0xAE, CHR 0x9A] @
    ''</button></div>'' @ NL @ ''                </form>'' @ NL @ ''        </div>'' @ NL @
    ''    </body>'' @ NL @ ''</html>''"

definition page_signup_taken :: string where
  "page_signup_taken =
    ''<!DOCTYPE html>'' @ NL @ ''<html>'' @ NL @ ''    <head>'' @ NL @ ''        <meta charset='' @
    [CHR 0x22] @ ''UTF-8'' @ [CHR 0x22] @ ''>'' @ NL @ ''        <title>Sign up</title>'' @ NL @
    ''    </head>'' @ NL @ ''    <body>'' @ NL @ ''<br/>'' @ NL @ ''<br/>'' @ NL @
    ''    <div align='' @ [CHR 0x22] @ ''center'' @ [CHR 0x22] @ ''><font size='' @ [CHR 0x22] @
    ''5'' @ [CHR 0x22] @ ''> <strong>'' @
    [CHR 0xE6, CHR 0xB3, CHR 0xA8, CHR 0xE5, CHR 0x86, CHR 0x8C] @ ''</strong></font></div>'' @
    NL @ ''    <br/>'' @ NL @ ''        <div class='' @ [CHR 0x22] @ ''login'' @ [CHR 0x22] @
    ''>'' @ NL @ ''                <form action='' @ [CHR 0x22] @ ''3CGISQL.cgi'' @ [CHR 0x22] @
    '' method='' @ [CHR 0x22] @ ''post'' @ [CHR 0x22] @ ''>'' @ NL @
    ''                        <div align='' @ [CHR 0x22] @ ''center'' @ [CHR 0x22] @
    ''><input type='' @ [CHR 0x22] @ ''text'' @ [CHR 0x22] @ '' name='' @ [CHR 0x22] @ ''user'' @
    [CHR 0x22] @ '' placeholder='' @
    [CHR 0x22, CHR 0xE7, CHR 0x94, CHR 0xA8, CHR 0xE6, CHR 0x88, CHR 0xB7, CHR 0xE5, CHR 0x90,
     CHR 0x8D, CHR 0x22] @ '' required='' @ [CHR 0x22] @ ''required'' @ [CHR 0x22] @
    ''></div><br/>'' @ NL @ ''                        <div align='' @ [CHR 0x22] @ ''center'' @
    [CHR 0x22] @ ''><input type='' @ [CHR 0x22] @ ''password'' @ [CHR 0x22] @ '' name='' @
    [CHR 0x22] @ ''password'' @ [CHR 0x22] @ '' placeholder='' @
    [CHR 0x22, CHR 0xE7, CHR 0x94, CHR 0xA8, CHR 0xE6, CHR 0x88, CHR 0xB7, CHR 0xE5, CHR 0xAF,
     CHR 0x86, CHR 0xE7, CHR 0xA0, CHR 0x81, CHR 0x22] @ '' required='' @ [CHR 0x22] @
    ''required'' @ [CHR 0x22] @ ''></div><br/>'' @ NL @ ''                        <div align='' @
    [CHR 0x22] @ ''center'' @ [CHR 0x22] @ ''><button type='' @ [CHR 0x22] @ ''submit'' @
    [CHR 0x22] @ ''>'' @ [CHR 0xE6, CHR 0xB3, CHR 0xA8, CHR 0xE5, CHR 0x86, CHR 0x8C] @
    ''</button></div>'' @ NL @ ''                </form>'' @ NL @ [CHR 0x09, CHR 0x09] @
    ''<div  align='' @ [CHR 0x22] @ ''center'' @ [CHR 0x22] @ ''>'' @
    [CHR 0xE6, CHR 0x8F, CHR 0x90, CHR 0xE7, CHR 0xA4, CHR 0xBA, CHR 0xEF, CHR 0xBC, CHR 0x9A,
     CHR 0xE8, CHR 0xAF, CHR 0xA5, CHR 0xE7, CHR 0x94, CHR 0xA8, CHR 0xE6, CHR 0x88, CHR 0xB7,
     CHR 0xE5, CHR 0x90, CHR 0x8D, CHR 0xE8, CHR 0xA2, CHR 0xAB, CHR 0xE6, CHR 0xB3, CHR 0xA8,
     CHR 0xE5, CHR 0x86, CHR 0x8C] @ ''.</div>'' @ NL @ ''        </div>'' @ NL @ ''    </body>'' @
    NL @ ''</html>''"

definition page_signin_retry :: string where
  "page_signin_retry =
    ''<!DOCTYPE html>'' @ NL @ ''<html>'' @ NL @ ''    <head>'' @ NL @ ''        <meta charset='' @
    [CHR 0x22] @ ''UTF-8'' @ [CHR 0x22] @ ''>'' @ NL @ ''        <title>Sign in</title>'' @ NL @
    ''    </head>'' @ NL @ ''    <body>'' @ NL @ ''<br/>'' @ NL @ ''<br/>'' @ NL @
    ''    <div align='' @ [CHR 0x22] @ ''center'' @ [CHR 0x22] @ ''><font size='' @ [CHR 0x22] @
    ''5'' @ [CHR 0x22] @ ''> <strong>'' @
    [CHR 0xE7, CHR 0x99, CHR 0xBB, CHR 0xE5, CHR 0xBD, CHR 0x95] @ ''</strong></font></div>'' @
    NL @ ''    <br/>'' @ NL @ ''        <div class='' @ [CHR 0x22] @ ''login'' @ [CHR 0x22] @
    ''>'' @ NL @ ''                <form action='' @ [CHR 0x22] @ ''2CGISQL.cgi'' @ [CHR 0x22] @
    '' method='' @ [CHR 0x22] @ ''post'' @ [CHR 0x22] @ ''>'' @ NL @
    ''                        <div align='' @ [CHR 0x22] @ ''center'' @ [CHR 0x22] @
    ''><input type='' @ [CHR 0x22] @ ''text'' @ [CHR 0x22] @ '' name='' @ [CHR 0x22] @ ''user'' @
    [CHR 0x22] @ '' placeholder='' @
    [CHR 0x22, CHR 0xE7, CHR 0x94, CHR 0xA8, CHR 0xE6, CHR 0x88, CHR 0xB7, CHR 0xE5, CHR 0x90,
     CHR 0x8D, CHR 0x22] @ '' required='' @ [CHR 0x22] @ ''required'' @ [CHR 0x22] @
    ''></div><br/>'' @ NL @ ''                        <div align='' @ [CHR 0x22] @ ''center'' @
    [CHR 0x22] @ ''><input type='' @ [CHR 0x22] @ ''password'' @ [CHR 0x22] @ '' name='' @
    [CHR 0x22] @ ''password'' @ [CHR 0x22] @ '' placeholder='' @
    [CHR 0x22, CHR 0xE7, CHR 0x99, CHR 0xBB, CHR 0xE5, CHR 0xBD, CHR 0x95, CHR 0xE5, CHR 0xAF,
     CHR 0x86, CHR 0xE7, CHR 0xA0, CHR 0x81, CHR 0x22] @ '' required='' @ [CHR 0x22] @
    ''required'' @ [CHR 0x22] @ ''></div><br/>'' @ NL @ ''                        <div align='' @
    [CHR 0x22] @ ''center'' @ [CHR 0x22] @ ''><button type='' @ [CHR 0x22] @ ''submit'' @
    [CHR 0x22] @ ''>'' @ [CHR 0xE7, CHR 0xA1, CHR 0xAE, CHR 0xE5, CHR 0xAE, CHR 0x9A] @
    ''</button></div>'' @ NL @ ''                </form>'' @ NL @ [CHR 0x09, CHR 0x09] @
    ''<br/>'' @ NL @ ''               <div  align='' @ [CHR 0x22] @ ''center'' @ [CHR 0x22] @
    ''>'' @
    [CHR 0xE6, CHR 0x8F, CHR 0x90, CHR 0xE7, CHR 0xA4, CHR 0xBA, CHR 0xEF, CHR 0xBC, CHR 0x9A,
     CHR 0xE7, CHR 0x94, CHR 0xA8, CHR 0xE6, CHR 0x88, CHR 0xB7, CHR 0xE5, CHR 0x90, CHR 0x8D,
     CHR 0xE6, CHR 0x88, CHR 0x96, CHR 0xE5, CHR 0xAF, CHR 0x86, CHR 0xE7, CHR 0xA0, CHR 0x81,
     CHR 0xE9, CHR 0x94, CHR 0x99, CHR 0xE8, CHR 0xAF, CHR 0xAF, CHR 0xEF, CHR 0xBC, CHR 0x8C,
     CHR 0xE8, CHR 0xAF, CHR 0xB7, CHR 0xE9, CHR 0x87, CHR 0x8D, CHR 0xE8, CHR 0xAF, CHR 0x95] @
    ''</div>'' @ NL @ ''        </div>'' @ NL @ ''    </body>'' @ NL @ ''</html>''"

definition page_upload_ok :: string where
  "page_upload_ok =
    ''<!DOCTYPE html>'' @ NL @ ''<html>'' @ NL @ ''    <head>'' @ NL @ ''        <meta charset='' @
    [CHR 0x22] @ ''UTF-8'' @ [CHR 0x22] @ ''>'' @ NL @ ''        <title>WebServer</title>'' @ NL @
    ''    </head>'' @ NL @ ''    <body>'' @ NL @ ''    <br/>'' @ NL @ ''    <br/>'' @ NL @
    ''    <div align='' @ [CHR 0x22] @ ''center'' @ [CHR 0x22] @ ''><font size='' @ [CHR 0x22] @
    ''5'' @ [CHR 0x22] @ ''> <strong>'' @
    [CHR 0xE4, CHR 0xB8, CHR 0x8A, CHR 0xE4, CHR 0xBC, CHR 0xA0, CHR 0xE6, CHR 0x88, CHR 0x90,
     CHR 0xE5, CHR 0x8A, CHR 0x9F] @ ''</strong></font></div>'' @ NL @ [CHR 0x09] @ ''<br/>'' @
    NL @ [CHR 0x09, CHR 0x09] @ ''<br/>'' @ NL @ [CHR 0x09, CHR 0x09] @ NL @ ''        </div>'' @
    NL @ ''    </body>'' @ NL @ ''</html>''"

definition page_delete_ok :: string where
  "page_delete_ok =
    ''<!DOCTYPE html>'' @ NL @ ''<html>'' @ NL @ ''    <head>'' @ NL @ ''        <meta charset='' @
    [CHR 0x22] @ ''UTF-8'' @ [CHR 0x22] @ ''>'' @ NL @ ''        <title>WebServer</title>'' @ NL @
    ''    </head>'' @ NL @ ''    <body>'' @ NL @ ''    <br/>'' @ NL @ ''    <br/>'' @ NL @
    ''    <div align='' @ [CHR 0x22] @ ''center'' @ [CHR 0x22] @ ''><font size='' @ [CHR 0x22] @
    ''5'' @ [CHR 0x22] @ ''> <strong>'' @
    [CHR 0xE5, CHR 0x88, CHR 0xA0, CHR 0xE9, CHR 0x99, CHR 0xA4, CHR 0xE6, CHR 0x88, CHR 0x90,
     CHR 0xE5, CHR 0x8A, CHR 0x9F] @ ''</strong></font></div>'' @ NL @ [CHR 0x09] @ ''<br/>'' @
    NL @ [CHR 0x09, CHR 0x09] @ ''<br/>'' @ NL @ [CHR 0x09, CHR 0x09] @ NL @ ''        </div>'' @
    NL @ ''    </body>'' @ NL @ ''</html>''"

definition favicon :: string where
  "favicon =
    [CHR 0x89, CHR 0x50, CHR 0x4E, CHR 0x47, CHR 0x0D, CHR 0x0A, CHR 0x1A, CHR 0x0A, CHR 0x00,
     CHR 0x00, CHR 0x00, CHR 0x0D, CHR 0x49, CHR 0x48, CHR 0x44, CHR 0x52, CHR 0x00, CHR 0x00,
     CHR 0x00, CHR 0x10, CHR 0x00, CHR 0x00, CHR 0x00, CHR 0x10, CHR 0x08, CHR 0x06, CHR 0x00,
     CHR 0x00, CHR 0x00, CHR 0x1F, CHR 0xF3, CHR 0xFF, CHR 0x61, CHR 0x00, CHR 0x00, CHR 0x00,
     CHR 0x19, CHR 0x74, CHR 0x45, CHR 0x58, CHR 0x74, CHR 0x53, CHR 0x6F, CHR 0x66, CHR 0x74,
     CHR 0x77, CHR 0x61, CHR 0x72, CHR 0x65, CHR 0x00, CHR 0x41, CHR 0x64, CHR 0x6F, CHR 0x62,
     CHR 0x65, CHR 0x20, CHR 0x49, CHR 0x6D, CHR 0x61, CHR 0x67, CHR 0x65, CHR 0x52, CHR 0x65,
     CHR 0x61, CHR 0x64, CHR 0x79, CHR 0x71, CHR 0xC9, CHR 0x65, CHR 0x3C, CHR 0x00, CHR 0x00,
     CHR 0x01, CHR 0xCD, CHR 0x49, CHR 0x44, CHR 0x41, CHR 0x54, CHR 0x78, CHR 0xDA, CHR 0x94,
     CHR 0x93, CHR 0x39, CHR 0x48, CHR 0x03, CHR 0x41, CHR 0x14, CHR 0x86, CHR 0xFF, CHR 0x5D,
     CHR 0x62, CHR 0xA7, CHR 0x04, CHR 0x52, CHR 0xC4, CHR 0x6D, CHR 0x22, CHR 0x1E, CHR 0xA0,
     CHR 0x46, CHR 0x24, CHR 0x08, CHR 0x16, CHR 0x16, CHR 0x76, CHR 0x0A, CHR 0x36, CHR 0xBA,
     CHR 0x4A, CHR 0x9A, CHR 0x80, CHR 0x08, CHR 0x41, CHR 0xB4, CHR 0x71, CHR 0x85, CHR 0x58,
     CHR 0x89, CHR 0x47, CHR 0xB0, CHR 0x49, CHR 0xA9, CHR 0x51, CHR 0x24, CHR 0xCD, CHR 0xA6,
     CHR 0x08, CHR 0xA4, CHR 0x48, CHR 0x63, CHR 0x91, CHR 0x42, CHR 0x0B, CHR 0xAF, CHR 0x56,
     CHR 0xC1, CHR 0x46, CHR 0xB4, CHR 0x15, CHR 0xCF, CHR 0x22, CHR 0x58, CHR 0x98, CHR 0x0B,
     CHR 0x54, CHR 0x48, CHR 0x8A, CHR 0x64, CHR 0x93, CHR 0x8D, CHR 0xFB, CHR 0x46, CHR 0x67,
     CHR 0xC9, CHR 0x1A, CHR 0x14, CHR 0x7D, CHR 0xF0, CHR 0x66, CHR 0x76, CHR 0x66, CHR 0xDF,
     CHR 0x7C, CHR 0xEF, CHR 0xE7, CHR 0x67, CHR 0x46, CHR 0xA8, CHR 0xD5, CHR 0x6A, CHR 0x48,
     CHR 0x24, CHR 0x12, CHR 0x2A, CHR 0x00, CHR 0x05, CHR 0xBF, CHR 0x47, CHR 0xD4, CHR 0xEF,
     CHR 0xF7, CHR 0x2F, CHR 0x36, CHR 0xEC, CHR 0x12, CHR 0x20, CHR 0x1E, CHR 0x8F, CHR 0xD7,
     CHR 0xAA, CHR 0xD5, CHR 0xEA, CHR 0xAF, CHR 0x49, CHR 0x35, CHR 0x46, CHR 0xAA, CHR 0x54,
     CHR 0x5F, CHR 0x9F, CHR 0x22, CHR 0x41, CHR 0x2A, CHR 0x95, CHR 0x0A, CHR 0x83, CHR 0xE5,
     CHR 0x72, CHR 0x39, CHR 0x64, CHR 0xB3, CHR 0x59, CHR 0x96, CHR 0x99, CHR 0x4C, CHR 0x06,
     CHR 0xE9, CHR 0x74, CHR 0x9A, CHR 0x25, CHR 0x85, CHR 0x2C, CHR 0xCB, CHR 0x54, CHR 0xA7,
     CHR 0xC4, CHR 0x62, CHR 0x31, CHR 0xB5, CHR 0x5E, CHR 0x00, CHR 0x03, CHR 0x68, CHR 0x9A,
     CHR 0xC6, CHR 0x16, CHR 0x82, CHR 0x20, CHR 0x58, CHR 0x52, CHR 0x14, CHR 0x45, CHR 0x36,
     CHR 0x53, CHR 0x94, CHR 0xCB, CHR 0x65, CHR 0x78, CHR 0xBD, CHR 0x5E, CHR 0xAA, CHR 0x55,
     CHR 0x54, CHR 0x23, CHR 0x4C, CHR 0xC0, CHR 0xE0, CHR 0xE2, CHR 0xC1, CHR 0x8F, CHR 0x00,
     CHR 0x9E, CHR 0xBC, CHR 0x09, CHR 0x41, CHR 0x7C, CHR 0x3E, CHR 0x1F, CHR 0x83, CHR 0x44,
     CHR 0x22, CHR 0x11, CHR 0xD5, CHR 0x54, CHR 0x40, CHR 0x3F, CHR 0x38, CHR 0x80, CHR 0x77,
     CHR 0xE5, CHR 0x33, CHR 0x07, CHR 0xB8, CHR 0x5C, CHR 0x2E, CHR 0x48, CHR 0x92, CHR 0x04,
     CHR 0x87, CHR 0xC3, CHR 0x81, CHR 0x40, CHR 0x20, CHR 0x40, CHR 0x67, CHR 0x98, CHR 0xE9,
     CHR 0x36, CHR 0x1A, CHR 0xA6, CHR 0x67, CHR 0x15, CHR 0x04, CHR 0xE3, CHR 0xD7, CHR 0xC8,
     CHR 0xBD, CHR 0x15, CHR 0xE1, CHR 0x69, CHR 0xB7, CHR 0x43, CHR 0xAB, CHR 0xEA, CHR 0x78,
     CHR 0x2F, CHR 0x6A, CHR 0x58, CHR 0x92, CHR 0xBB, CHR 0x18, CHR 0x20, CHR 0x9F, CHR 0xCF,
     CHR 0x33, CHR 0xC3, CHR 0xB8, CHR 0xE9, CHR 0x4E, CHR 0xA7, CHR 0xD3, CHR 0x6C, CHR 0x4A,
     CHR 0x00, CHR 0x69, CHR 0x36, CHR 0x7C, CHR 0x8E, CHR 0xE1, CHR 0xFE, CHR 0x56, CHR 0x84,
     CHR 0xE7, CHR 0x3C, CHR 0x9F, CHR 0x72, CHR 0x2B, CHR 0x3A, CHR 0x42, CHR 0x7B, CHR 0x37,
     CHR 0x66, CHR 0x77, CHR 0xAE, CHR 0x8E, CHR 0x0E, CHR 0xF3, CHR 0xBD, CHR 0x52, CHR 0xA9,
     CHR 0x64, CHR 0x02, CHR 0x42, CHR 0xAF, CHR 0x85, CHR 0x32, CHR 0x66, CHR 0x46, CHR 0xBA,
     CHR 0x0C, CHR 0xD9, CHR 0x9F, CHR 0x1D, CHR 0x9A, CHR 0x6C, CHR 0x22, CHR 0xE6, CHR 0xC7,
     CHR 0x3A, CHR 0x2C, CHR 0x80, CHR 0xEF, CHR 0xC1, CHR 0x15, CHR 0x90, CHR 0x07, CHR 0x93,
     CHR 0xA2, CHR 0x28, CHR 0xA0, CHR 0x53, CHR 0x6A, CHR 0xB1, CHR 0xB8, CHR 0xDF, CHR 0x29,
     CHR 0x35, CHR 0x43, CHR 0x0E, CHR 0x3F, CHR 0x58, CHR 0xFC, CHR 0x98, CHR 0xDA, CHR 0x79,
     CHR 0x6A, CHR 0x50, CHR 0x40, CHR 0x00, CHR 0x87, CHR 0xAE, CHR 0x1B, CHR 0x17, CHR 0x42,
     CHR 0xB4, CHR 0x3A, CHR 0x3F, CHR 0xBE, CHR 0x79, CHR 0xC7, CHR 0x0A, CHR 0x26, CHR 0xB6,
     CHR 0xEE, CHR 0xD9, CHR 0x9A, CHR 0x60, CHR 0x14, CHR 0x93, CHR 0xDB, CHR 0x8F, CHR 0x0D,
     CHR 0x0A, CHR 0x2E, CHR 0xE9, CHR 0x23, CHR 0x95, CHR 0x29, CHR 0x58, CHR 0x00, CHR 0x27,
     CHR 0xEB, CHR 0x6E, CHR 0x56, CHR 0x70, CHR 0xBC, CHR 0xD6, CHR 0xCB, CHR 0xD6, CHR 0x47,
     CHR 0xAB, CHR 0x3D, CHR 0x6C, CHR 0x7D, CHR 0xB8, CHR 0xD2, CHR 0xDD, CHR 0xA0, CHR 0x60,
     CHR 0x83, CHR 0xBA, CHR 0xEF, CHR 0x5F, CHR 0xA4, CHR 0xEA, CHR 0xCC, CHR 0x02, CHR 0x4E,
     CHR 0xAE, CHR 0x5E, CHR 0x70, CHR 0x1A, CHR 0xEC, CHR 0xB3, CHR 0x40, CHR 0x39, CHR 0xAC,
     CHR 0xFE, CHR 0xF2, CHR 0x91, CHR 0x89, CHR 0x67, CHR 0x91, CHR 0x85, CHR 0x21, CHR 0xA8,
     CHR 0x87, CHR 0xB7, CHR 0x58, CHR 0x7E, CHR 0x7E, CHR 0x85, CHR 0xBB, CHR 0xCD, CHR 0x4E,
     CHR 0x4E, CHR 0x62, CHR 0x74, CHR 0x40, CHR 0xFA, CHR 0x93, CHR 0x89, CHR 0xEC, CHR 0x1E,
     CHR 0xEC, CHR 0x86, CHR 0x02, CHR 0x48, CHR 0x26, CHR 0x93, CHR 0xD0, CHR 0x75, CHR 0x1D,
     CHR 0x7F, CHR 0x09, CHR 0x32, CHR 0x95, CHR 0xBF, CHR 0x1F, CHR 0xDB, CHR 0xD7, CHR 0x63,
     CHR 0x8A, CHR 0x1A, CHR 0xF7, CHR 0x5C, CHR 0xC1, CHR 0xFF, CHR 0x22, CHR 0x4A, CHR 0xC3,
     CHR 0x87, CHR 0x00, CHR 0x03, CHR 0x00, CHR 0x4B, CHR 0xBB, CHR 0xF8, CHR 0xD6, CHR 0x2A,
     CHR 0x76, CHR 0x98, CHR 0x49, CHR 0x00, CHR 0x00, CHR 0x00, CHR 0x00, CHR 0x49, CHR 0x45,
     CHR 0x4E, CHR 0x44, CHR 0xAE, CHR 0x42, CHR 0x60, CHR 0x82]"

lemma length_favicon: "length favicon = 555"
  unfolding favicon_def by simp

end
