(* ===== verification/File_Server.thy ===== *)
theory File_Server
  imports Http_Response Tcp_Connection Html_Pages
begin

text \<open>
  \<open>src/src/http/FileServer.h\<close> and \<open>FileServer.cc\<close>: the request handler. The operating system and
  the database are a record of functions over an abstract world: they are not code of the
  repository. Everything the handler itself computes is here: the choice of the branch, the paths
  it builds, the range arithmetic, the fixed-size buffers it copies into. Messages to
  \<open>std::cout\<close> are left out, the evaluation of what they print is not.
\<close>

section \<open>The outside world\<close>

datatype fkind = Directory | Regular | OtherKind

text \<open>
  \<open>os_stat\<close> gives the kind and size of a path; \<open>os_open\<close> a descriptor or \<open>-1\<close>; \<open>os_readdir\<close> the names
  a directory stream yields, \<open>None\<close> when it cannot be opened; \<open>os_write\<close> creates or truncates a
  file and writes it; \<open>os_template\<close> is the content of \<open>html/filelist.html\<close>, empty when it cannot
  be opened; \<open>db_update\<close> is \<open>MysqlConn::update\<close>.
\<close>

record 'w os =
  os_stat :: "string \<Rightarrow> 'w \<Rightarrow> (fkind \<times> int) option"
  os_open :: "string \<Rightarrow> 'w \<Rightarrow> int \<times> 'w"
  os_lseek :: "int \<Rightarrow> int \<Rightarrow> 'w \<Rightarrow> 'w"
  os_readdir :: "string \<Rightarrow> 'w \<Rightarrow> string list option"
  os_write :: "string \<Rightarrow> string \<Rightarrow> 'w \<Rightarrow> 'w"
  os_remove :: "string \<Rightarrow> 'w \<Rightarrow> 'w"
  os_template :: "'w \<Rightarrow> string"
  db_update :: "string \<Rightarrow> 'w \<Rightarrow> bool \<times> 'w"

record FileServer =
  workPath :: string
  users :: "string \<rightharpoonup> string"

type_synonym 'w handled = "(FileServer \<times> HttpResponse \<times> 'w) result"

section \<open>Helpers\<close>

text \<open>\<open>s[i]\<close> on a \<open>std::string\<close>: the position after the last character reads as NUL.\<close>

definition str_at :: "string \<Rightarrow> nat \<Rightarrow> char result" where
  "str_at s i = (if i < length s then Inr (s ! i) else if i = length s then Inr (CHR 0x00) else Inl OutOfBounds)"

text \<open>The rows of the table \<open>login\<close>; a failed query gives a null result set that is then read.\<close>

definition sql_pool :: "(string \<times> string) list option \<Rightarrow> FileServer \<Rightarrow> FileServer result" where
  "sql_pool rows fs =
     (case rows of
        None \<Rightarrow> Inl NullPointer
      | Some rs \<Rightarrow> Inr (fs\<lparr>users := foldl (\<lambda>m (u, pw). m(c_str u \<mapsto> c_str pw)) (users fs) rs\<rparr>))"

definition mime_table :: "(string \<times> string) list" where
  "mime_table =
     [(''.html'', ''text/html;charset=utf-8''), (''.avi'', ''video/avi''), (''.flv'', ''video/flv''),
      (''.mp4'', ''video/mp4''), (''.bmp'', ''image/bmp''), (''.doc'', ''application/msword''),
      (''.gif'', ''image/gif''), (''.gz'', ''application/x-gzip''), (''.htm'', ''text/html;charset=utf-8''),
      (''.ico'', ''image/x-icon''), (''.jpg'', ''image/jpeg''), (''.png'', ''image/png''),
      (''.txt'', ''text/plain;charset=utf-8''), (''.mp3'', ''audio/mp3''),
      (''.cc'', ''text/plain;charset=utf-8''), (''.hpp'', ''text/plain;charset=utf-8''),
      (''.h'', ''text/plain;charset=utf-8''), (''.cpp'', ''text/plain;charset=utf-8''),
      (''.c'', ''text/plain;charset=utf-8''), (''.sh'', ''text/plain;charset=utf-8''),
      (''.py'', ''text/plain;charset=utf-8''), (''.md'', ''text/plain;charset=utf-8''),
      (''default'', ''text/html;charset=utf-8'')]"

definition getMime :: "string \<Rightarrow> string" where
  "getMime suffix = (case map_of mime_table suffix of
     None \<Rightarrow> the (map_of mime_table ''default'') | Some t \<Rightarrow> t)"

text \<open>The suffix of a request path: from its last dot on, empty without one.\<close>

definition path_suffix :: "string \<Rightarrow> string" where
  "path_suffix p = (case find_last_of p (CHR ''.'') of None \<Rightarrow> [] | Some i \<Rightarrow> drop i p)"

text \<open>\<open>path[0] == '.' ? path.substr(1) : path\<close>.\<close>

definition show_path :: "string \<Rightarrow> string" where
  "show_path p = (if p \<noteq> [] \<and> hd p = CHR ''.'' then tl p else p)"

text \<open>
  \<open>scanDir\<close> builds each full name in \<open>char fullname[100]\<close> with \<open>strcpy\<close>. \<open>pre\<close> is the prefix in
  \<open>fullname\<close>, \<open>st\<close> the last result of \<open>stat\<close> (a failing call leaves the structure as it was).
\<close>

definition fullname_size :: nat where "fullname_size = 100"

definition list_item :: "fkind \<Rightarrow> string \<Rightarrow> string" where
  "list_item k name =
     take 599 (if k = Directory
               then ''<li><a href='' @ [CHR 0x22] @ name @ ''/'' @ [CHR 0x22] @ ''>'' @ name @ ''/</a></li>''
               else ''<li><a href='' @ [CHR 0x22] @ name @ [CHR 0x22] @ ''>'' @ name @ ''</a></li>'')"

fun scan_entries :: "'w os \<Rightarrow> 'w \<Rightarrow> string \<Rightarrow> fkind option \<Rightarrow> string list \<Rightarrow> string result" where
  "scan_entries sys w pre st [] = Inr []"
| "scan_entries sys w pre st (d # ds) =
     (if d = ''.'' \<or> d = ''..'' then scan_entries sys w pre st ds
      else if length pre + length d + 1 > fullname_size then Inl OutOfBounds
      else let st' = (case os_stat sys (pre @ d) w of Some (k, _) \<Rightarrow> Some k | None \<Rightarrow> st) in
           case st' of None \<Rightarrow> Inl Undefined
           | Some k \<Rightarrow> bind_r (scan_entries sys w pre st' ds) (\<lambda>r. Inr (list_item k d @ NL @ r)))"

definition scanDir :: "'w os \<Rightarrow> 'w \<Rightarrow> string \<Rightarrow> string result" where
  "scanDir sys w path =
     (let n = length path in
      if n = 0 \<or> length (c_str path) + 1 > fullname_size then Inl OutOfBounds
      else if CHR 0x00 \<in> set path then Inl Undefined
      else let slash = (path ! (n - 1) \<noteq> CHR ''/'') in
      if slash \<and> n + 1 \<ge> fullname_size then Inl OutOfBounds
      else (case os_readdir sys path w of
          None \<Rightarrow> Inr []
        | Some ds \<Rightarrow> scan_entries sys w (path @ (if slash then ''/'' else [])) None ds))"

text \<open>\<open>getFileVec\<close> does not test the directory stream.\<close>

definition getFileVec :: "'w os \<Rightarrow> 'w \<Rightarrow> string \<Rightarrow> string list result" where
  "getFileVec sys w dirName =
     (case os_readdir sys (c_str dirName) w of
        None \<Rightarrow> Inl NullPointer
      | Some ds \<Rightarrow> Inr (filter (\<lambda>d. d \<noteq> ''.'' \<and> d \<noteq> ''..'') ds))"

text \<open>The lines \<open>getline\<close> yields.\<close>

fun getlines :: "string \<Rightarrow> string list" where
  "getlines [] = []"
| "getlines (c # cs) =
     (if c = CHR 0x0A then [] # getlines cs
      else (case getlines cs of [] \<Rightarrow> [[c]] | l # ls \<Rightarrow> (c # l) # ls))"

definition filelist_label :: string where "filelist_label = ''<!--filelist_label-->''"

definition file_row_full :: "string \<Rightarrow> string \<Rightarrow> string" where
  "file_row_full m_url filename =
     ''            <tr><td class='' @ [CHR 0x22] @ ''col1'' @ [CHR 0x22] @ ''><a href='' @ m_url @ ''/'' @ filename @
     ''>'' @ filename @ ''</a></td> <td class='' @ [CHR 0x22] @ ''col2'' @ [CHR 0x22] @ ''><a href='' @ [CHR 0x22] @
     ''download'' @ m_url @ ''/'' @ filename @ [CHR 0x22] @ ''>'' @
     [CHR 0xE4, CHR 0xB8, CHR 0x8B, CHR 0xE8, CHR 0xBD, CHR 0xBD] @
     ''</a></td> <td class='' @ [CHR 0x22] @ ''col3'' @ [CHR 0x22] @ ''><a href='' @ [CHR 0x22] @ ''delete'' @ m_url @
     ''/'' @ filename @ [CHR 0x22] @ '' onclick='' @ [CHR 0x22] @ ''return confirmDelete();'' @ [CHR 0x22] @ ''>'' @
     [CHR 0xE5, CHR 0x88, CHR 0xA0, CHR 0xE9, CHR 0x99, CHR 0xA4] @ ''</a></td></tr>'' @ NL"

definition file_row_short :: "string \<Rightarrow> string" where
  "file_row_short filename =
     ''            <tr><td class='' @ [CHR 0x22] @ ''col1'' @ [CHR 0x22] @ ''><a href='' @ filename @ ''>'' @ filename @
     ''</a></td> <td class='' @ [CHR 0x22] @ ''col2'' @ [CHR 0x22] @ ''></td> <td class='' @ [CHR 0x22] @ ''col3'' @
     [CHR 0x22] @ ''></td></tr>'' @ NL"

text \<open>
  The page is the template with the rows in place of the label line. The first loop of the code
  only ends at the label: without one it appends for ever.
\<close>

definition fill_template :: "string \<Rightarrow> string list \<Rightarrow> string result" where
  "fill_template tmpl rows =
     (let ls = getlines tmpl in
      if filelist_label \<notin> set ls then Inl Diverges
      else Inr (concat (map (\<lambda>l. l @ NL) (takeWhile (\<lambda>l. l \<noteq> filelist_label) ls)) @ concat rows @
                concat (map (\<lambda>l. l @ NL) (tl (dropWhile (\<lambda>l. l \<noteq> filelist_label) ls)))))"

definition getFileListPage_url :: "'w os \<Rightarrow> 'w \<Rightarrow> string \<Rightarrow> string \<Rightarrow> string result" where
  "getFileListPage_url sys w dir m_url =
     bind_r (getFileVec sys w dir) (\<lambda>fileVec. fill_template (os_template sys w) (map (file_row_full m_url) fileVec))"

definition getFileListPage :: "'w os \<Rightarrow> 'w \<Rightarrow> string \<Rightarrow> string result" where
  "getFileListPage sys w dir =
     bind_r (getFileVec sys w dir) (\<lambda>fileVec. fill_template (os_template sys w) (map file_row_short fileVec))"

text \<open>A page with status 200 and no status message.\<close>

definition html_page :: "string \<Rightarrow> HttpResponse \<Rightarrow> HttpResponse" where
  "html_page html res = setBody html (setContentType ''text/html;charset=utf-8'' (setStatusCode k200Ok res))"

definition not_found_page :: "string \<Rightarrow> HttpResponse \<Rightarrow> HttpResponse" where
  "not_found_page msg res =
     setBody (get404Html msg) (setContentType ''text/html;charset=utf-8'' (setStatusCode k404NotFound res))"

section \<open>The branches of \<open>setResponseBody\<close>\<close>

definition respond_directory :: "'w os \<Rightarrow> string \<Rightarrow> string \<Rightarrow> FileServer \<Rightarrow> HttpResponse \<Rightarrow> 'w \<Rightarrow> 'w handled" where
  "respond_directory sys path m_url fs res w =
     (if length (c_str m_url) = 1 then Inr (fs, html_page page_welcome res, w)
      else bind_r (scanDir sys w path) (\<lambda>_.
           bind_r (getFileListPage_url sys w (show_path path) m_url) (\<lambda>html.
             Inr (fs, html_page html res, w))))"

text \<open>The values of a \<open>Range\<close> header for a file of \<open>len\<close> bytes: first byte and length.\<close>

definition parse_range :: "string \<Rightarrow> int \<Rightarrow> (int \<times> int) result" where
  "parse_range rng len =
     bind_r (substr_from rng 6) (\<lambda>range_value.
       let pos = str_find range_value ''-'';
           beg = (case pos of None \<Rightarrow> range_value | Some i \<Rightarrow> take i range_value);
           en = (case pos of None \<Rightarrow> range_value | Some i \<Rightarrow> drop (i + 1) range_value)
       in bind_r (if beg \<noteq> [] \<and> en \<noteq> [] then bind_r (stoi beg) (\<lambda>b. bind_r (stoi en) (\<lambda>e. Inr (b, e)))
                  else if beg \<noteq> [] \<and> en = [] then bind_r (stoi beg) (\<lambda>b. Inr (b, len - 1))
                  else if beg = [] \<and> en \<noteq> [] then bind_r (stoi en) (\<lambda>e. Inr (len - e, len - 1))
                  else Inr (0, 0))
            (\<lambda>(beg_num, end_num). Inr (beg_num, end_num - beg_num + 1)))"

definition respond_regular ::
  "'w os \<Rightarrow> string \<Rightarrow> int \<Rightarrow> HttpRequest \<Rightarrow> FileServer \<Rightarrow> HttpResponse \<Rightarrow> 'w \<Rightarrow> 'w handled" where
  "respond_regular sys path len req fs res w =
     (let (fd, w1) = os_open sys path w;
          res1 = addHeader_rs ''Accept-Ranges'' ''bytes''
                   (setContentType (getMime (path_suffix (rq_path req))) (setFd fd res));
          rng = getHeader ''Range'' req
      in if rng \<noteq> []
         then bind_r (parse_range rng len) (\<lambda>(beg_num, need_len).
           let end_num = beg_num + need_len - 1;
               res2 = setSendLen (to_int32 need_len)
                        (setStatusMessage ''Partial Content'' (setStatusCode k206Partitial res1));
               res3 = addHeader_rs ''Content-Range''
                        (''bytes '' @ show_int beg_num @ ''-'' @ show_int end_num @ ''/'' @ show_int len) res2;
               res4 = addHeader_rs ''Content-Length'' (show_int need_len) res3
           in Inr (fs, res4, os_lseek sys fd beg_num w1))
         else Inr (fs, addHeader_rs ''Content-Length'' (show_int len) (setSendLen len
                         (setStatusMessage ''OK'' (setStatusCode k200Ok res1))), w1))"

text \<open>
  The copy of a form field into \<open>char name[100]\<close> (or \<open>password[100]\<close>): from position \<open>i\<close> of the body
  up to the stop character, \<open>k\<close> bytes stored so far. Neither index is checked.
\<close>

definition field_size :: nat where "field_size = 100"

function copy_field :: "char \<Rightarrow> string \<Rightarrow> nat \<Rightarrow> nat \<Rightarrow> (string \<times> nat) result" where
  "copy_field stop s i k =
     (if i > length s \<or> k \<ge> field_size then Inl OutOfBounds
      else let c = (if i = length s then CHR 0x00 else s ! i) in
        if c = stop then Inr ([], i)
        else bind_r (copy_field stop s (i + 1) (k + 1)) (\<lambda>(cs, j). Inr (c # cs, j)))"
  by pat_completeness auto
termination by (relation "measure (\<lambda>(stop, s, i, k). length s + 1 - i)") auto

declare copy_field.simps [simp del]

definition parse_form :: "string \<Rightarrow> (string \<times> string) result" where
  "parse_form body =
     bind_r (copy_field (CHR ''&'') body 5 0) (\<lambda>(name, i).
     bind_r (copy_field (CHR 0x00) body (i + 10) 0) (\<lambda>(password, j).
       Inr (c_str name, password)))"

definition sql_buffer_size :: nat where "sql_buffer_size = 200"

definition sql_insert :: "string \<Rightarrow> string \<Rightarrow> string" where
  "sql_insert name password =
     ''INSERT INTO login(user, password) VALUES('' @ [CHR 0x27] @ name @ [CHR 0x27] @ '', '' @ [CHR 0x27] @
     password @ [CHR 0x27] @ '')''"

text \<open>Registration: the statement is assembled in 200 bytes; \<open>users.insert\<close> keeps an existing entry.\<close>

definition respond_register ::
  "'w os \<Rightarrow> string \<Rightarrow> string \<Rightarrow> FileServer \<Rightarrow> HttpResponse \<Rightarrow> 'w \<Rightarrow> 'w handled" where
  "respond_register sys name password fs res w =
     (if length (sql_insert name password) + 1 > sql_buffer_size then Inl OutOfBounds
      else let (ins, w1) = db_update sys (sql_insert name password) w;
               fs1 = (if users fs name = None then fs\<lparr>users := (users fs)(name \<mapsto> password)\<rparr> else fs)
           in Inr (fs1, html_page (if ins then page_signin else page_signup_taken) res, w1))"

definition respond_login ::
  "'w os \<Rightarrow> string \<Rightarrow> string \<Rightarrow> FileServer \<Rightarrow> HttpResponse \<Rightarrow> 'w \<Rightarrow> 'w handled" where
  "respond_login sys name password fs res w =
     (if users fs name = Some password
      then bind_r (getFileListPage sys w (workPath fs)) (\<lambda>html. Inr (fs, html_page html res, w))
      else Inr (fs, html_page page_signin_retry res, w))"

definition respond_form ::
  "'w os \<Rightarrow> char \<Rightarrow> HttpRequest \<Rightarrow> FileServer \<Rightarrow> HttpResponse \<Rightarrow> 'w \<Rightarrow> 'w handled" where
  "respond_form sys kind req fs res w =
     bind_r (parse_form (m_string req)) (\<lambda>(name, password).
       if kind = CHR ''3'' then respond_register sys name password fs res w
       else respond_login sys name password fs res w)"

text \<open>The path in front of the keyword (the whole path when the keyword is missing).\<close>

definition before_keyword :: "string \<Rightarrow> string \<Rightarrow> string" where
  "before_keyword path key = (case str_find path key of None \<Rightarrow> path | Some i \<Rightarrow> take i path)"

text \<open>When \<open>stat\<close> fails the size that is sent is an uninitialised value.\<close>

definition respond_download ::
  "'w os \<Rightarrow> string \<Rightarrow> string \<Rightarrow> HttpRequest \<Rightarrow> FileServer \<Rightarrow> HttpResponse \<Rightarrow> 'w \<Rightarrow> 'w handled" where
  "respond_download sys path m_url req fs res w =
     bind_r (substr_from m_url 10) (\<lambda>dl_url.
       let download_path = before_keyword path ''download'' @ dl_url in
       case os_stat sys (c_str download_path) w of
         None \<Rightarrow> Inl Undefined
       | Some (k, len) \<Rightarrow>
           let (fd, w1) = os_open sys (c_str download_path) w;
               f_name = (case find_last_of download_path (CHR ''/'') of None \<Rightarrow> download_path
                         | Some i \<Rightarrow> drop (i + 1) download_path);
               res1 = setDisposition f_name (addHeader_rs ''Accept-Ranges'' ''bytes''
                        (setContentType (getMime (path_suffix (rq_path req))) (setFd fd res)))
           in Inr (fs, addHeader_rs ''Content-Length'' (show_int len) (setSendLen len
                         (setStatusMessage ''OK'' (setStatusCode k200Ok res1))), w1))"

definition respond_upload ::
  "'w os \<Rightarrow> string \<Rightarrow> string \<Rightarrow> HttpRequest \<Rightarrow> FileServer \<Rightarrow> HttpResponse \<Rightarrow> 'w \<Rightarrow> 'w handled" where
  "respond_upload sys path m_url req fs res w =
     (let content = before_keyword (m_string req) ''-----------------'';
          disposition = getHeader ''Content-Disposition'' req;
          f_url = before_keyword path m_url;
          n = (case str_find disposition ''filename='' of None \<Rightarrow> 9 | Some i \<Rightarrow> i + 10)
      in bind_r (substr_from disposition n) (\<lambda>quoted.
           let f_name = take (length quoted - 1) quoted;
               content_type = getHeader ''Content-Type'' req;
               path_u = f_url @ (if content_type = ''image/jpeg'' \<or> content_type = ''image/png''
                                 then ''/img/'' else ''/text/'');
               w1 = os_write sys (c_str (path_u @ f_name)) content w
           in bind_r (scanDir sys w1 path_u) (\<lambda>_. Inr (fs, html_page page_upload_ok res, w1))))"

definition respond_delete ::
  "'w os \<Rightarrow> string \<Rightarrow> string \<Rightarrow> FileServer \<Rightarrow> HttpResponse \<Rightarrow> 'w \<Rightarrow> 'w handled" where
  "respond_delete sys path m_url fs res w =
     bind_r (substr_from m_url 8) (\<lambda>dl_url.
       let download_path = before_keyword path ''delete'' @ dl_url;
           w1 = os_remove sys (c_str download_path) w;
           path_d = (case find_last_of download_path (CHR ''/'') of None \<Rightarrow> []
                     | Some i \<Rightarrow> take (i + 1) download_path)
       in bind_r (scanDir sys w1 path_d) (\<lambda>_. Inr (fs, html_page page_delete_ok res, w1)))"

definition setResponseBody ::
  "'w os \<Rightarrow> HttpRequest \<Rightarrow> FileServer \<Rightarrow> HttpResponse \<Rightarrow> 'w \<Rightarrow> 'w handled" where
  "setResponseBody sys req fs res w =
     (let path = workPath fs @ rq_path req; m_url = rq_path req in
      case os_stat sys (c_str path) w of
        Some (Directory, _) \<Rightarrow> respond_directory sys path m_url fs res w
      | Some (Regular, sz) \<Rightarrow> respond_regular sys (c_str path) sz req fs res w
      | Some (OtherKind, _) \<Rightarrow> Inr (fs, not_found_page ''This is not a regular file.'' res, w)
      | None \<Rightarrow>
          bind_r (str_at m_url 1) (\<lambda>c1.
            if c1 = CHR ''0'' then Inr (fs, html_page page_signup res, w)
            else if c1 = CHR ''1'' then Inr (fs, html_page page_signin res, w)
            else if c1 = CHR ''2'' \<or> c1 = CHR ''3'' then respond_form sys c1 req fs res w
            else if c1 = CHR ''d'' \<and> m_url ! 2 = CHR ''o'' \<and> 2 < length m_url
                 then respond_download sys path m_url req fs res w
            else if c1 = CHR ''u'' then respond_upload sys path m_url req fs res w
            else if c1 = CHR ''d'' \<and> m_url ! 2 = CHR ''e'' \<and> 2 < length m_url
                 then respond_delete sys path m_url fs res w
            else Inr (fs, not_found_page ''File not found.'' res, w)))"

section \<open>The callbacks of the server\<close>

text \<open>The state a connection's callback works on; the parser context lives in the connection.\<close>

record 'w serving =
  sv_fs :: FileServer
  sv_ctx :: HttpContext
  sv_conn :: TcpConnection
  sv_poller :: Poller
  sv_effects :: "tc_effect list"
  sv_world :: 'w

text \<open>Calls on the connection, in the loop's thread, as updates of that state.\<close>

definition conn_do :: "(TcpConnection \<Rightarrow> Poller \<Rightarrow> (conn_functor list \<times> TcpConnection \<times> Poller \<times> tc_effect list) result)
    \<Rightarrow> 'w serving \<Rightarrow> 'w serving result" where
  "conn_do f s = bind_r (f (sv_conn s) (sv_poller s)) (\<lambda>(fs, c, p, es).
     Inr (s\<lparr>sv_conn := c, sv_poller := p, sv_effects := sv_effects s @ es\<rparr>))"

definition onConnection :: "'w serving \<Rightarrow> 'w serving" where
  "onConnection s = (if connected (sv_conn s) then s\<lparr>sv_ctx := new_HttpContext\<rparr> else s)"

definition close_wanted :: "HttpRequest \<Rightarrow> bool" where
  "close_wanted req \<longleftrightarrow> getHeader ''Connection'' req = ''close'' \<or>
     (rq_version req = kHttp10 \<and> getHeader ''Connection'' req \<noteq> ''Keep-Alive'')"

definition favicon_response :: "HttpResponse \<Rightarrow> HttpResponse" where
  "favicon_response res = setBody favicon (setContentType ''image/png''
     (setStatusMessage ''OK'' (setStatusCode k200Ok res)))"

text \<open>
  \<open>order\<close> enumerates a header map; \<open>wr\<close> and \<open>sf\<close> are the kernel's answers to the \<open>write\<close> and the
  \<open>sendfile\<close> the request leads to.
\<close>

definition onRequest :: "((string \<rightharpoonup> string) \<Rightarrow> (string \<times> string) list) \<Rightarrow> 'w os \<Rightarrow> write_result \<Rightarrow>
    sendfile_result \<Rightarrow> HttpRequest \<Rightarrow> 'w serving \<Rightarrow> 'w serving result" where
  "onRequest order sys wr sf req s =
     (let response0 = new_HttpResponse (close_wanted req) in
      bind_r (if rq_path req = ''/favicon.ico'' then Inr (sv_fs s, favicon_response response0, sv_world s)
              else setResponseBody sys req (sv_fs s) response0 (sv_world s)) (\<lambda>(fs', response, w').
      bind_r (appendToBuffer (order (rs_headers response)) response (new_Buffer kInitialSize)) (\<lambda>buf.
      bind_r (conn_do (\<lambda>c p. bind_r (send_buffer True wr buf c p) (\<lambda>(b, r). Inr r))
                (s\<lparr>sv_fs := fs', sv_world := w'\<rparr>)) (\<lambda>s1.
      bind_r (if needSendFile response
              then (case rs_len response of
                  None \<Rightarrow> Inl Undefined
                | Some len \<Rightarrow> conn_do (sendFile True sf (rs_fd response) (wrap64 len)) s1)
              else Inr s1) (\<lambda>s2.
        if closeConnection response then conn_do (shutdown True) s2 else Inr s2)))))"

definition bad_request :: string where
  "bad_request = ''HTTP/1.1 400 Bad Request'' @ crlf @ crlf"

definition onMessage :: "((string \<rightharpoonup> string) \<Rightarrow> (string \<times> string) list) \<Rightarrow> 'w os \<Rightarrow> write_result \<Rightarrow>
    write_result \<Rightarrow> sendfile_result \<Rightarrow> int \<Rightarrow> 'w serving \<Rightarrow> 'w serving result" where
  "onMessage order sys wr400 wr sf receiveTime s =
     bind_r (parseRequest receiveTime (sv_ctx s) (tc_in (sv_conn s))) (\<lambda>(ok, ctx, buf).
       let s1 = s\<lparr>sv_ctx := ctx, sv_conn := (sv_conn s)\<lparr>tc_in := buf\<rparr>\<rparr> in
       bind_r (if \<not> ok
               then bind_r (conn_do (send_string True wr400 0 bad_request) s1) (conn_do (shutdown True))
               else Inr s1) (\<lambda>s2.
         if gotAll (sv_ctx s2)
         then bind_r (onRequest order sys wr sf (ctx_request (sv_ctx s2)) s2) (\<lambda>s3.
                Inr (s3\<lparr>sv_ctx := reset (sv_ctx s3)\<rparr>))
         else Inr s2))"

section \<open>Lemmas\<close>

lemma copy_field_ok:
  assumes "s = pre @ f @ rest" "i = length pre" "stop \<notin> set f" "k + length f < field_size"
    and "rest = [] \<and> stop = CHR 0x00 \<or> rest \<noteq> [] \<and> hd rest = stop"
  shows "copy_field stop s i k = Inr (f, i + length f)"
  using assms(1-4)
proof (induction f arbitrary: pre i k)
  case Nil
  with assms(5) show ?case by (subst copy_field.simps) (auto simp: nth_append hd_conv_nth)
next
  case (Cons x f)
  have "copy_field stop s (i + 1) (k + 1) = Inr (f, i + 1 + length f)"
    using Cons.prems Cons.IH[of "pre @ [x]" "i + 1" "k + 1"] by simp
  then show ?case using Cons.prems by (subst copy_field.simps) (auto simp: nth_append)
qed

lemma copy_field_overflow:
  assumes "s = pre @ f @ rest" "i = length pre" "stop \<notin> set f" "field_size \<le> k + length f"
  shows "copy_field stop s i k = Inl OutOfBounds"
  using assms
proof (induction f arbitrary: pre i k)
  case Nil
  then show ?case by (subst copy_field.simps) auto
next
  case (Cons x f)
  have "copy_field stop s (i + 1) (k + 1) = Inl OutOfBounds"
    using Cons.prems Cons.IH[of "pre @ [x]" "i + 1" "k + 1"] by simp
  then show ?case using Cons.prems by (subst copy_field.simps) (auto simp: nth_append)
qed

definition form_body :: "string \<Rightarrow> string \<Rightarrow> string" where
  "form_body name password = ''user='' @ name @ ''&password='' @ password"

definition plain_field :: "string \<Rightarrow> bool" where
  "plain_field f \<longleftrightarrow> CHR ''&'' \<notin> set f \<and> CHR 0x00 \<notin> set f"

lemma c_str_plain: "CHR 0x00 \<notin> set s \<Longrightarrow> c_str s = s"
  by (auto simp: c_str_def takeWhile_eq_all_conv)

lemma parse_form_ok:
  assumes "plain_field name" "plain_field pw" "length name < field_size" "length pw < field_size"
  shows "parse_form (form_body name pw) = Inr (name, pw)"
proof -
  have "copy_field (CHR ''&'') (form_body name pw) 5 0 = Inr (name, 5 + length name)"
    using assms by (intro copy_field_ok[where pre = "''user=''" and rest = "''&password='' @ pw"])
      (auto simp: form_body_def plain_field_def)
  moreover have "copy_field (CHR 0x00) (form_body name pw) (5 + length name + 10) 0 =
      Inr (pw, 5 + length name + 10 + length pw)"
    using assms by (intro copy_field_ok[where pre = "''user='' @ name @ ''&password=''" and rest = "[]"])
      (auto simp: form_body_def plain_field_def)
  ultimately show ?thesis using assms(1) by (simp add: parse_form_def c_str_plain plain_field_def)
qed

lemma parse_form_overflow:
  assumes "plain_field name" "plain_field pw" "field_size \<le> length name \<or> field_size \<le> length pw"
  shows "parse_form (form_body name pw) = Inl OutOfBounds"
proof (cases "field_size \<le> length name")
  case True
  then have "copy_field (CHR ''&'') (form_body name pw) 5 0 = Inl OutOfBounds"
    using assms by (intro copy_field_overflow[where pre = "''user=''" and rest = "''&password='' @ pw"])
      (auto simp: form_body_def plain_field_def)
  then show ?thesis by (simp add: parse_form_def)
next
  case False
  have "copy_field (CHR ''&'') (form_body name pw) 5 0 = Inr (name, 5 + length name)"
    using False assms by (intro copy_field_ok[where pre = "''user=''" and rest = "''&password='' @ pw"])
      (auto simp: form_body_def plain_field_def)
  moreover have "copy_field (CHR 0x00) (form_body name pw) (5 + length name + 10) 0 = Inl OutOfBounds"
    using False assms by (intro copy_field_overflow[where pre = "''user='' @ name @ ''&password=''" and rest = "[]"])
      (auto simp: form_body_def plain_field_def)
  ultimately show ?thesis by (simp add: parse_form_def)
qed

text \<open>The three forms of a byte range the handler accepts.\<close>

datatype byte_range = RangeBoth nat nat | RangeFrom nat | RangeLast nat

fun range_text :: "byte_range \<Rightarrow> string" where
  "range_text (RangeBoth b e) = ''bytes='' @ show_nat b @ ''-'' @ show_nat e"
| "range_text (RangeFrom b) = ''bytes='' @ show_nat b @ ''-''"
| "range_text (RangeLast k) = ''bytes='' @ ''-'' @ show_nat k"

text \<open>The first and the last byte it denotes in a file of \<open>len\<close> bytes.\<close>

fun range_bounds :: "byte_range \<Rightarrow> nat \<Rightarrow> nat \<times> nat" where
  "range_bounds (RangeBoth b e) len = (b, e)"
| "range_bounds (RangeFrom b) len = (b, len - 1)"
| "range_bounds (RangeLast k) len = (len - k, len - 1)"

fun range_valid :: "byte_range \<Rightarrow> nat \<Rightarrow> bool" where
  "range_valid (RangeBoth b e) len = (b \<le> e \<and> e < len)"
| "range_valid (RangeFrom b) len = (b < len)"
| "range_valid (RangeLast k) len = (0 < k \<and> k \<le> len)"

lemma std_search_single: "std_search [c] s = std_find c s"
  by (induction s) (auto simp: std_find_def)

lemma str_find_dash: "CHR ''-'' \<notin> set s \<Longrightarrow> str_find (s @ ''-'' @ t) ''-'' = Some (length s)"
  by (simp add: str_find_def std_search_single std_find_append)

lemma dash_not_digit: "CHR ''-'' \<notin> set (show_nat n)"
  using show_nat_digits[of "CHR ''-''" n] by (auto simp: isdigit_def)

lemma parse_range_ok:
  assumes "range_valid r len" "len < 2 ^ 31" "range_bounds r len = (b, e)"
  shows "parse_range (range_text r) (int len) = Inr (int b, int e - int b + 1)"
proof (cases r)
  case (RangeBoth b' e')
  then show ?thesis using assms str_find_dash[OF dash_not_digit, of b' "show_nat e'"]
    by (simp add: parse_range_def substr_from_def stoi_show_nat)
next
  case (RangeFrom b')
  then show ?thesis using assms str_find_dash[OF dash_not_digit, of b' "[]"]
    by (auto simp: parse_range_def substr_from_def stoi_show_nat of_nat_diff)
next
  case (RangeLast k)
  then show ?thesis using assms str_find_dash[of "[]" "show_nat k"]
    by (auto simp: parse_range_def substr_from_def stoi_show_nat of_nat_diff)
qed

lemma range_text_ne [simp]: "range_text r \<noteq> []"
  by (cases r) simp_all

lemma range_bounds_ok:
  "range_valid r len \<Longrightarrow> range_bounds r len = (b, e) \<Longrightarrow> b \<le> e \<and> e < len"
  by (cases r) auto

text \<open>The parts of an answer: the bytes of the response, the file behind it, the shutdown.\<close>

lemma send_response_eq:
  assumes "tc_state c = kConnected" "bytes = concat (response_pieces hs r)" "length bytes < 2 ^ 31"
  shows "\<exists>buf. appendToBuffer hs r (new_Buffer kInitialSize) = Inr buf \<and>
    send_buffer True wr buf c p = bind_r (sendInLoop wr bytes c p) (\<lambda>r. Inr (retrieveAll buf, [], r))"
proof -
  have nb: "buffer_inv (new_Buffer kInitialSize)" "writerIndex (new_Buffer kInitialSize) = 8"
    by (simp_all add: new_Buffer_inv kInitialSize_def vector_max_size_def)
  obtain buf where buf: "appendToBuffer hs r (new_Buffer kInitialSize) = Inr buf" "buffer_inv buf" "content buf = bytes"
    using bq.append_all_ok[OF nb(1), of "response_pieces hs r"] assms(2,3) nb(2)
    by (auto simp: appendToBuffer_def vector_max_size_def)
  have "string_at_peek (readableBytes buf) buf = Inr bytes"
    using buf by (simp add: string_at_peek_readable length_content[symmetric] del: length_content)
  then show ?thesis using buf(1) assms(1) by (simp add: send_buffer_def)
qed

lemma sendFile_part:
  assumes "conn_inv c p" "tc_state c = kConnected" "writing c p \<longleftrightarrow> content (tc_out c) \<noteq> []" "m \<le> n"
  shows "\<exists>c' p'. sendFile True (SfOk m) fd n c p =
      Inr ([], c', p', if content (tc_out c) \<noteq> [] then [] else SendFile fd m # (if m = n then [CloseFd fd] else [])) \<and>
    conn_inv c' p' \<and> tc_wire c' = tc_wire c \<and> tc_out c' = tc_out c \<and> tc_in c' = tc_in c \<and> tc_state c' = kConnected \<and>
    (writing c' p' \<longleftrightarrow> content (tc_out c) \<noteq> [] \<or> m < n)"
proof -
  define c1 where "c1 = c\<lparr>tc_sendFd := fd, tc_sendLen := n\<rparr>"
  define c2 where "c2 = c1\<lparr>tc_sendLen := n - m\<rparr>"
  have i: "conn_inv c1 p" "conn_inv c2 p" "writing c1 p = writing c p" "writing c2 p = writing c p"
    using assms(1) by (simp_all add: c1_def c2_def conn_inv_def writing_def)
  have cw: "conn_writing c1 p = Inr (writing c p)" "conn_writing c2 p = Inr (writing c p)"
    using i by (simp_all add: conn_writing_eq conn_inv_def)
  have r0: "readableBytes (tc_out c1) = 0 \<longleftrightarrow> content (tc_out c) = []"
    using assms(1) by (simp add: c1_def conn_inv_def readable_0_iff)
  have st: "tc_state c1 = kConnected" "tc_sendFd c1 = fd" "tc_sendLen c1 = n" "tc_sendLen c2 = n - m"
    using assms(2) by (simp_all add: c1_def c2_def)
  have s: "sendFile True (SfOk m) fd n c p = bind_r (sendFileInLoop (SfOk m) c1 p) (\<lambda>r. Inr ([], r))"
    using assms(2) by (simp add: sendFile_def c1_def)
  show ?thesis
  proof (cases "content (tc_out c) = []")
    case False
    then have "sendFileInLoop (SfOk m) c1 p = Inr (c1, p, [])"
      using cw assms(3) st r0 i by (simp add: sendFileInLoop_def enable_writing_if_def)
    then show ?thesis using s i False assms(2,3) by (intro exI[of _ c1] exI[of _ p]) (simp add: c1_def)
  next
    case True
    obtain q where q: "enable_writing_if c2 p = Inr q" "poller_inv q" "fd_free (tc_addr c2) q"
        "watched_mask (tc_addr c2) q = requested_mask (tc_addr c2) q" "writing c2 q"
      using enable_writing_ok[of p c2] i(2) by (auto simp: conn_inv_def)
    have "sendFileInLoop (SfOk m) c1 p =
        Inr (c2, if m < n then q else p, SendFile fd m # (if m = n then [CloseFd fd] else []))"
      using cw assms(3,4) st r0 q(1) True by (auto simp: sendFileInLoop_def c2_def[symmetric])
    moreover have "conn_inv c2 (if m < n then q else p)" using q i(2) by (simp add: conn_inv_def)
    moreover have "writing c2 (if m < n then q else p) \<longleftrightarrow> m < n" using q(5) i(4) True assms(3) by simp
    moreover have "tc_wire c2 = tc_wire c \<and> tc_out c2 = tc_out c \<and> tc_in c2 = tc_in c \<and> tc_state c2 = kConnected"
      using assms(2) by (simp add: c2_def c1_def)
    ultimately show ?thesis using s True by (intro exI[of _ c2] exI[of _ "if m < n then q else p"]) auto
  qed
qed

lemma shutdown_now:
  assumes "conn_inv c p" "tc_state c = kConnected"
  shows "shutdown True c p = Inr ([], setState kDisconnecting c, p, if writing c p then [] else [ShutdownWrite]) \<and>
    conn_inv (setState kDisconnecting c) p"
proof -
  have i: "conn_inv (setState kDisconnecting c) p" using assms by (simp add: conn_inv_def setState_def writing_def)
  then have "conn_writing (setState kDisconnecting c) p = Inr (writing c p)" by (simp add: conn_writing_eq conn_inv_def)
  then show ?thesis using assms(2) i by (simp add: shutdown_def shutdownInLoop_def)
qed

section \<open>Properties\<close>

text \<open>The response to a request for a whole file of \<open>len\<close> bytes on descriptor \<open>fd\<close>.\<close>

definition file_response :: "bool \<Rightarrow> string \<Rightarrow> int \<Rightarrow> int \<Rightarrow> HttpResponse" where
  "file_response close path fd len =
     \<lparr>rs_headers = [''Content-Type'' \<mapsto> getMime (path_suffix path), ''Accept-Ranges'' \<mapsto> ''bytes'',
                   ''Content-Length'' \<mapsto> show_int len],
      statusCode = k200Ok, statusMessage = ''OK'', closeConnection = close, rs_body = [],
      rs_fd = fd, rs_len = Some len\<rparr>"

lemma setResponseBody_file:
  assumes "os_stat sys (c_str (workPath fs @ rq_path req)) w = Some (Regular, len)"
    and "os_open sys (c_str (workPath fs @ rq_path req)) w = (fd, w1)" "getHeader ''Range'' req = []"
  shows "setResponseBody sys req fs (new_HttpResponse close) w =
    Inr (fs, file_response close (rq_path req) fd len, w1)"
  using assms by (simp add: setResponseBody_def respond_regular_def file_response_def setFd_def
      setContentType_def addHeader_rs_def setSendLen_def setStatusMessage_def setStatusCode_def
      new_HttpResponse_def Let_def)

text \<open>
  The answer to a request for a file, on an idle connection: \<open>k\<close> bytes of the response and \<open>m\<close> bytes of
  the file are taken by the kernel at once.
\<close>

lemma onRequest_file:
  assumes inv: "conn_inv c p" "tc_state c = kConnected" "\<not> writing c p" "content (tc_out c) = []"
      "\<not> tc_writeComplete c" "\<not> tc_highWater c" "sv_conn s = c" "sv_poller s = p" "writerIndex (tc_out c) + length bytes \<le> vector_max_size"
    and fl: "os_stat sys (c_str (workPath (sv_fs s) @ rq_path req)) (sv_world s) = Some (Regular, int n)"
      "os_open sys (c_str (workPath (sv_fs s) @ rq_path req)) (sv_world s) = (fd, w1)" "fd \<noteq> -1"
      "getHeader ''Range'' req = []" "rq_path req \<noteq> ''/favicon.ico''" "close_wanted req" "n < 2 ^ 31"
    and resp: "r = file_response True (rq_path req) fd (int n)"
      "bytes = concat (response_pieces (order (rs_headers r)) r)" "length bytes < 2 ^ 31"
    and km: "k \<le> length bytes" "m \<le> n"
  shows "\<exists>c' p'. onRequest order sys (WriteOk k) (SfOk m) req s =
      Inr (s\<lparr>sv_world := w1, sv_conn := c', sv_poller := p', sv_effects := sv_effects s @
        (if k < length bytes then [] else if m < n then [SendFile fd m] else [SendFile fd n, CloseFd fd, ShutdownWrite])\<rparr>) \<and>
    conn_inv c' p' \<and> tc_wire c' = tc_wire c @ take k bytes \<and> content (tc_out c') = drop k bytes \<and> tc_in c' = tc_in c \<and>
    tc_state c' = kDisconnecting"
proof -
  have rb: "setResponseBody sys req (sv_fs s) (new_HttpResponse (close_wanted req)) (sv_world s) =
      Inr (sv_fs s, r, w1)"
    using setResponseBody_file[OF fl(1,2,4)] fl(6) resp(1) by simp
  have wv: "write_valid (WriteOk k) (length bytes)" using km by simp
  have w0: "writing c p \<longleftrightarrow> content (tc_out c) \<noteq> []" using inv(3,4) by simp
  obtain c1 p1 e1 where c1: "sendInLoop (WriteOk k) bytes c p = Inr (c1, p1, e1)" "conn_inv c1 p1" "stream c1 = stream c @ bytes"
      "tc_state c1 = kConnected"
    using sendInLoop_ok[OF inv(1) _ wv resp(3)] inv(2,9) by auto
  have f1: "writing c1 p1 \<longleftrightarrow> content (tc_out c1) \<noteq> []" "tc_in c1 = tc_in c" "content (tc_out c1) = drop k bytes" "e1 = []"
    using sendInLoop_waits[OF inv(1) _ wv resp(3) inv(9) w0 c1(1)] inv(2,4-6) by auto
  have "tc_wire c1 @ drop k bytes = (tc_wire c @ take k bytes) @ drop k bytes"
    using c1(3) inv(4) f1(3) by (simp add: stream_def)
  then have wire: "tc_wire c1 = tc_wire c @ take k bytes" unfolding append_same_eq .
  obtain buf where buf: "appendToBuffer (order (rs_headers r)) r (new_Buffer kInitialSize) = Inr buf"
      "send_buffer True (WriteOk k) buf c p = Inr (retrieveAll buf, [], c1, p1, [])"
    using send_response_eq[OF inv(2) resp(2,3), of "WriteOk k" p] c1(1) f1(4) by auto
  obtain c2 p2 where c2: "sendFile True (SfOk m) fd n c1 p1 =
      Inr ([], c2, p2, if drop k bytes \<noteq> [] then [] else SendFile fd m # (if m = n then [CloseFd fd] else []))"
      "conn_inv c2 p2" "tc_wire c2 = tc_wire c1" "tc_out c2 = tc_out c1" "tc_in c2 = tc_in c1" "tc_state c2 = kConnected"
      "writing c2 p2 \<longleftrightarrow> drop k bytes \<noteq> [] \<or> m < n"
    using sendFile_part[OF c1(2,4) f1(1) km(2), of fd] unfolding f1(3) by blast
  note sd = shutdown_now[OF c2(2,6)]
  define es where "es = (if drop k bytes \<noteq> [] then [] else SendFile fd m # (if m = n then [CloseFd fd] else [])) @
    (if writing c2 p2 then [] else [ShutdownWrite])"
  have es: "es = (if k < length bytes then [] else if m < n then [SendFile fd m] else [SendFile fd n, CloseFd fd, ShutdownWrite])"
    using km c2(7) by (auto simp: es_def)
  have w64: "wrap64 (int n) = n" using fl(7) by simp
  have "onRequest order sys (WriteOk k) (SfOk m) req s =
      Inr (s\<lparr>sv_world := w1, sv_conn := setState kDisconnecting c2, sv_poller := p2, sv_effects := sv_effects s @ es\<rparr>)"
    using rb buf c2(1) sd inv(2,7,8) fl(3,5) w64 unfolding es_def
    by (simp add: onRequest_def conn_do_def needSendFile_def resp(1) file_response_def)
  then show ?thesis unfolding es using sd c2(3-5) wire f1(2,3)
    by (intro exI[of _ "setState kDisconnecting c2"] exI[of _ p2]) (simp add: setState_def)
qed

text \<open>
  C15: serving a file, end to end. A complete GET request for a regular file below 2 GiB (no \<open>Range\<close>,
  asking to close) that arrives on an idle connection is parsed and answered: the bytes of the answer
  are the status line and headers of the response with the length and type of the file. When the
  kernel takes these at once, \<open>sendfile\<close> is called for the file, and when it takes the whole file, the
  descriptor is closed and the connection shut down. Otherwise the file is not completed: after a
  partial \<open>sendfile\<close> no rest is ever sent, and when a part of the response had to wait in the output
  buffer, the file is not even begun: the writability events put the rest of the response on the wire
  and the connection is shut down behind it. The parser is ready for the next request and no byte of
  the request is left.
\<close>

theorem get_file_end_to_end:
  assumes "conn_inv c p" "tc_state c = kConnected" "\<not> writing c p" "content (tc_out c) = []"
      "\<not> tc_writeComplete c" "\<not> tc_highWater c" "sv_conn s = c" "sv_poller s = p" "sv_ctx s = new_HttpContext"
    and "wf_line kGet path query v" "\<forall>h \<in> set hs. wf_header h"
      "content (tc_in c) = render_line kGet path query v @ crlf @ render_headers hs"
      "put_headers hs Map.empty ''Connection'' = Some ''close''" "put_headers hs Map.empty ''Range'' = None"
    and "path \<noteq> ''/favicon.ico''" "n < 2 ^ 31" "fd \<noteq> -1"
      "os_stat sys (c_str (workPath (sv_fs s) @ path)) (sv_world s) = Some (Regular, int n)"
      "os_open sys (c_str (workPath (sv_fs s) @ path)) (sv_world s) = (fd, w1)"
    and "r = file_response True path fd (int n)"
      "bytes = concat (response_pieces (order (rs_headers r)) r)" "length bytes < 2 ^ 31"
      "writerIndex (tc_out c) + length bytes \<le> vector_max_size"
    and "k \<le> length bytes" "m \<le> n"
  shows "\<exists>s'. onMessage order sys wr400 (WriteOk k) (SfOk m) t s = Inr s' \<and>
    tc_wire (sv_conn s') = tc_wire c @ take k bytes \<and> content (tc_out (sv_conn s')) = drop k bytes \<and>
    sv_effects s' = sv_effects s @
      (if k < length bytes then [] else if m < n then [SendFile fd m] else [SendFile fd n, CloseFd fd, ShutdownWrite]) \<and>
    tc_state (sv_conn s') = kDisconnecting \<and> sv_world s' = w1 \<and>
    content (tc_in (sv_conn s')) = [] \<and> ctx_state (sv_ctx s') = kExpectRequestLine \<and>
    (\<forall>ns c2 p2 es. run_writes ns (sv_conn s') (sv_poller s') = Inr (c2, p2, es) \<longrightarrow>
       (\<forall>f l. SendFile f l \<notin> set es \<and> CloseFd f \<notin> set es)) \<and>
    (\<forall>ns. k < length bytes \<and> sum_list ns = length bytes - k \<longrightarrow>
       (\<exists>c2 p2 es. run_writes ns (sv_conn s') (sv_poller s') = Inr (c2, p2, es) \<and> tc_wire c2 = tc_wire c @ bytes \<and>
          count_list es ShutdownWrite = 1))"
proof -
  define req where "req = parsed_request kGet path query v hs t new_HttpRequest"
  have ib: "buffer_inv (tc_in c)" using assms(1) by (simp add: conn_inv_def)
  obtain b' where b': "parseRequest t new_HttpContext (tc_in c) =
      Inr (True, new_HttpContext\<lparr>ctx_state := kGotAll, ctx_request := req\<rparr>, b')"
      "buffer_inv b'" "content b' = []"
    using parse_loop_request[OF assms(10,11) ib, of new_HttpContext "[]" t] assms(12)
    by (auto simp: parse_loop_body parse_body_def parsed_request_def new_HttpContext_def req_def)
  have req: "rq_path req = path" "getHeader ''Range'' req = []" "close_wanted req"
    using assms(13,14)
    by (simp_all add: req_def parsed_request_def getHeader_def close_wanted_def new_HttpRequest_def)
  define c1 where "c1 = c\<lparr>tc_in := b'\<rparr>"
  define s1 where "s1 = s\<lparr>sv_ctx := new_HttpContext\<lparr>ctx_state := kGotAll, ctx_request := req\<rparr>, sv_conn := c1\<rparr>"
  have i1: "conn_inv c1 p" "tc_state c1 = kConnected" "\<not> writing c1 p" "content (tc_out c1) = []"
      "\<not> tc_writeComplete c1" "\<not> tc_highWater c1" "sv_conn s1 = c1" "sv_poller s1 = p"
      "writerIndex (tc_out c1) + length bytes \<le> vector_max_size"
    using assms(1-8,23) b' by (simp_all add: c1_def s1_def conn_inv_def)
  have f1: "os_stat sys (c_str (workPath (sv_fs s1) @ rq_path req)) (sv_world s1) = Some (Regular, int n)"
      "os_open sys (c_str (workPath (sv_fs s1) @ rq_path req)) (sv_world s1) = (fd, w1)"
    using assms(18,19) req(1) by (simp_all add: s1_def)
  have om: "onMessage order sys wr400 (WriteOk k) (SfOk m) t s =
      bind_r (onRequest order sys (WriteOk k) (SfOk m) req s1) (\<lambda>s3. Inr (s3\<lparr>sv_ctx := reset (sv_ctx s3)\<rparr>))"
    using b'(1) assms(7,9) by (simp add: onMessage_def gotAll_def s1_def c1_def)
  obtain c' p' where c': "onRequest order sys (WriteOk k) (SfOk m) req s1 =
      Inr (s1\<lparr>sv_world := w1, sv_conn := c', sv_poller := p', sv_effects := sv_effects s1 @
        (if k < length bytes then [] else if m < n then [SendFile fd m] else [SendFile fd n, CloseFd fd, ShutdownWrite])\<rparr>)"
      "conn_inv c' p'" "tc_wire c' = tc_wire c1 @ take k bytes" "content (tc_out c') = drop k bytes" "tc_in c' = tc_in c1"
      "tc_state c' = kDisconnecting"
    using onRequest_file[OF i1 f1 assms(17) req(2) _ req(3) assms(16), of r order k m] req(1) assms(15,20-22,24,25) by auto
  have drained: "\<exists>c2 p2 es. run_writes ns c' p' = Inr (c2, p2, es) \<and> tc_wire c2 = tc_wire c @ bytes \<and> count_list es ShutdownWrite = 1"
    if "k < length bytes" "sum_list ns = length bytes - k" for ns
    using run_writes_ok[OF c'(2), of ns] c'(3-6) that by (auto simp: c1_def)
  show ?thesis using om c' b'(3) drained run_writes_no_file[of _ c' p']
    by (simp add: s1_def c1_def reset_def no_file_def)
qed

text \<open>A world with one file, for the examples.\<close>

definition one_file :: "string \<Rightarrow> nat \<Rightarrow> unit os" where
  "one_file path n =
     \<lparr>os_stat = \<lambda>p w. if p = path then Some (Regular, int n) else None,
      os_open = \<lambda>p w. (if p = path then 7 else -1, w), os_lseek = \<lambda>fd off w. w,
      os_readdir = \<lambda>p w. Some [], os_write = \<lambda>p s w. w, os_remove = \<lambda>p w. w,
      os_template = \<lambda>w. filelist_label, db_update = \<lambda>q w. (False, w)\<rparr>"

definition key_order :: "(string \<rightharpoonup> string) \<Rightarrow> (string \<times> string) list" where
  "key_order m = map (\<lambda>k. (k, the (m k)))
     (filter (\<lambda>k. m k \<noteq> None) [''Content-Type'', ''Accept-Ranges'', ''Content-Length'', ''Content-Range''])"

theorem get_file_end_to_end_witness:
  "\<exists>s s' :: unit serving. \<exists>k.
     content (tc_in (sv_conn s)) = render_line kGet ''/a.txt'' [] kHttp11 @ crlf @
       render_headers [(''Connection'', ''close'')] \<and>
     onMessage key_order (one_file ''/srv/a.txt'' 5) (WriteOk 0) (WriteOk k) (SfOk 5) 0 s = Inr s' \<and>
     sv_effects s' = [SendFile 7 5, CloseFd 7, ShutdownWrite] \<and> tc_state (sv_conn s') = kDisconnecting \<and>
     (\<exists>s''. onMessage key_order (one_file ''/srv/a.txt'' 5) (WriteOk 0) (WriteOk k) (SfOk 2) 0 s = Inr s'' \<and>
        sv_effects s'' = [SendFile 7 2])"
proof -
  obtain c0 p where c0: "conn_inv c0 p" "tc_state c0 = kConnected" "content (tc_out c0) = []"
      "\<not> writing c0 p" "\<not> tc_writeComplete c0" "writerIndex (tc_out c0) = 8"
    using example_connection by blast
  define hs where "hs = [(''Connection'', ''close'')]"
  define req where "req = render_line kGet ''/a.txt'' [] kHttp11 @ crlf @ render_headers hs"
  define c where "c = c0\<lparr>tc_in := buffer_of req, tc_highWater := False\<rparr>"
  have "buffer_inv (buffer_of req)"
    by (simp add: req_def hs_def render_line_def version_string_def render_headers_def render_header_def crlf_def)
  then have i: "conn_inv c p" "tc_state c = kConnected" "\<not> writing c p" "content (tc_out c) = []"
      "\<not> tc_writeComplete c" "\<not> tc_highWater c" using c0 by (simp_all add: c_def conn_inv_def writing_def)
  have wi: "writerIndex (tc_out c) = 8" using c0 by (simp add: c_def)
  define s where "s = \<lparr>sv_fs = \<lparr>workPath = ''/srv'', users = Map.empty\<rparr>, sv_ctx = new_HttpContext,
      sv_conn = c, sv_poller = p, sv_effects = [], sv_world = ()\<rparr>"
  define r where "r = file_response True ''/a.txt'' 7 (int 5)"
  define bytes where "bytes = concat (response_pieces (key_order (rs_headers r)) r)"
  have sv: "sv_conn s = c" "sv_poller s = p" "sv_ctx s = new_HttpContext" by (simp_all add: s_def)
  have line: "wf_line kGet ''/a.txt'' [] kHttp11" by (simp add: wf_line_def CR_def)
  have hdr: "\<forall>h \<in> set hs. wf_header h" by (simp add: hs_def wf_header_def CR_def isspace_def)
  have cont: "content (tc_in c) = req" by (simp add: c_def)
  have g: "getMime (path_suffix ''/a.txt'') = ''text/plain;charset=utf-8''" by code_simp
  have s5: "show_int 5 = ''5''" by code_simp
  have len: "length bytes < 2 ^ 31"
    by (simp add: bytes_def response_pieces_def key_order_def r_def file_response_def g s5 status_prefix_def)
  have cs: "c_str ''/srv/a.txt'' = ''/srv/a.txt''" by (simp add: c_str_def)
  have st: "os_stat (one_file ''/srv/a.txt'' 5) (c_str (workPath (sv_fs s) @ ''/a.txt'')) (sv_world s) =
        Some (Regular, int 5)"
      "os_open (one_file ''/srv/a.txt'' 5) (c_str (workPath (sv_fs s) @ ''/a.txt'')) (sv_world s) = (7, ())"
    by (simp_all add: s_def cs one_file_def)
  have hv: "put_headers hs Map.empty ''Connection'' = Some ''close''" "put_headers hs Map.empty ''Range'' = None"
    by (simp_all add: hs_def put_headers_def)
  have nums: "''/a.txt'' \<noteq> ''/favicon.ico''" "(5 :: nat) < 2 ^ 31" "(7 :: int) \<noteq> -1" by simp_all
  have room: "writerIndex (tc_out c) + length bytes \<le> vector_max_size" using wi len by (simp add: vector_max_size_def)
  note get = get_file_end_to_end[where order = key_order and ?wr400.0 = "WriteOk 0" and t = 0,
      OF i sv line hdr cont[unfolded req_def] hv nums st r_def bytes_def len room order_refl]
  obtain s' where s': "onMessage key_order (one_file ''/srv/a.txt'' 5) (WriteOk 0) (WriteOk (length bytes)) (SfOk 5) 0 s = Inr s'"
      "sv_effects s' = sv_effects s @ [SendFile 7 5, CloseFd 7, ShutdownWrite]" "tc_state (sv_conn s') = kDisconnecting"
    using get[of 5] by auto
  obtain s'' where s'': "onMessage key_order (one_file ''/srv/a.txt'' 5) (WriteOk 0) (WriteOk (length bytes)) (SfOk 2) 0 s = Inr s''"
      "sv_effects s'' = sv_effects s @ [SendFile 7 2]"
    using get[of 2] by auto
  have "sv_effects s = []" "content (tc_in (sv_conn s)) = req" using cont by (simp_all add: s_def)
  with s' s'' show ?thesis unfolding req_def hs_def by (metis append_Nil)
qed

text \<open>
  C17: byte ranges. For a request of a regular file below 2 GiB (beyond, \<open>stoi\<close> throws for large
  positions and the length is cut to an \<open>int\<close>) with a satisfiable \<open>Range\<close> header in any of the
  three forms, the response is 206 with the \<open>Content-Range\<close> and \<open>Content-Length\<close> of exactly the
  bytes asked for, the file offset is moved to the first of them and as many bytes are scheduled
  for sending; the bytes lie within the file.
\<close>

theorem range_request_exact:
  assumes "os_stat sys (c_str (workPath fs @ rq_path req)) w = Some (Regular, int len)" "len < 2 ^ 31"
    and "os_open sys (c_str (workPath fs @ rq_path req)) w = (fd, w1)"
    and "rq_headers req ''Range'' = Some (range_text rg)" "range_valid rg len" "range_bounds rg len = (b, e)"
  shows "\<exists>res. setResponseBody sys req fs (new_HttpResponse close) w = Inr (fs, res, os_lseek sys fd (int b) w1) \<and>
    statusCode res = k206Partitial \<and> rs_fd res = fd \<and> rs_len res = Some (int (e - b + 1)) \<and>
    rs_headers res ''Content-Range'' = Some (''bytes '' @ show_nat b @ ''-'' @ show_nat e @ ''/'' @ show_nat len) \<and>
    rs_headers res ''Content-Length'' = Some (show_nat (e - b + 1)) \<and> b + (e - b + 1) \<le> len"
proof -
  have be: "b \<le> e" "e < len" using range_bounds_ok[OF assms(5,6)] by auto
  have h: "getHeader ''Range'' req = range_text rg" using assms(4) by (simp add: getHeader_def)
  define k where "k = e - b + 1"
  have n: "int e - int b + 1 = int k" "int b + int k - 1 = int e" "b + k \<le> len" "0 < k"
    using be by (simp_all add: k_def)
  have sh: "show_int (int j) = show_nat j" for j by (simp add: show_int_def)
  have t32: "to_int32 (int k) = int k"
    using be assms(2) by (intro to_int32_id) (simp add: int32_ok_def k_def)
  have "setResponseBody sys req fs (new_HttpResponse close) w =
      respond_regular sys (c_str (workPath fs @ rq_path req)) (int len) req fs (new_HttpResponse close) w"
    using assms(1) by (simp add: setResponseBody_def)
  then show ?thesis
    using assms(3) h parse_range_ok[OF assms(5,2,6)] n(3)
    unfolding respond_regular_def n k_def[symmetric]
    by (simp add: Let_def n t32 sh addHeader_rs_def setSendLen_def setStatusMessage_def setStatusCode_def
          setContentType_def setFd_def)
qed

theorem range_request_exact_witness:
  "\<exists>res. setResponseBody (one_file ''/srv/a'' 100)
      (new_HttpRequest\<lparr>rq_path := ''/a'', rq_headers := [''Range'' \<mapsto> range_text (RangeLast 10)]\<rparr>)
      \<lparr>workPath = ''/srv'', users = Map.empty\<rparr> (new_HttpResponse True) () =
        Inr (\<lparr>workPath = ''/srv'', users = Map.empty\<rparr>, res, ()) \<and>
    rs_len res = Some 10 \<and> rs_headers res ''Content-Length'' = Some (show_nat 10)"
proof -
  let ?req = "new_HttpRequest\<lparr>rq_path := ''/a'', rq_headers := [''Range'' \<mapsto> range_text (RangeLast 10)]\<rparr>"
  have cs: "c_str ''/srv/a'' = ''/srv/a''" by (simp add: c_str_def)
  show ?thesis
    using range_request_exact[of "one_file ''/srv/a'' 100" "\<lparr>workPath = ''/srv'', users = Map.empty\<rparr>" ?req
        "()" 100 7 "()" "RangeLast 10" 90 99 True]
    by (auto simp: one_file_def cs)
qed

text \<open>
  A malformed \<open>Range\<close> header ends the server: a value of fewer than six characters makes
  \<open>substr\<close> throw, a bound without digits makes \<open>stoi\<close> throw, and no caller catches either.
\<close>

theorem malformed_range_throws:
  assumes "os_stat sys (c_str (workPath fs @ rq_path req)) w = Some (Regular, len)"
    and "rq_headers req ''Range'' = Some rng" "rng \<noteq> []"
    and "length rng < 6 \<or> (\<exists>a b. rng = ''bytes='' @ a @ ''-'' @ b \<and> CHR ''-'' \<notin> set a \<and> a \<noteq> [] \<and>
           strtol10 (c_str a) = None)"
  shows "\<exists>e. setResponseBody sys req fs res w = Inl (Thrown e)"
proof -
  have h: "getHeader ''Range'' req = rng" using assms(2) by (simp add: getHeader_def)
  have "\<exists>e. parse_range rng len = Inl (Thrown e)"
  proof (cases "length rng < 6")
    case True
    then show ?thesis by (simp add: parse_range_def substr_from_def)
  next
    case False
    with assms(4) obtain a b where ab: "rng = ''bytes='' @ a @ ''-'' @ b" "CHR ''-'' \<notin> set a" "a \<noteq> []"
        "strtol10 (c_str a) = None" by blast
    then show ?thesis using str_find_dash[OF ab(2), of b]
      by (simp add: parse_range_def substr_from_def stoi_def)
  qed
  then show ?thesis using assms(1,3) h
    by (auto simp: setResponseBody_def respond_regular_def Let_def split: prod.splits)
qed

theorem malformed_range_throws_witness:
  "\<exists>e. setResponseBody (one_file ''/srv/a'' 100) (new_HttpRequest\<lparr>rq_path := ''/a'', rq_headers := [''Range'' \<mapsto> ''x'']\<rparr>)
      \<lparr>workPath = ''/srv'', users = Map.empty\<rparr> (new_HttpResponse True) () = Inl (Thrown e)"
proof -
  have cs: "c_str ''/srv/a'' = ''/srv/a''" by (simp add: c_str_def)
  show ?thesis
    using malformed_range_throws[of "one_file ''/srv/a'' 100" "\<lparr>workPath = ''/srv'', users = Map.empty\<rparr>"
        "new_HttpRequest\<lparr>rq_path := ''/a'', rq_headers := [''Range'' \<mapsto> ''x'']\<rparr>" "()" 100 "''x''"
        "new_HttpResponse True"]
    by (simp add: one_file_def cs)
qed

lemma setResponseBody_form:
  assumes "os_stat sys (c_str (workPath fs @ rq_path req)) w = None" "rq_path req = [s, k] @ rest"
    and "k = CHR ''2'' \<or> k = CHR ''3''"
  shows "setResponseBody sys req fs res w = respond_form sys k req fs res w"
  using assms by (auto simp: setResponseBody_def str_at_def)

text \<open>
  C32: registration and login, for fields that fit the arrays and the SQL buffer (and when no file has
  the name of one of the two forms). After a registration
  form was handled, whether or not the database accepted it, the account of the name has the password
  it had before, or the registered one when the name was new; a login form with that name shows the
  file list when the password is the one of the account and the retry page otherwise; the accounts of
  other names are unchanged. The page that answers the registration is chosen by what the database
  said, not by whether the account was added.
\<close>

theorem register_then_login:
  assumes "plain_field name" "plain_field pw" "plain_field pw2" "length name + length pw < 100" "length pw2 < 100"
    and "\<And>w' u. u \<in> {''/2CGISQL.cgi'', ''/3CGISQL.cgi''} \<Longrightarrow> os_stat sys (c_str (workPath fs @ u)) w' = None"
    and "m_string req = form_body name pw" "rq_path req = ''/3CGISQL.cgi''"
    and "m_string req2 = form_body name pw2" "rq_path req2 = ''/2CGISQL.cgi''"
    and "account = (case users fs name of None \<Rightarrow> pw | Some old \<Rightarrow> old)"
  shows "\<exists>fs' ins w'. db_update sys (sql_insert name pw) w = (ins, w') \<and>
    setResponseBody sys req fs res w = Inr (fs', html_page (if ins then page_signin else page_signup_taken) res, w') \<and>
    users fs' name = Some account \<and> (\<forall>u. u \<noteq> name \<longrightarrow> users fs' u = users fs u) \<and>
    setResponseBody sys req2 fs' res w' =
      (if pw2 = account then bind_r (getFileListPage sys w' (workPath fs)) (\<lambda>html. Inr (fs', html_page html res, w'))
       else Inr (fs', html_page page_signin_retry res, w'))"
proof -
  obtain ins w' where u: "db_update sys (sql_insert name pw) w = (ins, w')" by fastforce
  define fs' where "fs' = (if users fs name = None then fs\<lparr>users := (users fs)(name \<mapsto> pw)\<rparr> else fs)"
  have len: "length name < field_size" "length pw < field_size" "length pw2 < field_size"
      "length (sql_insert name pw) + 1 \<le> sql_buffer_size"
    using assms(4,5) by (simp_all add: field_size_def sql_buffer_size_def sql_insert_def)
  have r1: "setResponseBody sys req fs res w =
      Inr (fs', html_page (if ins then page_signin else page_signup_taken) res, w')"
    using setResponseBody_form[of sys fs req w "CHR ''/''" "CHR ''3''" "''CGISQL.cgi''" res]
      assms(1,2,6-8) len u
    by (simp add: respond_form_def parse_form_ok respond_register_def fs'_def)
  have "os_stat sys (c_str (workPath fs' @ rq_path req2)) w' = None" using assms(6)[of "rq_path req2"] assms(10) by (simp add: fs'_def)
  then have r2: "setResponseBody sys req2 fs' res w' = respond_login sys name pw2 fs' res w'"
    using setResponseBody_form[of sys fs' req2 w' "CHR ''/''" "CHR ''2''" "''CGISQL.cgi''" res]
      assms(1,3,9,10) len
    by (simp add: respond_form_def parse_form_ok)
  have fs': "users fs' name = Some account" "workPath fs' = workPath fs" "\<forall>u. u \<noteq> name \<longrightarrow> users fs' u = users fs u"
    using assms(11) by (auto simp: fs'_def split: option.splits)
  then have "setResponseBody sys req2 fs' res w' =
      (if pw2 = account then bind_r (getFileListPage sys w' (workPath fs)) (\<lambda>html. Inr (fs', html_page html res, w'))
       else Inr (fs', html_page page_signin_retry res, w'))"
    using r2 by (auto simp: respond_login_def)
  with r1 u fs' show ?thesis by blast
qed

theorem register_then_login_witness:
  "\<exists>fs' res1. setResponseBody (one_file [] 0)
      (new_HttpRequest\<lparr>m_string := form_body ''bob'' ''pw'', rq_path := ''/3CGISQL.cgi''\<rparr>)
      \<lparr>workPath = ''/srv'', users = Map.empty\<rparr> (new_HttpResponse True) () = Inr (fs', res1, ()) \<and>
    setResponseBody (one_file [] 0)
      (new_HttpRequest\<lparr>m_string := form_body ''bob'' ''no'', rq_path := ''/2CGISQL.cgi''\<rparr>)
      fs' (new_HttpResponse True) () = Inr (fs', html_page page_signin_retry (new_HttpResponse True), ())"
proof -
  have st: "os_stat (one_file [] 0) (c_str (workPath \<lparr>workPath = ''/srv'', users = Map.empty\<rparr> @ u)) w' = None" for u w'
    by (simp add: one_file_def c_str_def)
  show ?thesis
    using register_then_login[of "''bob''" "''pw''" "''no''",
        OF _ _ _ _ _ st, of "new_HttpRequest\<lparr>m_string := form_body ''bob'' ''pw'', rq_path := ''/3CGISQL.cgi''\<rparr>"
        "new_HttpRequest\<lparr>m_string := form_body ''bob'' ''no'', rq_path := ''/2CGISQL.cgi''\<rparr>" "''pw''" "()" "new_HttpResponse True"]
    by (simp add: plain_field_def) blast
qed

text \<open>
  C38: the form fields are copied without a length check. A name or a password of 100 characters or
  more in the body of a login or registration request, before any authentication, writes past an array
  on the stack; and a registration whose name and password are short enough for the arrays but
  together have 152 characters or more writes past the 200 byte buffer of the SQL statement.
\<close>

theorem form_fields_overflow:
  assumes "os_stat sys (c_str (workPath fs @ rq_path req)) w = None" "rq_path req = [s, k] @ rest"
    and "k = CHR ''2'' \<or> k = CHR ''3''" "plain_field name" "plain_field pw" "m_string req = form_body name pw"
    and "100 \<le> length name \<or> 100 \<le> length pw \<or> k = CHR ''3'' \<and> 152 \<le> length name + length pw"
  shows "setResponseBody sys req fs res w = Inl OutOfBounds"
proof (cases "100 \<le> length name \<or> 100 \<le> length pw")
  case True
  then show ?thesis using setResponseBody_form[OF assms(1-3)] assms(4-6) parse_form_overflow[of name pw]
    by (simp add: respond_form_def field_size_def)
next
  case False
  then show ?thesis using setResponseBody_form[OF assms(1-3)] assms(4-7)
    by (auto simp: respond_form_def parse_form_ok field_size_def respond_register_def sql_buffer_size_def
          sql_insert_def)
qed

theorem form_fields_overflow_witness:
  "setResponseBody (one_file [] 0)
     (new_HttpRequest\<lparr>m_string := form_body (replicate 100 (CHR ''a'')) ''p'', rq_path := ''/2CGISQL.cgi''\<rparr>)
     \<lparr>workPath = ''/srv'', users = Map.empty\<rparr> (new_HttpResponse True) () = Inl OutOfBounds"
  using form_fields_overflow[of "one_file [] 0" "\<lparr>workPath = ''/srv'', users = Map.empty\<rparr>"
      "new_HttpRequest\<lparr>m_string := form_body (replicate 100 (CHR ''a'')) ''p'', rq_path := ''/2CGISQL.cgi''\<rparr>"
      "()" "CHR ''/''" "CHR ''2''" "''CGISQL.cgi''" "replicate 100 (CHR ''a'')" "''p''" "new_HttpResponse True"]
  by (simp add: one_file_def c_str_def plain_field_def)

end
