(* ===== verification/Net_Address.thy ===== *)
theory Net_Address
  imports Prelude
begin

text \<open>
  \<open>src/src/net/InetAddress.h\<close>, \<open>InetAddress.cc\<close>, \<open>Socket.h\<close> and \<open>Socket.cc\<close>. A \<open>sockaddr_in\<close> keeps its
  port in network byte order (16 bits) and its address as four bytes. \<open>htons\<close> is written out for a
  little-endian host. The socket operations give the system calls they make; their results are
  inputs.
\<close>

section \<open>Addresses\<close>

unbundle bit_operations_syntax

record InetAddress =
  sin_port :: "16 word"
  s_addr :: "nat \<times> nat \<times> nat \<times> nat"

definition htons :: "16 word \<Rightarrow> 16 word" where
  "htons w = push_bit 8 w OR drop_bit 8 w"

abbreviation ntohs :: "16 word \<Rightarrow> 16 word" where "ntohs \<equiv> htons"

text \<open>The parameter \<open>ip\<close> is not used: the address is always \<open>INADDR_ANY\<close>.\<close>

definition new_InetAddress :: "16 word \<Rightarrow> string \<Rightarrow> InetAddress" where
  "new_InetAddress port ip = \<lparr>sin_port = htons port, s_addr = (0, 0, 0, 0)\<rparr>"

definition setSockAddr :: "InetAddress \<Rightarrow> InetAddress \<Rightarrow> InetAddress" where
  "setSockAddr addr self = addr"

text \<open>\<open>inet_ntop\<close>: the four bytes in decimal with dots.\<close>

definition toIp :: "InetAddress \<Rightarrow> string" where
  "toIp a = (case s_addr a of (b1, b2, b3, b4) \<Rightarrow>
     show_nat b1 @ ''.'' @ show_nat b2 @ ''.'' @ show_nat b3 @ ''.'' @ show_nat b4)"

definition toPort :: "InetAddress \<Rightarrow> nat" where
  "toPort a = unat (ntohs (sin_port a))"

text \<open>\<open>sprintf\<close> appends to the 64 byte buffer without a bound.\<close>

definition toIpPort :: "InetAddress \<Rightarrow> string result" where
  "toIpPort a = (let s = toIp a @ '':'' @ show_nat (unat (ntohs (sin_port a))) in
     if length s + 1 > 64 then Inl OutOfBounds else Inr s)"

section \<open>Sockets\<close>

datatype sock_call = SysClose int | SysBind int InetAddress | SysListen int int | SysShutdownWr int
  | SysNoDelay int bool | SysReuseAddr int bool | SysReusePort int bool | SysKeepAlive int bool

definition destroy_Socket :: "int \<Rightarrow> sock_call list" where
  "destroy_Socket fd = [SysClose fd]"

text \<open>\<open>failed\<close> is whether the call returned an error; for \<open>bind\<close> and \<open>listen\<close> that is fatal.\<close>

definition bindAddress :: "bool \<Rightarrow> int \<Rightarrow> InetAddress \<Rightarrow> sock_call list result" where
  "bindAddress failed fd a = (if failed then Inl Aborted else Inr [SysBind fd a])"

definition listen_socket :: "bool \<Rightarrow> int \<Rightarrow> sock_call list result" where
  "listen_socket failed fd = (if failed then Inl Aborted else Inr [SysListen fd 1024])"

text \<open>\<open>accept4\<close> gives a descriptor and the peer's address, or fails; the peer is set on success only.\<close>

definition accept_socket :: "(int \<times> InetAddress) option \<Rightarrow> InetAddress \<Rightarrow> int \<times> InetAddress" where
  "accept_socket r peeraddr = (case r of Some (connfd, a) \<Rightarrow> (connfd, setSockAddr a peeraddr) | None \<Rightarrow> (-1, peeraddr))"

definition shutdownWrite :: "int \<Rightarrow> sock_call list" where "shutdownWrite fd = [SysShutdownWr fd]"
definition setTcpNoDelay :: "bool \<Rightarrow> int \<Rightarrow> sock_call list" where "setTcpNoDelay on fd = [SysNoDelay fd on]"
definition setReuseAddr :: "bool \<Rightarrow> int \<Rightarrow> sock_call list" where "setReuseAddr on fd = [SysReuseAddr fd on]"
definition setReusePort :: "bool \<Rightarrow> int \<Rightarrow> sock_call list" where "setReusePort on fd = [SysReusePort fd on]"
definition setKeepAlive :: "bool \<Rightarrow> int \<Rightarrow> sock_call list" where "setKeepAlive on fd = [SysKeepAlive fd on]"

section \<open>Lemmas\<close>

lemma htons_htons [simp]: "htons (htons w) = w"
  by (rule bit_word_eqI) (auto simp: htons_def bit_simps)

lemma toPort_new [simp]: "toPort (new_InetAddress port ip) = unat port"
  by (simp add: toPort_def new_InetAddress_def)

text \<open>The constructor's text form never overflows its buffer and is at most 13 characters.\<close>

lemma toIpPort_new:
  "toIpPort (new_InetAddress port ip) = Inr (''0.0.0.0:'' @ show_nat (unat port)) \<and> length (show_nat (unat port)) \<le> 5"
proof -
  have "unat port < 2 ^ 16" using unsigned_less[of port] by simp
  then have "length (show_nat (unat port)) \<le> 5" by (intro length_show_nat) simp_all
  moreover have "show_nat 0 = ''0''" by code_simp
  ultimately show ?thesis by (simp add: toIpPort_def toIp_def new_InetAddress_def)
qed

end
