(* ===== verification/Loop_Pool.thy ===== *)
theory Loop_Pool
  imports Prelude
begin

text \<open>
  \<open>src/src/net/EventLoopThread.h\<close>, \<open>EventLoopThread.cc\<close>, \<open>EventLoopThreadPool.h\<close> and
  \<open>EventLoopThreadPool.cc\<close>. Loops are named by numbers. The thread that owns a loop and the thread
  that starts it meet over \<open>loop_\<close>, a mutex and a condition variable: a step relation with one
  program counter each. The pool hands out its loops in turn.
\<close>

section \<open>A thread with a loop\<close>

datatype starter_pc = StWaiting | StReturned nat
datatype thread_pc = ThCreating | ThLooping nat | ThDone

record EventLoopThread =
  elt_loop :: "nat option"
  elt_exiting :: bool
  elt_starter :: starter_pc
  elt_thread :: thread_pc

definition new_EventLoopThread :: EventLoopThread where
  "new_EventLoopThread = \<lparr>elt_loop = None, elt_exiting = False, elt_starter = StWaiting, elt_thread = ThCreating\<rparr>"

text \<open>
  \<open>startLoop\<close> has started the thread and waits while \<open>loop_\<close> is null; \<open>threadFunc\<close> creates its
  loop, publishes it, runs it, and clears \<open>loop_\<close> when the loop ends.
\<close>

inductive elt_step :: "EventLoopThread \<Rightarrow> EventLoopThread \<Rightarrow> bool" where
  publish: "elt_thread s = ThCreating \<Longrightarrow> elt_step s (s\<lparr>elt_loop := Some l, elt_thread := ThLooping l\<rparr>)"
| start_returns: "elt_starter s = StWaiting \<Longrightarrow> elt_loop s = Some l \<Longrightarrow> elt_step s (s\<lparr>elt_starter := StReturned l\<rparr>)"
| loop_ends: "elt_thread s = ThLooping l \<Longrightarrow> elt_step s (s\<lparr>elt_loop := None, elt_thread := ThDone\<rparr>)"

text \<open>The destructor: tell the loop to quit and join, when there is one. (\<open>Some l\<close>: the loop told.)\<close>

definition destroy_EventLoopThread :: "EventLoopThread \<Rightarrow> nat option \<times> EventLoopThread" where
  "destroy_EventLoopThread s = (elt_loop s, s\<lparr>elt_exiting := True\<rparr>)"

section \<open>The pool\<close>

record EventLoopThreadPool =
  baseLoop :: nat
  tp_name :: string
  tp_started :: bool
  numThreads :: int
  next_index :: nat
  thread_names :: "string list"
  loops :: "nat list"

definition new_EventLoopThreadPool :: "nat \<Rightarrow> string \<Rightarrow> EventLoopThreadPool" where
  "new_EventLoopThreadPool base name =
     \<lparr>baseLoop = base, tp_name = name, tp_started = False, numThreads = 0, next_index = 0,
      thread_names = [], loops = []\<rparr>"

definition setThreadNum_pool :: "int \<Rightarrow> EventLoopThreadPool \<Rightarrow> EventLoopThreadPool" where
  "setThreadNum_pool n p = p\<lparr>numThreads := n\<rparr>"

text \<open>
  \<open>start\<close>: thread \<open>i\<close> is named after the pool and gets the loop \<open>new_loop i\<close>, the address its
  \<open>startLoop\<close> returns. The result includes whether the callback is run on the base loop.
\<close>

definition start_pool :: "(nat \<Rightarrow> nat) \<Rightarrow> bool \<Rightarrow> EventLoopThreadPool \<Rightarrow> bool \<times> EventLoopThreadPool" where
  "start_pool new_loop has_cb p =
     (numThreads p = 0 \<and> has_cb,
      p\<lparr>tp_started := True,
        thread_names := thread_names p @ map (\<lambda>i. take (length (tp_name p) + 31) (tp_name p @ show_nat i)) [0..<nat (numThreads p)],
        loops := loops p @ map new_loop [0..<nat (numThreads p)]\<rparr>)"

definition getNextLoop :: "EventLoopThreadPool \<Rightarrow> nat result \<times> EventLoopThreadPool" where
  "getNextLoop p =
     (if loops p \<noteq> []
      then (if next_index p < length (loops p) then Inr (loops p ! next_index p) else Inl OutOfBounds,
            p\<lparr>next_index := (if next_index p + 1 \<ge> length (loops p) then 0 else next_index p + 1)\<rparr>)
      else (Inr (baseLoop p), p))"

definition getAllLoops :: "EventLoopThreadPool \<Rightarrow> nat list" where
  "getAllLoops p = (if loops p = [] then [baseLoop p] else loops p)"

section \<open>Lemmas\<close>

inductive elt_reach :: "EventLoopThread \<Rightarrow> bool" where
  elt_init: "elt_reach new_EventLoopThread"
| elt_next: "elt_reach s \<Longrightarrow> elt_step s s' \<Longrightarrow> elt_reach s'"

text \<open>The published loop is the running one; the starter returns no other.\<close>

definition elt_inv :: "EventLoopThread \<Rightarrow> bool" where
  "elt_inv s \<longleftrightarrow> (case elt_thread s of
      ThCreating \<Rightarrow> elt_loop s = None \<and> elt_starter s = StWaiting
    | ThLooping l \<Rightarrow> elt_loop s = Some l \<and> (elt_starter s = StWaiting \<or> elt_starter s = StReturned l)
    | ThDone \<Rightarrow> elt_loop s = None)"

lemma elt_reach_inv: "elt_reach s \<Longrightarrow> elt_inv s"
proof (induction rule: elt_reach.induct)
  case elt_init
  then show ?case by (simp add: elt_inv_def new_EventLoopThread_def)
next
  case (elt_next s s')
  from elt_next(2,3) show ?case
    by (cases rule: elt_step.cases) (auto simp: elt_inv_def split: thread_pc.splits)
qed

fun take_loops :: "nat \<Rightarrow> EventLoopThreadPool \<Rightarrow> nat result list \<times> EventLoopThreadPool" where
  "take_loops 0 p = ([], p)"
| "take_loops (Suc k) p = (let (l, p1) = getNextLoop p; (ls, p2) = take_loops k p1 in (l # ls, p2))"

definition pool_inv :: "EventLoopThreadPool \<Rightarrow> bool" where
  "pool_inv p \<longleftrightarrow> (loops p = [] \<and> next_index p = 0) \<or> next_index p < length (loops p)"

lemma getNextLoop_step:
  assumes "loops p \<noteq> []" "next_index p < length (loops p)"
  shows "getNextLoop p = (Inr (loops p ! next_index p), p\<lparr>next_index := (next_index p + 1) mod length (loops p)\<rparr>)"
proof -
  have "(if next_index p + 1 \<ge> length (loops p) then 0 else next_index p + 1) = (next_index p + 1) mod length (loops p)"
    using assms(2) by (cases "next_index p + 1 = length (loops p)") auto
  then show ?thesis using assms by (simp add: getNextLoop_def)
qed

lemma take_loops_eq:
  assumes "loops p \<noteq> []" "next_index p < length (loops p)"
  shows "take_loops k p = (map (\<lambda>i. Inr (loops p ! ((next_index p + i) mod length (loops p)))) [0..<k],
    p\<lparr>next_index := (next_index p + k) mod length (loops p)\<rparr>)"
  using assms
proof (induction k arbitrary: p)
  case (Suc k)
  define n where "n = length (loops p)"
  define p1 where "p1 = p\<lparr>next_index := (next_index p + 1) mod n\<rparr>"
  have n: "0 < n" "next_index p < n" using Suc.prems by (simp_all add: n_def)
  have p1: "loops p1 = loops p" "next_index p1 = (next_index p + 1) mod n" "next_index p1 < n"
    using n by (simp_all add: p1_def)
  have ih: "take_loops k p1 = (map (\<lambda>i. Inr (loops p ! (((next_index p + 1) mod n + i) mod n))) [0..<k],
      p1\<lparr>next_index := ((next_index p + 1) mod n + k) mod n\<rparr>)"
    using Suc.IH[of p1] Suc.prems(1) p1 by (simp add: n_def)
  have "[0..<Suc k] = 0 # map Suc [0..<k]" by (simp add: map_Suc_upt upt_conv_Cons)
  then show ?case using getNextLoop_step[OF Suc.prems] ih n
    by (simp add: n_def[symmetric] p1_def mod_simps mod_add_left_eq)
qed simp

lemma start_pool_inv: "pool_inv p \<Longrightarrow> pool_inv (snd (start_pool f cb p))"
  by (auto simp: pool_inv_def start_pool_def)

section \<open>Properties\<close>

text \<open>
  C29: the pool serves its loops in turn. After \<open>start\<close> with \<open>n\<close> threads, \<open>k\<close> calls of \<open>getNextLoop\<close>
  give the loops of the threads \<open>0, 1, \<dots>\<close> modulo \<open>n\<close>, never an index out of range; in particular any
  \<open>n\<close> calls in a row give each loop exactly once. Without threads every call gives the base loop.
\<close>

theorem getNextLoop_round_robin:
  assumes "start_pool new_loop has_cb (setThreadNum_pool (int n) (new_EventLoopThreadPool base name)) = (cb, p)"
    and "inj_on new_loop {0..<n}"
  shows "(0 < n \<longrightarrow> fst (take_loops k p) = map (\<lambda>i. Inr (new_loop (i mod n))) [0..<k] \<and>
      (\<forall>j. fst (take_loops n (snd (take_loops j p))) =
        map (\<lambda>i. Inr (new_loop ((j + i) mod n))) [0..<n] \<and> distinct (fst (take_loops n (snd (take_loops j p)))))) \<and>
    (n = 0 \<longrightarrow> fst (take_loops k p) = replicate k (Inr base))"
proof -
  have p: "loops p = map new_loop [0..<n]" "next_index p = 0" "baseLoop p = base"
    using assms(1) by (auto simp: start_pool_def setThreadNum_pool_def new_EventLoopThreadPool_def)
  have rr: "take_loops k q = (map (\<lambda>i. Inr (new_loop ((next_index q + i) mod n))) [0..<k],
      q\<lparr>next_index := (next_index q + k) mod n\<rparr>)" if "loops q = loops p" "next_index q < n" "0 < n" for q k
    using take_loops_eq[of q k] that p(1) by simp
  have "distinct (map (\<lambda>i. Inr (new_loop ((j + i) mod n)) :: nat result) [0..<n])" if "0 < n" for j
  proof -
    have "i1 = i2" if "i1 < n" "i2 < n" "new_loop ((j + i1) mod n) = new_loop ((j + i2) mod n)" for i1 i2
    proof -
      have "(j + i1) mod n = (j + i2) mod n"
        using assms(2) that \<open>0 < n\<close> by (auto simp: inj_on_def)
      then obtain q1 q2 where "j + i1 + n * q1 = j + i2 + n * q2" by (auto simp: nat_mod_eq_iff)
      then have "i1 mod n = i2 mod n" by (auto simp: nat_mod_eq_iff)
      then show ?thesis using that by simp
    qed
    then show ?thesis by (simp add: distinct_map inj_on_def)
  qed
  moreover have "fst (take_loops k p) = replicate k (Inr base)" if "n = 0"
    using that p by (induction k) (auto simp: getNextLoop_def split: prod.splits)
  ultimately show ?thesis using p rr[of p] rr by (auto simp: mod_simps)
qed

theorem getNextLoop_round_robin_witness:
  "fst (take_loops 5 (snd (start_pool (\<lambda>i. 100 + i) False (setThreadNum_pool 2 (new_EventLoopThreadPool 1 ''srv''))))) =
     [Inr 100, Inr 101, Inr 100, Inr 101, Inr 100]"
proof -
  obtain cb p where p: "start_pool (\<lambda>i. 100 + i) False (setThreadNum_pool (int 2) (new_EventLoopThreadPool 1 ''srv'')) = (cb, p)"
    by fastforce
  have "inj_on (\<lambda>i. 100 + i :: nat) {0..<2}" by simp
  from getNextLoop_round_robin[OF p this, of 5]
  have "fst (take_loops 5 p) = map (\<lambda>i. Inr (100 + i mod 2)) [0..<5]" by simp
  also have "\<dots> = [Inr 100, Inr 101, Inr 100, Inr 101, Inr 100]" by (simp add: upt_rec)
  finally show ?thesis using p by simp
qed

end
