(* ===== verification/Tcp_Server.thy ===== *)
theory Tcp_Server
  imports Tcp_Connection Net_Address Loop_Pool
begin

text \<open>
  \<open>src/src/net/Acceptor.h\<close>, \<open>Acceptor.cc\<close>, \<open>TcpServer.h\<close> and \<open>TcpServer.cc\<close>. The acceptor's channel
  lives in the poller of the base loop. A connection object is identified by its descriptor, its
  loop and its name; the functors the server passes to the loops are the effects it returns.
\<close>

section \<open>Acceptor\<close>

record Acceptor =
  ac_fd :: int
  ac_channel :: addr
  ac_callback :: bool
  ac_listening :: bool

definition createNonblocking :: "int \<Rightarrow> int result" where
  "createNonblocking fd = (if fd < 0 then Inl Aborted else Inr fd)"

text \<open>The two option calls are as in the source: \<open>reuseport\<close> goes to \<open>SO_REUSEADDR\<close>.\<close>

definition new_Acceptor :: "int \<Rightarrow> bool \<Rightarrow> addr \<Rightarrow> InetAddress \<Rightarrow> bool \<Rightarrow> Poller \<Rightarrow>
    (Acceptor \<times> sock_call list \<times> Poller) result" where
  "new_Acceptor fd bind_failed ch listenAddr reuseport p =
     bind_r (createNonblocking fd) (\<lambda>sockfd.
     bind_r (bindAddress bind_failed sockfd listenAddr) (\<lambda>b.
       Inr (\<lparr>ac_fd = sockfd, ac_channel = ch, ac_callback = False, ac_listening = False\<rparr>,
            setReuseAddr reuseport sockfd @ setReusePort True sockfd @ b,
            p\<lparr>heap := (heap p)(ch \<mapsto> setReadCallback (new_Channel sockfd))\<rparr>)))"

definition setNewConnectionCallback :: "Acceptor \<Rightarrow> Acceptor" where
  "setNewConnectionCallback a = a\<lparr>ac_callback := True\<rparr>"

text \<open>The destructor of the member \<open>acceptSocket_\<close> follows the body.\<close>

definition destroy_Acceptor :: "Acceptor \<Rightarrow> Poller \<Rightarrow> (sock_call list \<times> Poller) result" where
  "destroy_Acceptor a p =
     bind_r (channel_op False DisableAll (ac_channel a) p) (\<lambda>p1.
     bind_r (removeChannel False (ac_channel a) p1) (\<lambda>p2. Inr (destroy_Socket (ac_fd a), p2)))"

definition listen_acceptor :: "bool \<Rightarrow> Acceptor \<Rightarrow> Poller \<Rightarrow> (Acceptor \<times> sock_call list \<times> Poller) result" where
  "listen_acceptor failed a p =
     bind_r (listen_socket failed (ac_fd a)) (\<lambda>calls.
     bind_r (channel_op False EnableReading (ac_channel a) p) (\<lambda>p'.
       Inr (a\<lparr>ac_listening := True\<rparr>, calls, p')))"

datatype accept_effect = NewConnection int InetAddress | CloseConn int | LogAcceptFailed | LogFdLimit

definition handleRead_acceptor :: "(int \<times> InetAddress) option \<Rightarrow> errno \<Rightarrow> Acceptor \<Rightarrow> accept_effect list" where
  "handleRead_acceptor r e a =
     (let (connfd, peerAddr) = accept_socket r (new_InetAddress 0 ''127.0.0.1'') in
      if connfd \<ge> 0
      then if ac_callback a then [NewConnection connfd peerAddr] else [CloseConn connfd]
      else [LogAcceptFailed] @ (if e = EMFILE then [LogFdLimit] else []))"

section \<open>TcpServer\<close>

datatype Option = kNoReusePort | kReusePort

record conn_obj =
  co_name :: string
  co_fd :: int
  co_loop :: nat
  co_local :: InetAddress
  co_peer :: InetAddress

datatype server_effect = RunEstablished nat conn_obj | QueueDestroyed nat conn_obj | RunDestroyed nat conn_obj
  | RunListen nat | RunRemove nat conn_obj

record TcpServer =
  ts_loop :: nat
  ipPort :: string
  ts_name :: string
  acceptor :: Acceptor
  threadPool :: EventLoopThreadPool
  started :: "32 word"
  nextConnId :: int
  connections :: "string \<rightharpoonup> conn_obj"

text \<open>
  \<open>fd\<close>, \<open>bind_failed\<close> and \<open>ch\<close> are the listening descriptor \<open>socket\<close> returned, whether \<open>bind\<close>
  failed, and the address of the acceptor's channel.
\<close>

definition new_TcpServer :: "bool \<Rightarrow> nat \<Rightarrow> InetAddress \<Rightarrow> string \<Rightarrow> Option \<Rightarrow> int \<Rightarrow> bool \<Rightarrow> addr \<Rightarrow> Poller \<Rightarrow>
    (TcpServer \<times> sock_call list \<times> Poller) result" where
  "new_TcpServer loop_null lp listenAddr nameArg option fd bind_failed ch p =
     (if loop_null then Inl Aborted
      else bind_r (toIpPort listenAddr) (\<lambda>ip.
           bind_r (new_Acceptor fd bind_failed ch listenAddr (option = kReusePort) p) (\<lambda>(a, calls, p').
        Inr (\<lparr>ts_loop = lp, ipPort = ip, ts_name = nameArg, acceptor = setNewConnectionCallback a,
              threadPool = new_EventLoopThreadPool lp nameArg, started = 0, nextConnId = 1,
              connections = Map.empty\<rparr>, calls, p'))))"

definition setThreadNum :: "int \<Rightarrow> TcpServer \<Rightarrow> TcpServer" where
  "setThreadNum n s = s\<lparr>threadPool := setThreadNum_pool n (threadPool s)\<rparr>"

definition start :: "(nat \<Rightarrow> nat) \<Rightarrow> bool \<Rightarrow> TcpServer \<Rightarrow> server_effect list \<times> TcpServer" where
  "start new_loop has_cb s =
     (let s1 = s\<lparr>started := started s + 1\<rparr> in
      if started s = 0
      then ([RunListen (ts_loop s)], s1\<lparr>threadPool := snd (start_pool new_loop has_cb (threadPool s))\<rparr>)
      else ([], s1))"

text \<open>The name of a connection: at most 63 characters follow the server's name.\<close>

definition conn_name :: "TcpServer \<Rightarrow> string" where
  "conn_name s = ts_name s @ take 63 (''-'' @ ipPort s @ ''#'' @ show_int (nextConnId s))"

text \<open>\<open>getsockname\<close> gives the local address; when it fails (\<open>None\<close>) the zeroed structure is used.\<close>

definition newConnection :: "InetAddress option \<Rightarrow> int \<Rightarrow> InetAddress \<Rightarrow> TcpServer \<Rightarrow>
    (server_effect list \<times> TcpServer) result" where
  "newConnection sockname sockfd peerAddr s =
     (let (l, pool) = getNextLoop (threadPool s); connName = conn_name s;
          localAddr = (case sockname of Some a \<Rightarrow> a | None \<Rightarrow> \<lparr>sin_port = 0, s_addr = (0, 0, 0, 0)\<rparr>) in
      bind_r l (\<lambda>ioLoop.
        if nextConnId s = 2 ^ 31 - 1 then Inl Undefined
        else let conn = \<lparr>co_name = connName, co_fd = sockfd, co_loop = ioLoop, co_local = localAddr, co_peer = peerAddr\<rparr> in
          Inr ([RunEstablished ioLoop conn],
               s\<lparr>threadPool := pool, nextConnId := nextConnId s + 1,
                 connections := (connections s)(connName \<mapsto> conn)\<rparr>)))"

definition removeConnection :: "conn_obj \<Rightarrow> TcpServer \<Rightarrow> server_effect list" where
  "removeConnection conn s = [RunRemove (ts_loop s) conn]"

definition removeConnectionInLoop :: "conn_obj \<Rightarrow> TcpServer \<Rightarrow> server_effect list \<times> TcpServer" where
  "removeConnectionInLoop conn s =
     ([QueueDestroyed (co_loop conn) conn], s\<lparr>connections := (connections s)(co_name conn := None)\<rparr>)"

text \<open>
  The destructor releases every connection, in the order \<open>cs\<close> the map is iterated in; the member
  \<open>acceptor_\<close> is destroyed after the body.
\<close>

definition destroy_TcpServer :: "conn_obj list \<Rightarrow> TcpServer \<Rightarrow> Poller \<Rightarrow>
    (server_effect list \<times> sock_call list \<times> Poller) result" where
  "destroy_TcpServer cs s p =
     bind_r (destroy_Acceptor (acceptor s) p) (\<lambda>(calls, p').
       Inr (map (\<lambda>c. RunDestroyed (co_loop c) c) cs, calls, p'))"

section \<open>Lemmas\<close>

lemma show_nat_inj: "show_nat m = show_nat n \<Longrightarrow> m = n"
  by (metis digits_val_show_nat)

text \<open>Names of connections of one server differ while the counter fits an \<open>int\<close>.\<close>

lemma conn_name_inj:
  assumes "ts_name s = ts_name t" "ipPort s = ipPort t" "length (ipPort s) \<le> 50"
    and "0 < nextConnId s" "nextConnId s < 2 ^ 31" "0 < nextConnId t" "nextConnId t < 2 ^ 31"
    and "conn_name s = conn_name t"
  shows "nextConnId s = nextConnId t"
proof -
  have l: "length (show_nat (nat i)) \<le> 10" if "0 < i" "i < 2 ^ 31" for i :: int
    using that by (intro length_show_nat) auto
  have "show_int (nextConnId s) = show_int (nextConnId t)"
    using assms l[of "nextConnId s"] l[of "nextConnId t"] by (simp add: conn_name_def show_int_def)
  then show ?thesis using assms(4,6) show_nat_inj[of "nat (nextConnId s)" "nat (nextConnId t)"]
    by (simp add: show_int_def)
qed

datatype server_event = Accept "InetAddress option" int InetAddress | Remove string

fun run_events :: "server_event list \<Rightarrow> TcpServer \<Rightarrow> TcpServer result" where
  "run_events [] s = Inr s"
| "run_events (Accept sn fd peer # es) s = bind_r (newConnection sn fd peer s) (\<lambda>(_, s'). run_events es s')"
| "run_events (Remove n # es) s =
     (case connections s n of None \<Rightarrow> run_events es s
      | Some c \<Rightarrow> run_events es (snd (removeConnectionInLoop c s)))"

text \<open>
  The invariant of the server's map: an entry is filed under its own name, and the name was made
  with an earlier value of the counter.
\<close>

definition server_inv :: "TcpServer \<Rightarrow> bool" where
  "server_inv s \<longleftrightarrow> pool_inv (threadPool s) \<and> 0 < nextConnId s \<and> nextConnId s < 2 ^ 31 \<and> length (ipPort s) \<le> 50 \<and>
     (\<forall>n c. connections s n = Some c \<longrightarrow> co_name c = n \<and>
        (\<exists>i. 0 < i \<and> i < nextConnId s \<and> n = conn_name (s\<lparr>nextConnId := i\<rparr>)))"

lemma getNextLoop_inv:
  "pool_inv p \<Longrightarrow> \<exists>l p'. getNextLoop p = (Inr l, p') \<and> pool_inv p' \<and> l \<in> set (getAllLoops p) \<and> loops p' = loops p"
proof (cases "loops p = []")
  case True
  assume "pool_inv p"
  with True show ?thesis by (simp add: getNextLoop_def getAllLoops_def)
next
  case False
  assume "pool_inv p"
  with False have n: "next_index p < length (loops p)" by (simp add: pool_inv_def)
  then show ?thesis using getNextLoop_step[OF False n] False
    by (simp add: pool_inv_def getAllLoops_def mod_less_divisor)
qed

lemma conn_name_cong:
  "ts_name s = ts_name t \<Longrightarrow> ipPort s = ipPort t \<Longrightarrow> nextConnId s = nextConnId t \<Longrightarrow> conn_name s = conn_name t"
  by (simp add: conn_name_def)

lemma conn_name_fresh:
  assumes "server_inv s"
  shows "connections s (conn_name s) = None"
proof (rule ccontr)
  assume "connections s (conn_name s) \<noteq> None"
  then obtain i where i: "0 < i" "i < nextConnId s" "conn_name s = conn_name (s\<lparr>nextConnId := i\<rparr>)"
    using assms by (auto simp: server_inv_def)
  then have "nextConnId s = nextConnId (s\<lparr>nextConnId := i\<rparr>)"
    using assms by (intro conn_name_inj) (auto simp: server_inv_def)
  with i(2) show False by simp
qed

lemma newConnection_inv:
  assumes "server_inv s" "nextConnId s < 2 ^ 31 - 1"
  shows "\<exists>c s'. newConnection sn fd peer s = Inr ([RunEstablished (co_loop c) c], s') \<and> co_name c = conn_name s \<and>
    co_fd c = fd \<and> co_peer c = peer \<and> server_inv s' \<and> nextConnId s' = nextConnId s + 1 \<and>
    co_loop c \<in> set (getAllLoops (threadPool s)) \<and> connections s' = (connections s)(conn_name s \<mapsto> c)"
proof -
  obtain l p' where g: "getNextLoop (threadPool s) = (Inr l, p')" "pool_inv p'"
      "l \<in> set (getAllLoops (threadPool s))"
    using getNextLoop_inv[of "threadPool s"] assms(1) unfolding server_inv_def by blast
  define c where "c = \<lparr>co_name = conn_name s, co_fd = fd, co_loop = l,
      co_local = (case sn of Some a \<Rightarrow> a | None \<Rightarrow> \<lparr>sin_port = 0, s_addr = (0, 0, 0, 0)\<rparr>), co_peer = peer\<rparr>"
  define s' where "s' = s\<lparr>threadPool := p', nextConnId := nextConnId s + 1,
      connections := (connections s)(conn_name s \<mapsto> c)\<rparr>"
  have "server_inv s'"
    unfolding server_inv_def
  proof (intro conjI allI impI)
    show "pool_inv (threadPool s')" "0 < nextConnId s'" "nextConnId s' < 2 ^ 31" "length (ipPort s') \<le> 50"
      using g(2) assms by (simp_all add: s'_def server_inv_def)
    fix n d
    assume d: "connections s' n = Some d"
    have nm: "conn_name (s'\<lparr>nextConnId := i\<rparr>) = conn_name (s\<lparr>nextConnId := i\<rparr>)" for i
      by (rule conn_name_cong) (simp_all add: s'_def)
    show "co_name d = n" using d assms(1) by (auto simp: s'_def c_def server_inv_def split: if_splits)
    show "\<exists>i. 0 < i \<and> i < nextConnId s' \<and> n = conn_name (s'\<lparr>nextConnId := i\<rparr>)"
    proof (cases "n = conn_name s")
      case True
      then show ?thesis unfolding nm using assms(1)
        by (intro exI[of _ "nextConnId s"]) (simp add: s'_def server_inv_def)
    next
      case False
      with d have "connections s n = Some d" by (simp add: s'_def)
      then obtain i where "0 < i" "i < nextConnId s" "n = conn_name (s\<lparr>nextConnId := i\<rparr>)"
        using assms(1) unfolding server_inv_def by blast
      then show ?thesis unfolding nm by (intro exI[of _ i]) (simp add: s'_def)
    qed
  qed
  moreover have "newConnection sn fd peer s = Inr ([RunEstablished (co_loop c) c], s')"
    using g(1) assms(2) by (simp add: newConnection_def s'_def c_def Let_def)
  ultimately show ?thesis using g(3) by (intro exI[of _ c] exI[of _ s']) (simp add: s'_def c_def)
qed

lemma removeConnectionInLoop_inv:
  assumes "server_inv s"
  shows "server_inv (snd (removeConnectionInLoop c s))"
proof -
  define s1 where "s1 = snd (removeConnectionInLoop c s)"
  have nm: "conn_name (s1\<lparr>nextConnId := i\<rparr>) = conn_name (s\<lparr>nextConnId := i\<rparr>)" for i
    by (rule conn_name_cong) (simp_all add: s1_def removeConnectionInLoop_def)
  have "connections s n = Some d" if "connections s1 n = Some d" for n d
    using that by (auto simp: s1_def removeConnectionInLoop_def split: if_splits)
  moreover have "threadPool s1 = threadPool s" "nextConnId s1 = nextConnId s" "ipPort s1 = ipPort s"
    by (simp_all add: s1_def removeConnectionInLoop_def)
  ultimately show ?thesis using assms unfolding server_inv_def s1_def[symmetric] nm by auto
qed

text \<open>Every sequence of events keeps the invariant, and the counter counts the accepted ones.\<close>

lemma run_events_ok:
  assumes "server_inv s" "nextConnId s + int (length es) < 2 ^ 31"
  shows "\<exists>s'. run_events es s = Inr s' \<and> server_inv s' \<and> nextConnId s' \<le> nextConnId s + int (length es)"
  using assms
proof (induction es arbitrary: s)
  case (Cons e es)
  show ?case
  proof (cases e)
    case (Accept sn fd peer)
    obtain x s1 where s1: "newConnection sn fd peer s = Inr (x, s1)" "server_inv s1" "nextConnId s1 = nextConnId s + 1"
      using newConnection_inv[OF Cons.prems(1), of sn fd peer] Cons.prems(2) by auto
    then obtain s' where "run_events es s1 = Inr s'" "server_inv s'" "nextConnId s' \<le> nextConnId s1 + int (length es)"
      using Cons.IH[OF s1(2)] Cons.prems(2) by auto
    then show ?thesis using s1 Accept by simp
  next
    case (Remove n)
    define s1 where "s1 = (case connections s n of None \<Rightarrow> s | Some c \<Rightarrow> snd (removeConnectionInLoop c s))"
    have s1: "server_inv s1" "nextConnId s1 = nextConnId s"
      using removeConnectionInLoop_inv[OF Cons.prems(1)] Cons.prems(1)
      by (simp_all add: s1_def removeConnectionInLoop_def split: option.splits)
    then obtain s' where "run_events es s1 = Inr s'" "server_inv s'" "nextConnId s' \<le> nextConnId s1 + int (length es)"
      using Cons.IH[OF s1(1)] Cons.prems(2) by auto
    then show ?thesis using s1 Remove by (cases "connections s n") (simp_all add: s1_def)
  qed
qed simp

lemma new_TcpServer_inv:
  assumes "new_TcpServer False l (new_InetAddress port ip) name opt fd bf ch p = Inr (s, calls, p')"
  shows "server_inv (snd (start new_loop cb (setThreadNum n s)))"
    and "nextConnId (snd (start new_loop cb (setThreadNum n s))) = 1"
proof -
  have s: "ipPort s = ''0.0.0.0:'' @ show_nat (unat port)" "threadPool s = new_EventLoopThreadPool l name"
      "nextConnId s = 1" "connections s = Map.empty" "started s = 0"
    using assms toIpPort_new[of port ip] by (auto simp: new_TcpServer_def bind_r_eq_Inr)
  have "length (show_nat (unat port)) \<le> 5" using toIpPort_new[of port ip] by simp
  with s show "server_inv (snd (start new_loop cb (setThreadNum n s)))"
    by (auto simp: server_inv_def start_def setThreadNum_def Let_def pool_inv_def start_pool_def
          new_EventLoopThreadPool_def setThreadNum_pool_def)
  show "nextConnId (snd (start new_loop cb (setThreadNum n s))) = 1"
    using s by (simp add: start_def setThreadNum_def Let_def)
qed

section \<open>Properties\<close>

text \<open>
  C23: the server's table of connections. A server is constructed and started; any sequence of accepted
  and removed connections that does not exhaust the counter succeeds, and after it the next accepted
  connection gets a name that no connection in the table has, so it replaces none. It is assigned to
  one of the server's loops, where its establishment is scheduled, and removing it takes out its entry
  and no other and schedules its destruction in that same loop.
\<close>

theorem connections_keyed_uniquely:
  assumes "new_TcpServer False l (new_InetAddress port ip) name opt lfd bf ch p = Inr (s0, calls, p')"
    and "s = snd (start new_loop cb (setThreadNum n s0))" "int (length es) < 2 ^ 31 - 3"
  shows "\<exists>s1. run_events es s = Inr s1 \<and>
    (\<exists>c s2. newConnection sn fd peer s1 = Inr ([RunEstablished (co_loop c) c], s2) \<and> co_fd c = fd \<and> co_peer c = peer \<and>
      co_loop c \<in> set (getAllLoops (threadPool s1)) \<and>
      connections s2 = (connections s1)(co_name c \<mapsto> c) \<and> connections s1 (co_name c) = None \<and>
      (\<exists>s3. removeConnectionInLoop c s2 = ([QueueDestroyed (co_loop c) c], s3) \<and> connections s3 = connections s1))"
proof -
  have inv: "server_inv s" "nextConnId s = 1" using new_TcpServer_inv[OF assms(1)] assms(2) by simp_all
  moreover have "nextConnId s + int (length es) < 2 ^ 31" using assms(3) inv(2) by simp
  ultimately obtain s1 where s1: "run_events es s = Inr s1" "server_inv s1" "nextConnId s1 \<le> nextConnId s + int (length es)"
    using run_events_ok by blast
  then have "nextConnId s1 < 2 ^ 31 - 1" using assms(3) inv(2) by simp
  then obtain c s2 where c: "newConnection sn fd peer s1 = Inr ([RunEstablished (co_loop c) c], s2)" "co_name c = conn_name s1"
      "co_fd c = fd" "co_peer c = peer" "co_loop c \<in> set (getAllLoops (threadPool s1))"
      "connections s2 = (connections s1)(conn_name s1 \<mapsto> c)"
    using newConnection_inv[OF s1(2)] by blast
  have "connections (snd (removeConnectionInLoop c s2)) = connections s1"
    using c(2,6) conn_name_fresh[OF s1(2)] by (auto simp: removeConnectionInLoop_def fun_upd_idem)
  then have r: "\<exists>s3. removeConnectionInLoop c s2 = ([QueueDestroyed (co_loop c) c], s3) \<and> connections s3 = connections s1"
    by (simp add: removeConnectionInLoop_def)
  show ?thesis
    by (rule exI[of _ s1], rule conjI, rule s1(1), rule exI[of _ c], rule exI[of _ s2])
      (use c r conn_name_fresh[OF s1(2)] in simp)
qed

theorem connections_keyed_uniquely_witness:
  "\<exists>q s0 calls p' s1. new_EPollPoller 5 = Inr q \<and>
     new_TcpServer False 1 (new_InetAddress 8080 ''127.0.0.1'') ''http'' kNoReusePort 3 False 70 q = Inr (s0, calls, p') \<and>
     run_events [Accept None 7 (new_InetAddress 9 ''a''), Accept None 8 (new_InetAddress 10 ''b''), Remove ''http-0.0.0.0:8080#1'']
       (snd (start (\<lambda>i. 10 + i) False (setThreadNum 2 s0))) = Inr s1 \<and>
     (\<exists>c s2. newConnection None 9 (new_InetAddress 11 ''c'') s1 = Inr ([RunEstablished (co_loop c) c], s2) \<and>
       connections s1 (co_name c) = None \<and> connections s2 (co_name c) = Some c)"
proof -
  obtain q where q: "new_EPollPoller 5 = Inr q" by (simp add: new_EPollPoller_def)
  obtain s0 calls p' where s0: "new_TcpServer False 1 (new_InetAddress 8080 ''127.0.0.1'') ''http'' kNoReusePort 3 False 70 q = Inr (s0, calls, p')"
    using toIpPort_new[of 8080] by (simp add: new_TcpServer_def new_Acceptor_def createNonblocking_def bindAddress_def)
  have "int (length [Accept None 7 (new_InetAddress 9 ''a''), Accept None 8 (new_InetAddress 10 ''b''), Remove ''http-0.0.0.0:8080#1'']) < 2 ^ 31 - 3"
    by simp
  from connections_keyed_uniquely[OF s0 refl this, where new_loop = "\<lambda>i. 10 + i" and cb = False and n = 2
      and sn = None and fd = 9 and peer = "new_InetAddress 11 ''c''"] s0 q
  show ?thesis by fastforce
qed

end
