(* ===== verification/Http_Server.thy ===== *)
theory Http_Server
  imports Http_Response Tcp_Server
begin

text \<open>
  \<open>src/src/http/HttpServer.h\<close> and \<open>HttpServer.cc\<close>: the generic HTTP server. It parses every message
  with a fresh context and answers with what the user's callback, an argument here, makes of the
  request.
\<close>

section \<open>Operations\<close>

definition defaultHttpCallback :: "HttpRequest \<Rightarrow> HttpResponse \<Rightarrow> HttpResponse" where
  "defaultHttpCallback req resp =
     setCloseConnection True (setStatusMessage ''Not Found'' (setStatusCode k404NotFound resp))"

text \<open>
  The object is the \<open>TcpServer\<close> and the callback; the constructor's arguments are those of
  \<open>new_TcpServer\<close>. The two callbacks it gives to the server are \<open>onConnection_http\<close> and
  \<open>onMessage_http\<close> below.
\<close>

record HttpServer =
  hs_server :: TcpServer
  httpCallback :: "HttpRequest \<Rightarrow> HttpResponse \<Rightarrow> HttpResponse"

definition new_HttpServer :: "bool \<Rightarrow> nat \<Rightarrow> InetAddress \<Rightarrow> string \<Rightarrow> Option \<Rightarrow> int \<Rightarrow> bool \<Rightarrow> addr \<Rightarrow> Poller \<Rightarrow>
    (HttpServer \<times> sock_call list \<times> Poller) result" where
  "new_HttpServer loop_null lp listenAddr name option fd bind_failed ch p =
     bind_r (new_TcpServer loop_null lp listenAddr name option fd bind_failed ch p) (\<lambda>(s, calls, p').
       Inr (\<lparr>hs_server = setThreadNum 4 s, httpCallback = defaultHttpCallback\<rparr>, calls, p'))"

definition getLoop_http :: "HttpServer \<Rightarrow> nat" where
  "getLoop_http h = ts_loop (hs_server h)"

definition setHttpCallback :: "(HttpRequest \<Rightarrow> HttpResponse \<Rightarrow> HttpResponse) \<Rightarrow> HttpServer \<Rightarrow> HttpServer" where
  "setHttpCallback cb h = h\<lparr>httpCallback := cb\<rparr>"

definition start_http :: "(nat \<Rightarrow> nat) \<Rightarrow> bool \<Rightarrow> HttpServer \<Rightarrow> server_effect list \<times> HttpServer" where
  "start_http new_loop has_cb h =
     (let (es, s) = start new_loop has_cb (hs_server h) in (es, h\<lparr>hs_server := s\<rparr>))"

text \<open>The log line of a connection event.\<close>

definition onConnection_http :: "TcpConnection \<Rightarrow> string" where
  "onConnection_http c = (if connected c then ''new Connection arrived'' else ''Connection closed'')"

text \<open>\<open>close\<close> is computed from the request and then overwritten with true.\<close>

definition onRequest_http :: "((string \<rightharpoonup> string) \<Rightarrow> (string \<times> string) list) \<Rightarrow>
    HttpServer \<Rightarrow> write_result \<Rightarrow> HttpRequest \<Rightarrow>
    TcpConnection \<Rightarrow> Poller \<Rightarrow> tc_result" where
  "onRequest_http order h wr req c p =
     (let response = httpCallback h req (new_HttpResponse True) in
      bind_r (appendToBuffer (order (rs_headers response)) response (new_Buffer kInitialSize)) (\<lambda>buf.
      bind_r (send_buffer True wr buf c p) (\<lambda>(b, fs, c1, p1, e1).
        if closeConnection response
        then bind_r (shutdown True c1 p1) (\<lambda>(fs2, c2, p2, e2). Inr (c2, p2, e1 @ e2))
        else Inr (c1, p1, e1))))"

definition bad_request_http :: string where
  "bad_request_http = ''HTTP/1.1 400 Bad Request'' @ crlf @ crlf"

definition onMessage_http :: "((string \<rightharpoonup> string) \<Rightarrow> (string \<times> string) list) \<Rightarrow>
    HttpServer \<Rightarrow> write_result \<Rightarrow> write_result \<Rightarrow> int \<Rightarrow>
    TcpConnection \<Rightarrow> Poller \<Rightarrow> tc_result" where
  "onMessage_http order h wr400 wr receiveTime c p =
     bind_r (parseRequest receiveTime new_HttpContext (tc_in c)) (\<lambda>(ok, ctx, buf).
       let c0 = c\<lparr>tc_in := buf\<rparr> in
       bind_r (if \<not> ok
               then bind_r (send_string True wr400 0 bad_request_http c0 p) (\<lambda>(f1, c1, p1, e1).
                    bind_r (shutdown True c1 p1) (\<lambda>(f2, c2, p2, e2). Inr (c2, p2, e1 @ e2)))
               else Inr (c0, p, [])) (\<lambda>(c3, p3, e3).
         if gotAll ctx
         then bind_r (onRequest_http order h wr (ctx_request ctx) c3 p3) (\<lambda>(c4, p4, e4).
                Inr (c4, p4, e3 @ e4))
         else Inr (c3, p3, e3)))"

section \<open>Lemmas\<close>

lemma parse_no_line:
  "findCRLF b = None \<Longrightarrow> parseRequest t new_HttpContext b = Inr (False, new_HttpContext, b)"
  by (subst parseRequest_def, subst parse_loop.simps) (simp add: new_HttpContext_def)

end
