(* ===== verification/Base_Timestamp.thy ===== *)
theory Base_Timestamp
  imports Prelude
begin

text \<open>
  \<open>src/src/base/Timestamp.h\<close> and \<open>Timestamp.cc\<close>: microseconds since the epoch in an \<open>int64_t\<close>.
  A \<open>double\<close> number of seconds enters only through two observations: whether it is positive, and
  the truncated number of microseconds \<open>static_cast<int64_t>(seconds * 1000000)\<close>.
\<close>

section \<open>Operations\<close>

type_synonym Timestamp = int

definition kMicroSecondsPerSecond :: int where "kMicroSecondsPerSecond = 1000 * 1000"

text \<open>From the seconds and microseconds \<open>gettimeofday\<close> returns.\<close>

definition timestamp_now :: "int \<Rightarrow> int \<Rightarrow> Timestamp" where
  "timestamp_now sec usec = sec * kMicroSecondsPerSecond + usec"

definition secondsSinceEpoch :: "Timestamp \<Rightarrow> int" where
  "secondsSinceEpoch t = tdiv t kMicroSecondsPerSecond"

definition invalid_timestamp :: Timestamp where "invalid_timestamp = 0"

record interval =
  iv_positive :: bool
  iv_micros :: int

definition addTime :: "Timestamp \<Rightarrow> interval \<Rightarrow> Timestamp" where
  "addTime t seconds = t + iv_micros seconds"

text \<open>The calendar fields \<open>localtime\<close> fills in, and the \<open>printf\<close> conversions used.\<close>

record tm =
  tm_year :: int
  tm_mon :: int
  tm_mday :: int
  tm_hour :: int
  tm_min :: int
  tm_sec :: int

definition pad_left :: "char \<Rightarrow> nat \<Rightarrow> string \<Rightarrow> string" where
  "pad_left c n s = replicate (n - length s) c @ s"

definition fmt_d :: "nat \<Rightarrow> int \<Rightarrow> string" where
  "fmt_d n i = pad_left (CHR '' '') n (show_int i)"

text \<open>Zero padding goes between the sign and the digits.\<close>

definition fmt_0d :: "nat \<Rightarrow> int \<Rightarrow> string" where
  "fmt_0d n i = (if i < 0 then ''-'' @ pad_left (CHR ''0'') (n - 1) (show_nat (nat (- i)))
                 else pad_left (CHR ''0'') n (show_nat (nat i)))"

definition format_tm :: "tm \<Rightarrow> string" where
  "format_tm t = fmt_d 4 (tm_year t + 1900) @ ''/'' @ fmt_0d 2 (tm_mon t + 1) @ ''/'' @ fmt_0d 2 (tm_mday t) @
     '' '' @ fmt_0d 2 (tm_hour t) @ '':'' @ fmt_0d 2 (tm_min t) @ '':'' @ fmt_0d 2 (tm_sec t)"

definition toFormattedString :: "(int \<Rightarrow> tm) \<Rightarrow> bool \<Rightarrow> Timestamp \<Rightarrow> string" where
  "toFormattedString localtime showMicroseconds t =
     (let seconds = tdiv t kMicroSecondsPerSecond; tm_time = localtime seconds in
      take 63 (if showMicroseconds
               then format_tm tm_time @ ''.'' @ fmt_0d 6 (tmod t kMicroSecondsPerSecond)
               else format_tm tm_time))"

section \<open>Lemmas\<close>

lemma timestamp_now_seconds: "0 \<le> s \<Longrightarrow> 0 \<le> u \<Longrightarrow> u < 1000000 \<Longrightarrow> secondsSinceEpoch (timestamp_now s u) = s"
  by (simp add: secondsSinceEpoch_def timestamp_now_def kMicroSecondsPerSecond_def)

lemma length_fmt_0d: "0 \<le> i \<Longrightarrow> i < 10 ^ n \<Longrightarrow> 0 < n \<Longrightarrow> length (fmt_0d n i) = n"
  using length_show_nat[of "nat i" n] by (simp add: fmt_0d_def pad_left_def nat_less_iff)

text \<open>For the years 1000 to 9999 the formatted time has 19 characters, 26 with microseconds.\<close>

definition tm_ok :: "tm \<Rightarrow> bool" where
  "tm_ok t \<longleftrightarrow> -900 \<le> tm_year t \<and> tm_year t < 8100 \<and> 0 \<le> tm_mon t \<and> tm_mon t < 12 \<and>
     1 \<le> tm_mday t \<and> tm_mday t \<le> 31 \<and> 0 \<le> tm_hour t \<and> tm_hour t < 24 \<and> 0 \<le> tm_min t \<and> tm_min t < 60 \<and>
     0 \<le> tm_sec t \<and> tm_sec t \<le> 60"

lemma show_nat_ge_length: "10 ^ k \<le> n \<Longrightarrow> k < length (show_nat n)"
proof (induction k arbitrary: n)
  case (Suc k)
  have "1 \<le> (10 :: nat) ^ k" by simp
  with Suc.prems have n: "\<not> n < 10" "10 ^ k \<le> n div 10"
    by (simp_all only: power_Suc less_eq_div_iff_mult_less_eq mult.commute zero_less_numeral)
  with Suc.IH[of "n div 10"] show ?case by (subst show_nat.simps) simp
qed simp

lemma length_fmt_year: "tm_ok t \<Longrightarrow> length (fmt_d 4 (tm_year t + 1900)) = 4"
proof -
  assume t: "tm_ok t"
  then have "nat (tm_year t + 1900) < 10 ^ 4" "10 ^ 3 \<le> nat (tm_year t + 1900)" by (auto simp: tm_ok_def)
  then have "length (show_nat (nat (tm_year t + 1900))) = 4"
    using length_show_nat[of "nat (tm_year t + 1900)" 4] show_nat_ge_length[of 3 "nat (tm_year t + 1900)"]
    by linarith
  with t show ?thesis by (simp add: fmt_d_def pad_left_def show_int_def tm_ok_def)
qed

lemma length_format_tm: "tm_ok t \<Longrightarrow> length (format_tm t) = 19"
proof -
  assume t: "tm_ok t"
  have "length (fmt_0d 2 (tm_mon t + 1)) = 2" "length (fmt_0d 2 (tm_mday t)) = 2"
      "length (fmt_0d 2 (tm_hour t)) = 2" "length (fmt_0d 2 (tm_min t)) = 2" "length (fmt_0d 2 (tm_sec t)) = 2"
    using t by (intro length_fmt_0d; simp add: tm_ok_def)+
  then show ?thesis using length_fmt_year[OF t] by (simp add: format_tm_def)
qed

end
