(* ===== verification/Timer_Queue.thy ===== *)
theory Timer_Queue
  imports Base_Timestamp EPoll_Poller "HOL-Library.Product_Lexorder"
begin

text \<open>
  \<open>src/src/timer/\<close>: \<open>Timer\<close> and \<open>TimerQueue\<close>, with \<open>EventLoop::runAt\<close>, \<open>runAfter\<close> and \<open>runEvery\<close>.
  \<open>timers_\<close>, a \<open>std::set\<close> of pairs of expiration and timer address, is the sorted list of its
  elements. Timers are heap objects. \<open>clk\<close> gives the results of the successive calls of
  \<open>Timestamp::now()\<close>, \<open>tq_tick\<close> counts them. \<open>tq_armed\<close> is the kernel timer: the time it will fire
  at, \<open>None\<close> when it is not running; it is one-shot, so having fired it is not running. The callbacks
  of the timers are the argument \<open>cb\<close>: the callback of the timer at an address acts on the queue (it may
  add timers) and on the rest of the program, a state of any type \<open>'w\<close>.
\<close>

section \<open>State and operations\<close>

record Timer =
  expiration :: Timestamp
  tm_interval :: interval
  repeat :: bool

definition new_Timer :: "Timestamp \<Rightarrow> interval \<Rightarrow> Timer" where
  "new_Timer when iv = \<lparr>expiration = when, tm_interval = iv, repeat = iv_positive iv\<rparr>"

definition restart :: "Timestamp \<Rightarrow> Timer \<Rightarrow> Timer" where
  "restart now t = (if repeat t then t\<lparr>expiration := addTime now (tm_interval t)\<rparr>
                    else t\<lparr>expiration := invalid_timestamp\<rparr>)"

type_synonym entry = "Timestamp \<times> addr"

record TimerQueue =
  timers :: "entry list"
  tq_heap :: "addr \<rightharpoonup> Timer"
  tq_armed :: "Timestamp option"
  tq_tick :: nat
  callingExpired :: bool

text \<open>A failing \<open>timerfd_create\<close> is logged only, its \<open>-1\<close> is used on.\<close>

definition createTimerfd :: "int \<Rightarrow> int" where "createTimerfd fd = fd"

definition new_TimerQueue :: "int \<Rightarrow> addr \<Rightarrow> Poller \<Rightarrow> (TimerQueue \<times> Poller) result" where
  "new_TimerQueue timerfd ch p =
     bind_r (channel_op False EnableReading ch
               (p\<lparr>heap := (heap p)(ch \<mapsto> setReadCallback (new_Channel (createTimerfd timerfd)))\<rparr>)) (\<lambda>p'.
       Inr (\<lparr>timers = [], tq_heap = Map.empty, tq_armed = None, tq_tick = 0, callingExpired = False\<rparr>, p'))"

text \<open>The destructor deletes every timer still in the set.\<close>

definition destroy_TimerQueue :: "addr \<Rightarrow> TimerQueue \<Rightarrow> Poller \<Rightarrow> (TimerQueue \<times> Poller) result" where
  "destroy_TimerQueue ch q p =
     bind_r (channel_op False DisableAll ch p) (\<lambda>p1.
     bind_r (removeChannel False ch p1) (\<lambda>p2.
       Inr (q\<lparr>tq_heap := (\<lambda>a. if a \<in> set (map snd (timers q)) then None else tq_heap q a)\<rparr>, p2)))"

definition clock_now :: "(nat \<Rightarrow> Timestamp) \<Rightarrow> TimerQueue \<Rightarrow> Timestamp \<times> TimerQueue" where
  "clock_now clk q = (clk (tq_tick q), q\<lparr>tq_tick := tq_tick q + 1\<rparr>)"

text \<open>The relative time handed to \<open>timerfd_settime\<close>, and the absolute time it stands for.\<close>

definition timer_delay :: "Timestamp \<Rightarrow> Timestamp \<Rightarrow> int" where
  "timer_delay expire now = (if expire - now < 100 then 100 else expire - now)"

definition timer_spec :: "int \<Rightarrow> int \<times> int" where
  "timer_spec dif = (tdiv dif kMicroSecondsPerSecond, tmod dif kMicroSecondsPerSecond * 1000)"

definition resetTimerfd :: "(nat \<Rightarrow> Timestamp) \<Rightarrow> Timestamp \<Rightarrow> TimerQueue \<Rightarrow> TimerQueue" where
  "resetTimerfd clk expire q =
     (let (now, q1) = clock_now clk q; (sec, nsec) = timer_spec (timer_delay expire now)
      in q1\<lparr>tq_armed := (if sec = 0 \<and> nsec = 0 then None
                          else Some (now + sec * kMicroSecondsPerSecond + nsec div 1000))\<rparr>)"

definition insert_timer :: "addr \<Rightarrow> TimerQueue \<Rightarrow> (bool \<times> TimerQueue) result" where
  "insert_timer a q =
     (case tq_heap q a of
        None \<Rightarrow> Inl UseAfterFree
      | Some t \<Rightarrow>
          let when = expiration t;
              earliestChanged = (timers q = [] \<or> when < fst (hd (timers q)))
          in Inr (earliestChanged, q\<lparr>timers := insort_insert (when, a) (timers q)\<rparr>))"

definition addTimerInLoop :: "(nat \<Rightarrow> Timestamp) \<Rightarrow> addr \<Rightarrow> TimerQueue \<Rightarrow> TimerQueue result" where
  "addTimerInLoop clk a q =
     bind_r (insert_timer a q) (\<lambda>(earliestChanged, q1).
       if earliestChanged
       then (case tq_heap q1 a of None \<Rightarrow> Inl UseAfterFree
             | Some t \<Rightarrow> Inr (resetTimerfd clk (expiration t) q1))
       else Inr q1)"

text \<open>
  \<open>addTimer\<close> allocates the timer (at the unused address \<open>a\<close>) and passes it to the loop: at once in
  the loop's own thread, as a functor naming the timer otherwise.
\<close>

definition addTimer :: "(nat \<Rightarrow> Timestamp) \<Rightarrow> bool \<Rightarrow> addr \<Rightarrow> Timestamp \<Rightarrow> interval \<Rightarrow> TimerQueue \<Rightarrow>
    (addr option \<times> TimerQueue) result" where
  "addTimer clk inLoopThread a when iv q =
     (let q1 = q\<lparr>tq_heap := (tq_heap q)(a \<mapsto> new_Timer when iv)\<rparr> in
      if inLoopThread then bind_r (addTimerInLoop clk a q1) (\<lambda>q2. Inr (None, q2))
      else Inr (Some a, q1))"

definition no_interval :: interval where "no_interval = \<lparr>iv_positive = False, iv_micros = 0\<rparr>"

definition runAt :: "(nat \<Rightarrow> Timestamp) \<Rightarrow> bool \<Rightarrow> addr \<Rightarrow> Timestamp \<Rightarrow> TimerQueue \<Rightarrow> (addr option \<times> TimerQueue) result" where
  "runAt clk inLoopThread a when q = addTimer clk inLoopThread a when no_interval q"

definition runAfter :: "(nat \<Rightarrow> Timestamp) \<Rightarrow> bool \<Rightarrow> addr \<Rightarrow> interval \<Rightarrow> TimerQueue \<Rightarrow> (addr option \<times> TimerQueue) result" where
  "runAfter clk inLoopThread a wait q =
     (let (now, q1) = clock_now clk q in runAt clk inLoopThread a (addTime now wait) q1)"

definition runEvery :: "(nat \<Rightarrow> Timestamp) \<Rightarrow> bool \<Rightarrow> addr \<Rightarrow> interval \<Rightarrow> TimerQueue \<Rightarrow> (addr option \<times> TimerQueue) result" where
  "runEvery clk inLoopThread a iv q =
     (let (now, q1) = clock_now clk q in addTimer clk inLoopThread a (addTime now iv) iv q1)"

text \<open>The sentry is paired with the largest address.\<close>

definition uintptr_max :: nat where "uintptr_max = 2 ^ 64 - 1"

definition getExpired :: "Timestamp \<Rightarrow> TimerQueue \<Rightarrow> entry list \<times> TimerQueue" where
  "getExpired now q =
     (let sentry = (now, uintptr_max) in
      (takeWhile (\<lambda>e. e < sentry) (timers q), q\<lparr>timers := dropWhile (\<lambda>e. e < sentry) (timers q)\<rparr>))"

type_synonym 'w timer_callback = "addr \<Rightarrow> TimerQueue \<times> 'w \<Rightarrow> (TimerQueue \<times> 'w) result"

fun run_timers :: "'w timer_callback \<Rightarrow> entry list \<Rightarrow> TimerQueue \<times> 'w \<Rightarrow> (TimerQueue \<times> 'w) result" where
  "run_timers cb [] s = Inr s"
| "run_timers cb ((t, a) # es) s = bind_r (cb a s) (run_timers cb es)"

definition rearm_first :: "(nat \<Rightarrow> Timestamp) \<Rightarrow> TimerQueue \<Rightarrow> TimerQueue result" where
  "rearm_first clk q =
     (if timers q = [] then Inr q
      else (case tq_heap q (snd (hd (timers q))) of None \<Rightarrow> Inl UseAfterFree
            | Some t \<Rightarrow> Inr (resetTimerfd clk (expiration t) q)))"

fun reset_timers :: "(nat \<Rightarrow> Timestamp) \<Rightarrow> entry list \<Rightarrow> TimerQueue \<Rightarrow> TimerQueue result" where
  "reset_timers clk [] q = Inr q"
| "reset_timers clk ((t, a) # es) q =
     (case tq_heap q a of
        None \<Rightarrow> Inl UseAfterFree
      | Some tm \<Rightarrow>
          bind_r (if repeat tm
                  then let (now, q1) = clock_now clk q in
                       bind_r (insert_timer a (q1\<lparr>tq_heap := (tq_heap q1)(a \<mapsto> restart now tm)\<rparr>)) (\<lambda>(b, q2). Inr q2)
                  else Inr (q\<lparr>tq_heap := (tq_heap q)(a := None)\<rparr>)) (\<lambda>q3.
          bind_r (rearm_first clk q3) (reset_timers clk es)))"

text \<open>\<open>handleRead\<close> runs because the kernel timer fired, which has stopped it.\<close>

definition handleRead_timer :: "(nat \<Rightarrow> Timestamp) \<Rightarrow> 'w timer_callback \<Rightarrow> TimerQueue \<times> 'w \<Rightarrow> (TimerQueue \<times> 'w) result" where
  "handleRead_timer clk cb s =
     (let (q, w) = s; (now, q1) = clock_now clk (q\<lparr>tq_armed := None\<rparr>); (expired, q2) = getExpired now q1 in
      bind_r (run_timers cb expired (q2\<lparr>callingExpired := True\<rparr>, w)) (\<lambda>(q3, w3).
      bind_r (reset_timers clk expired (q3\<lparr>callingExpired := False\<rparr>)) (\<lambda>q4. Inr (q4, w3))))"

section \<open>The interface of a queue of due entries\<close>

text \<open>
  What the timer queue needs of its set: extracting what is due at a time gives exactly the entries
  up to that time, in order, and leaves the later ones.
\<close>

locale due_queue =
  fixes invar :: "'q \<Rightarrow> bool"
    and entries :: "'q \<Rightarrow> entry set"
    and due :: "Timestamp \<Rightarrow> 'q \<Rightarrow> entry list \<times> 'q"
  assumes due_ok: "invar q \<Longrightarrow> due now q = (es, q') \<Longrightarrow> invar q' \<and> set es = {e \<in> entries q. fst e \<le> now} \<and>
      entries q' = {e \<in> entries q. now < fst e} \<and> sorted (map fst es) \<and> distinct es"
begin

text \<open>Extracting twice is extracting once at the later time: nothing fires early, twice or out of order.\<close>

lemma due_twice:
  assumes "invar q" "due t1 q = (es1, q1)" "due t2 q1 = (es2, q2)" "t1 \<le> t2"
  shows "set (es1 @ es2) = {e \<in> entries q. fst e \<le> t2}" "sorted (map fst (es1 @ es2))" "distinct (es1 @ es2)"
proof -
  have a: "invar q1" "set es1 = {e \<in> entries q. fst e \<le> t1}" "entries q1 = {e \<in> entries q. t1 < fst e}"
      "sorted (map fst es1)" "distinct es1" using due_ok[OF assms(1,2)] by auto
  have b: "set es2 = {e \<in> entries q1. fst e \<le> t2}" "sorted (map fst es2)" "distinct es2"
    using due_ok[OF a(1) assms(3)] by auto
  show "set (es1 @ es2) = {e \<in> entries q. fst e \<le> t2}" using a b assms(4) by auto
  show "sorted (map fst (es1 @ es2))" using a b by (auto simp: sorted_append)
  show "distinct (es1 @ es2)" using a b by auto
qed

end

section \<open>Lemmas\<close>

definition tq_inv :: "TimerQueue \<Rightarrow> bool" where
  "tq_inv q \<longleftrightarrow> sorted (timers q) \<and> distinct (map snd (timers q)) \<and>
     (\<forall>(t, a) \<in> set (timers q). a < uintptr_max \<and> (\<exists>tm. tq_heap q a = Some tm \<and> expiration tm = t))"

lemma sorted_split:
  fixes xs :: "'a :: linorder list"
  shows "sorted xs \<Longrightarrow> takeWhile (\<lambda>e. e < s) xs = filter (\<lambda>e. e < s) xs \<and>
    dropWhile (\<lambda>e. e < s) xs = filter (\<lambda>e. \<not> e < s) xs"
proof (induction xs)
  case (Cons x xs)
  then have "\<not> x < s \<Longrightarrow> filter (\<lambda>e. e < s) xs = [] \<and> filter (\<lambda>e. \<not> e < s) xs = xs"
    by (auto simp: filter_empty_conv filter_id_conv dest: le_less_trans)
  with Cons show ?case by auto
qed simp

lemma sorted_fst: "sorted xs \<Longrightarrow> sorted (map fst (xs :: entry list))"
  by (induction xs) (auto simp: less_eq_prod_def)

lemma getExpired_eq:
  assumes "tq_inv q"
  shows "getExpired now q = (filter (\<lambda>e. fst e \<le> now) (timers q),
      q\<lparr>timers := filter (\<lambda>e. now < fst e) (timers q)\<rparr>)"
proof -
  have "(e < (now, uintptr_max)) = (fst e \<le> now)" if "e \<in> set (timers q)" for e
    using assms that by (cases e) (auto simp: tq_inv_def less_prod_def)
  then have "filter (\<lambda>e. e < (now, uintptr_max)) (timers q) = filter (\<lambda>e. fst e \<le> now) (timers q)"
      "filter (\<lambda>e. \<not> e < (now, uintptr_max)) (timers q) = filter (\<lambda>e. now < fst e) (timers q)"
    by (auto intro!: filter_cong)
  then show ?thesis using sorted_split[of "timers q" "(now, uintptr_max)"] assms
    by (simp add: getExpired_def tq_inv_def)
qed

lemma tq_inv_filter: "tq_inv q \<Longrightarrow> tq_inv (q\<lparr>timers := filter P (timers q)\<rparr>)"
  by (auto simp: tq_inv_def sorted_filter[of id, simplified] distinct_map_filter)

interpretation tq: due_queue tq_inv "\<lambda>q. set (timers q)" getExpired
proof (unfold_locales, goal_cases)
  case (1 q now es q')
  then show ?case using getExpired_eq[of q now] tq_inv_filter[of q "\<lambda>e. now < fst e"]
      sorted_fst[of "filter (\<lambda>e. fst e \<le> now) (timers q)"]
    by (auto simp: tq_inv_def sorted_filter[of id, simplified] distinct_map)
qed

text \<open>The kernel timer is set for the first entry, at least 100 microseconds ahead of a reading of the clock from the \<open>k0\<close>-th on.\<close>

definition armed_for_first :: "(nat \<Rightarrow> Timestamp) \<Rightarrow> nat \<Rightarrow> TimerQueue \<Rightarrow> bool" where
  "armed_for_first clk k0 q \<longleftrightarrow> timers q \<noteq> [] \<longrightarrow>
     (\<exists>k\<ge>k0. tq_armed q = Some (max (fst (hd (timers q))) (clk k + 100)))"

lemma resetTimerfd_eq:
  "resetTimerfd clk ex q = q\<lparr>tq_tick := tq_tick q + 1, tq_armed := Some (max ex (clk (tq_tick q) + 100))\<rparr>"
proof -
  define d where "d = timer_delay ex (clk (tq_tick q))"
  have d: "100 \<le> d" "clk (tq_tick q) + d = max ex (clk (tq_tick q) + 100)"
    by (auto simp: d_def timer_delay_def)
  have "d div 1000000 * 1000000 + d mod 1000000 * 1000 div 1000 = d" by simp
  moreover have "\<not> (d div 1000000 = 0 \<and> d mod 1000000 * 1000 = 0)"
    using d(1) by (metis div_mult_mod_eq mult_eq_0_iff not_numeral_le_zero add_0 mult_zero_left zero_neq_numeral)
  ultimately show ?thesis using d
    by (simp add: resetTimerfd_def clock_now_def d_def[symmetric] timer_spec_def kMicroSecondsPerSecond_def
          add.assoc)
qed

lemma distinct_snd_insort:
  "distinct (map snd (insort e xs)) \<longleftrightarrow> snd e \<notin> snd ` set xs \<and> distinct (map snd (xs :: entry list))"
  by (induction xs) (auto simp: set_insort_key)

lemma insert_timer_inv:
  assumes "tq_inv q" "tq_heap q a = Some tm" "a < uintptr_max" "a \<notin> snd ` set (timers q)"
  shows "\<exists>b q'. insert_timer a q = Inr (b, q') \<and> tq_inv q' \<and> tq_heap q' = tq_heap q \<and>
    set (timers q') = insert (expiration tm, a) (set (timers q)) \<and> tq_tick q' = tq_tick q \<and>
    timers q' \<noteq> [] \<and> tq_armed q' = tq_armed q \<and>
    (b \<longleftrightarrow> hd (timers q') = (expiration tm, a) \<and> (timers q = [] \<or> expiration tm < fst (hd (timers q)))) \<and>
    (\<not> b \<longrightarrow> fst (hd (timers q')) = fst (hd (timers q)))"
proof -
  define e where "e = (expiration tm, a)"
  have new: "e \<notin> set (timers q)" using assms(4) by (auto simp: e_def image_iff)
  define ts where "ts = insort e (timers q)"
  have ts: "set ts = insert e (set (timers q))" "sorted ts" "ts \<noteq> []"
    using assms(1) by (auto simp: ts_def set_insort_key tq_inv_def sorted_insort)
  have "distinct (map snd ts)" using assms(1,4) distinct_snd_insort[of e "timers q"]
    by (simp add: tq_inv_def ts_def e_def)
  then have inv: "tq_inv (q\<lparr>timers := ts\<rparr>)" using ts assms by (auto simp: tq_inv_def e_def)
  have hd1: "timers q = [] \<or> expiration tm < fst (hd (timers q)) \<Longrightarrow> hd ts = e"
    by (cases "timers q") (auto simp: ts_def e_def less_eq_prod_def)
  have hd2: "\<not> (timers q = [] \<or> expiration tm < fst (hd (timers q))) \<Longrightarrow> fst (hd ts) = fst (hd (timers q))"
    by (cases "timers q") (auto simp: ts_def e_def less_eq_prod_def)
  show ?thesis using assms(2) new ts inv hd1 hd2
    by (auto simp: insert_timer_def insort_insert_key_def e_def[symmetric] ts_def[symmetric] Let_def)
qed

text \<open>A timer that ran: a repeating one is back with a later time, a one-shot one is gone.\<close>

definition settled :: "(nat \<Rightarrow> Timestamp) \<Rightarrow> nat \<Rightarrow> (addr \<rightharpoonup> Timer) \<Rightarrow> TimerQueue \<Rightarrow> addr \<Rightarrow> bool" where
  "settled clk k0 h q' a \<longleftrightarrow>
     (if repeat (the (h a)) then \<exists>k\<ge>k0. (addTime (clk k) (tm_interval (the (h a))), a) \<in> set (timers q')
      else a \<notin> snd ` set (timers q') \<and> tq_heap q' a = None)"

text \<open>After the expired timers were handled: one-shot timers are gone, repeating ones are back.\<close>

lemma reset_timers_ok:
  assumes "tq_inv q" "distinct (map snd es)"
    and "\<forall>a \<in> snd ` set es. tq_heap q a \<noteq> None \<and> a < uintptr_max \<and> a \<notin> snd ` set (timers q)"
    and "k0 \<le> tq_tick q"
  shows "\<exists>q'. reset_timers clk es q = Inr q' \<and> tq_inv q' \<and> set (timers q) \<subseteq> set (timers q') \<and>
    (\<forall>a \<in> snd ` set es. settled clk k0 (tq_heap q) q' a) \<and>
    snd ` set (timers q') \<subseteq> snd ` set (timers q) \<union> snd ` set es \<and>
    (\<forall>a. a \<notin> snd ` set es \<longrightarrow> tq_heap q' a = tq_heap q a) \<and>
    (es \<noteq> [] \<longrightarrow> armed_for_first clk k0 q')"
  using assms
proof (induction es arbitrary: q)
  case (Cons e es)
  obtain t a where e: "e = (t, a)" by fastforce
  obtain tm where tm: "tq_heap q a = Some tm" and a: "a < uintptr_max" "a \<notin> snd ` set (timers q)"
    using Cons.prems(3) e by fastforce
  define step where "step = (if repeat tm
      then let (now, q1) = clock_now clk q in
           bind_r (insert_timer a (q1\<lparr>tq_heap := (tq_heap q1)(a \<mapsto> restart now tm)\<rparr>)) (\<lambda>(b, q2). Inr q2)
      else Inr (q\<lparr>tq_heap := (tq_heap q)(a := None)\<rparr>))"
  have "\<exists>q3. step = Inr q3 \<and> tq_inv q3 \<and> k0 \<le> tq_tick q3 \<and> set (timers q) \<subseteq> set (timers q3) \<and>
      snd ` set (timers q3) \<subseteq> insert a (snd ` set (timers q)) \<and>
      (\<forall>b. b \<noteq> a \<longrightarrow> tq_heap q3 b = tq_heap q b) \<and>
      (if repeat tm then \<exists>k\<ge>k0. (addTime (clk k) (tm_interval tm), a) \<in> set (timers q3)
       else a \<notin> snd ` set (timers q3) \<and> tq_heap q3 a = None)"
  proof (cases "repeat tm")
    case True
    define q1 where "q1 = q\<lparr>tq_tick := tq_tick q + 1, tq_heap := (tq_heap q)(a \<mapsto> restart (clk (tq_tick q)) tm)\<rparr>"
    have "tq_inv q1" using Cons.prems(1) a by (force simp: tq_inv_def q1_def)
    with insert_timer_inv[of q1 a "restart (clk (tq_tick q)) tm"] a obtain b q2 where
      "insert_timer a q1 = Inr (b, q2)" "tq_inv q2" "tq_heap q2 = tq_heap q1"
      "set (timers q2) = insert (expiration (restart (clk (tq_tick q)) tm), a) (set (timers q))"
      "tq_tick q2 = tq_tick q1"
      by (auto simp: q1_def)
    then show ?thesis using True Cons.prems(4) by (auto simp: step_def clock_now_def q1_def restart_def)
  next
    case False
    have "tq_inv (q\<lparr>tq_heap := (tq_heap q)(a := None)\<rparr>)" using Cons.prems(1) a by (force simp: tq_inv_def)
    with False a Cons.prems(4) show ?thesis by (auto simp: step_def)
  qed
  then obtain q3 where q3: "step = Inr q3" "tq_inv q3" "set (timers q) \<subseteq> set (timers q3)"
      "snd ` set (timers q3) \<subseteq> insert a (snd ` set (timers q))" "\<forall>b. b \<noteq> a \<longrightarrow> tq_heap q3 b = tq_heap q b"
      "if repeat tm then \<exists>k\<ge>k0. (addTime (clk k) (tm_interval tm), a) \<in> set (timers q3)
       else a \<notin> snd ` set (timers q3) \<and> tq_heap q3 a = None" and k3: "k0 \<le> tq_tick q3" by blast
  obtain q4 where q4: "rearm_first clk q3 = Inr q4" "tq_inv q4" "timers q4 = timers q3" "tq_heap q4 = tq_heap q3"
      "armed_for_first clk k0 q4" and k4: "k0 \<le> tq_tick q4"
  proof (cases "timers q3")
    case Nil
    then show ?thesis using that[of q3] q3(2) k3 by (simp add: rearm_first_def armed_for_first_def)
  next
    case (Cons x xs)
    then obtain tm1 where "tq_heap q3 (snd x) = Some tm1" "expiration tm1 = fst x"
      using q3(2) by (auto simp: tq_inv_def split: prod.splits)
    then show ?thesis using that[of "resetTimerfd clk (fst x) q3"] Cons q3(2) k3
      by (auto simp: rearm_first_def resetTimerfd_eq armed_for_first_def tq_inv_def)
  qed
  have na: "a \<notin> snd ` set es" using Cons.prems(2) e by auto
  have same: "\<forall>b \<in> snd ` set es. b \<noteq> a \<and> tq_heap q4 b = tq_heap q b" using na q3(5) q4(4) by auto
  have "\<forall>b \<in> snd ` set es. tq_heap q b \<noteq> None \<and> b < uintptr_max \<and> b \<notin> snd ` set (timers q)"
    using Cons.prems(3) by simp
  then have p4: "\<forall>b \<in> snd ` set es. tq_heap q4 b \<noteq> None \<and> b < uintptr_max \<and> b \<notin> snd ` set (timers q4)"
    using same q3(4) q4(3) by (metis insertE subsetD)
  obtain q' where q': "reset_timers clk es q4 = Inr q'" "tq_inv q'" "set (timers q4) \<subseteq> set (timers q')"
      "\<forall>b \<in> snd ` set es. settled clk k0 (tq_heap q4) q' b"
      "snd ` set (timers q') \<subseteq> snd ` set (timers q4) \<union> snd ` set es"
      "\<forall>b. b \<notin> snd ` set es \<longrightarrow> tq_heap q' b = tq_heap q4 b" "es \<noteq> [] \<longrightarrow> armed_for_first clk k0 q'"
    using Cons.IH[OF q4(2) _ p4 k4] Cons.prems(2) by auto
  have "reset_timers clk (e # es) q = Inr q'" using e tm q3(1) q4(1) q'(1) by (simp add: step_def)
  moreover have "armed_for_first clk k0 q'" using q'(1,7) q4(5) by (cases es) auto
  moreover have "settled clk k0 (tq_heap q) q' a"
  proof (cases "repeat tm")
    case True
    then show ?thesis using q3(6) q'(3) q4(3) tm by (auto simp: settled_def)
  next
    case False
    then have "a \<notin> snd ` set (timers q4)" "tq_heap q4 a = None" using q3(6) q4(3,4) by simp_all
    with False q'(5,6) na tm show ?thesis by (auto simp: settled_def)
  qed
  moreover have "\<forall>b \<in> snd ` set es. settled clk k0 (tq_heap q) q' b"
  proof
    fix b
    assume b: "b \<in> snd ` set es"
    then have "tq_heap q4 b = tq_heap q b" using same by blast
    with bspec[OF q'(4) b] show "settled clk k0 (tq_heap q) q' b" by (simp only: settled_def)
  qed
  moreover have "snd ` set (timers q') \<subseteq> snd ` set (timers q) \<union> snd ` set (e # es)"
    using q'(5) q3(4) q4(3) e by auto
  moreover have "\<forall>b. b \<notin> snd ` set (e # es) \<longrightarrow> tq_heap q' b = tq_heap q b"
    using q'(6) q3(5) q4(4) e by simp
  ultimately show ?case using e tm q3(3) q4(3) q'(2,3) by (intro exI[of _ q']) simp
qed (simp add: armed_for_first_def)

text \<open>
  What a callback may do to the queue: add timers at addresses that are not in use. \<open>act\<close> is what it
  does to the rest of the program.
\<close>

definition adds_only :: "TimerQueue \<Rightarrow> TimerQueue \<Rightarrow> bool" where
  "adds_only q q' \<longleftrightarrow> tq_inv q' \<and> set (timers q) \<subseteq> set (timers q') \<and> tq_tick q \<le> tq_tick q' \<and>
     (\<forall>b. tq_heap q b \<noteq> None \<longrightarrow> tq_heap q' b = tq_heap q b) \<and>
     (\<forall>e \<in> set (timers q') - set (timers q). tq_heap q (snd e) = None)"

definition timer_callbacks :: "'w timer_callback \<Rightarrow> (addr \<Rightarrow> 'w \<Rightarrow> 'w) \<Rightarrow> bool" where
  "timer_callbacks cb act \<longleftrightarrow> (\<forall>a q w. tq_inv q \<longrightarrow> (\<exists>q'. cb a (q, w) = Inr (q', act a w) \<and> adds_only q q'))"

lemma adds_only_refl: "tq_inv q \<Longrightarrow> adds_only q q"
  by (simp add: adds_only_def)

lemma adds_only_trans: "adds_only p q \<Longrightarrow> adds_only q r \<Longrightarrow> adds_only p r"
  unfolding adds_only_def by (smt (verit) Diff_iff le_trans subset_iff)

lemma run_timers_ok:
  "timer_callbacks cb act \<Longrightarrow> tq_inv q \<Longrightarrow> \<exists>q'. run_timers cb es (q, w) = Inr (q', fold act (map snd es) w) \<and> adds_only q q'"
proof (induction es arbitrary: q w)
  case (Cons e es)
  obtain t a where e: "e = (t, a)" by fastforce
  obtain q1 where q1: "cb a (q, w) = Inr (q1, act a w)" "adds_only q q1"
    using Cons.prems unfolding timer_callbacks_def by blast
  then obtain q2 where "run_timers cb es (q1, act a w) = Inr (q2, fold act (map snd es) (act a w))" "adds_only q1 q2"
    using Cons.IH[OF Cons.prems(1), of q1 "act a w"] by (auto simp: adds_only_def)
  then show ?case using q1 adds_only_trans[OF q1(2)] e by auto
qed (simp add: adds_only_refl)

lemma adding_timer:
  assumes "tq_inv q" "tq_heap q a = None" "a < uintptr_max"
  shows "\<exists>q'. addTimer clk True a when iv q = Inr (None, q') \<and> adds_only q q' \<and> (when, a) \<in> set (timers q')"
proof -
  define q1 where "q1 = q\<lparr>tq_heap := (tq_heap q)(a \<mapsto> new_Timer when iv)\<rparr>"
  have na: "a \<notin> snd ` set (timers q)" using assms(1,2) by (force simp: tq_inv_def)
  have i: "tq_inv q1" using assms(1,2) by (force simp: tq_inv_def q1_def)
  obtain b q2 where q2: "insert_timer a q1 = Inr (b, q2)" "tq_inv q2" "tq_heap q2 = tq_heap q1"
      "set (timers q2) = insert (when, a) (set (timers q))" "tq_tick q2 = tq_tick q1"
    using insert_timer_inv[OF i, of a "new_Timer when iv"] na assms(3) by (auto simp: q1_def new_Timer_def)
  have k: "adds_only q q3" if "tq_inv q3" "tq_heap q3 = tq_heap q1" "timers q3 = timers q2" "tq_tick q \<le> tq_tick q3" for q3
    using that q2 assms(2) by (auto simp: adds_only_def q1_def)
  show ?thesis
  proof (cases b)
    case True
    have "tq_inv (resetTimerfd clk when q2)" using q2(2) by (simp add: tq_inv_def resetTimerfd_eq)
    then have "adds_only q (resetTimerfd clk when q2)" using q2 by (intro k) (simp_all add: resetTimerfd_eq q1_def)
    then show ?thesis using True q2
      by (auto simp: addTimer_def addTimerInLoop_def q1_def[symmetric] Let_def resetTimerfd_eq)
        (simp add: q1_def new_Timer_def resetTimerfd_eq)
  next
    case False
    have "adds_only q q2" using q2 by (intro k) (simp_all add: q1_def)
    then show ?thesis using False q2 by (simp add: addTimer_def addTimerInLoop_def q1_def[symmetric] Let_def)
  qed
qed

section \<open>Properties\<close>

text \<open>
  C14: handling the timer event. The callbacks of exactly the timers whose time has come are run, each
  once, in order of expiration: the state of the rest of the program is the one their actions lead
  to one after the other. The callbacks may add timers to the queue. The later timers stay; a
  one-shot timer that ran is deleted and leaves the set; a repeating one is put back at a later
  reading of the clock plus its interval; and when any timer ran, the kernel timer is set for the
  earliest entry that remains, at least 100 microseconds ahead of a later reading of the clock.
\<close>

theorem timer_event_exact:
  assumes "tq_inv q" "now = clk (tq_tick q)" "timer_callbacks cb act"
  shows "\<exists>fired q'. handleRead_timer clk cb (q, w) = Inr (q', fold act (map snd fired) w) \<and> tq_inv q' \<and>
    set fired = {e \<in> set (timers q). fst e \<le> now} \<and> sorted (map fst fired) \<and> distinct fired \<and>
    {e \<in> set (timers q). now < fst e} \<subseteq> set (timers q') \<and>
    (\<forall>a \<in> snd ` set fired. settled clk (Suc (tq_tick q)) (tq_heap q) q' a) \<and>
    (fired \<noteq> [] \<longrightarrow> armed_for_first clk (Suc (tq_tick q)) q')"
proof -
  define q1 where "q1 = q\<lparr>tq_armed := None, tq_tick := tq_tick q + 1\<rparr>"
  have inv1: "tq_inv q1" using assms(1) by (simp add: q1_def tq_inv_def)
  obtain fired q2 where g: "getExpired now q1 = (fired, q2)" by fastforce
  from tq.due_ok[OF inv1 g] have d: "tq_inv q2" "set fired = {e \<in> set (timers q). fst e \<le> now}"
      "set (timers q2) = {e \<in> set (timers q). now < fst e}" "sorted (map fst fired)" "distinct fired" by (auto simp: q1_def)
  define q2c where "q2c = q2\<lparr>callingExpired := True\<rparr>"
  have h: "tq_heap q2c = tq_heap q" "timers q2c = timers q2" "tq_inv q2c" "tq_tick q2c = Suc (tq_tick q)"
    using g d(1) getExpired_eq[OF inv1, of now] by (auto simp: q2c_def q1_def tq_inv_def)
  obtain q3 where q3: "run_timers cb fired (q2c, w) = Inr (q3, fold act (map snd fired) w)" "adds_only q2c q3"
    using run_timers_ok[OF assms(3) h(3)] by blast
  define q3c where "q3c = q3\<lparr>callingExpired := False\<rparr>"
  have k: "tq_inv q3c" "set (timers q2) \<subseteq> set (timers q3c)" "Suc (tq_tick q) \<le> tq_tick q3c"
      "\<And>b. tq_heap q b \<noteq> None \<Longrightarrow> tq_heap q3c b = tq_heap q b"
    using q3(2) h by (auto simp: adds_only_def q3c_def tq_inv_def)
  have "\<forall>e \<in> set (timers q3) - set (timers q2). tq_heap q (snd e) = None"
    using q3(2) unfolding adds_only_def h(1,2) by (intro ballI) (elim conjE, drule (1) bspec)
  then have k5: "e \<in> set (timers q2) \<or> tq_heap q (snd e) = None" if "e \<in> set (timers q3c)" for e
    using that by (cases "e \<in> set (timers q2)") (auto simp: q3c_def)
  have dm: "distinct (map snd (timers q))" using assms(1) by (simp add: tq_inv_def)
  have "fired = filter (\<lambda>e. fst e \<le> now) (timers q)" using g getExpired_eq[OF inv1, of now] by (simp add: q1_def)
  then have df: "distinct (map snd fired)" using dm by (simp add: distinct_map_filter)
  have old: "\<forall>a \<in> snd ` set fired. tq_heap q a \<noteq> None \<and> a < uintptr_max \<and> a \<notin> snd ` set (timers q2)"
  proof
    fix a assume "a \<in> snd ` set fired"
    then obtain t where ta: "(t, a) \<in> set (timers q)" "t \<le> now" by (auto simp: d(2))
    then have "a \<notin> snd ` {e \<in> set (timers q). now < fst e}" using dm by (force simp: distinct_map inj_on_def)
    with ta assms(1) show "tq_heap q a \<noteq> None \<and> a < uintptr_max \<and> a \<notin> snd ` set (timers q2)"
      using d(3) by (auto simp: tq_inv_def)
  qed
  then have "\<forall>a \<in> snd ` set fired. tq_heap q3c a \<noteq> None \<and> a < uintptr_max \<and> a \<notin> snd ` set (timers q3c)"
    using k(4) k5 by (metis (no_types, lifting) imageE image_eqI)
  from reset_timers_ok[OF k(1) df this k(3), of clk] obtain q' where
    q': "reset_timers clk fired q3c = Inr q'" "tq_inv q'" "set (timers q3c) \<subseteq> set (timers q')"
      "\<forall>a \<in> snd ` set fired. settled clk (Suc (tq_tick q)) (tq_heap q3c) q' a"
      "fired \<noteq> [] \<longrightarrow> armed_for_first clk (Suc (tq_tick q)) q'" by blast
  have "handleRead_timer clk cb (q, w) = Inr (q', fold act (map snd fired) w)"
    using g q'(1) q3(1) assms(2) by (simp add: handleRead_timer_def clock_now_def q1_def q2c_def q3c_def)
  moreover have "\<forall>a \<in> snd ` set fired. settled clk (Suc (tq_tick q)) (tq_heap q) q' a"
  proof
    fix a assume a: "a \<in> snd ` set fired"
    then have "tq_heap q3c a = tq_heap q a" using old k(4) by blast
    with bspec[OF q'(4) a] show "settled clk (Suc (tq_tick q)) (tq_heap q) q' a" by (simp only: settled_def)
  qed
  ultimately show ?thesis using q'(2,3,5) d(2-5) k(2) by (intro exI[of _ fired] exI[of _ q']) auto
qed

definition two_timers :: TimerQueue where
  "two_timers = \<lparr>timers = [(10, 1), (500, 2)],
     tq_heap = [1 \<mapsto> new_Timer 10 no_interval, 2 \<mapsto> new_Timer 500 no_interval], tq_armed = Some 10,
     tq_tick = 0, callingExpired = False\<rparr>"

lemma two_timers_inv: "tq_inv two_timers"
  by (simp add: tq_inv_def two_timers_def less_eq_prod_def uintptr_max_def new_Timer_def)

text \<open>A callback that notes that it ran and, the first time, adds a one-shot timer at time 700.\<close>

definition noting :: "addr list timer_callback" where
  "noting a s = (let (q, w) = s in
     if tq_heap q 7 = None then bind_r (addTimer (\<lambda>k. 20 + int k) True 7 700 no_interval q) (\<lambda>(f, q'). Inr (q', w @ [a]))
     else Inr (q, w @ [a]))"

lemma noting_ok: "timer_callbacks noting (\<lambda>a w. w @ [a])"
  unfolding timer_callbacks_def
proof (intro allI impI)
  fix a :: addr and q w assume "tq_inv q"
  then show "\<exists>q'. noting a (q, w) = Inr (q', w @ [a]) \<and> adds_only q q'"
    using adding_timer[of q 7 "\<lambda>k. 20 + int k" 700 no_interval] adds_only_refl[of q]
    by (cases "tq_heap q 7 = None") (auto simp: noting_def uintptr_max_def)
qed

theorem timer_event_exact_witness:
  "\<exists>q'. handleRead_timer (\<lambda>k. 20 + int k) noting (two_timers, []) = Inr (q', [1]) \<and>
     (500, 2) \<in> set (timers q') \<and> tq_heap q' 1 = None"
proof -
  obtain fired q' where r: "handleRead_timer (\<lambda>k. 20 + int k) noting (two_timers, []) = Inr (q', fold (\<lambda>a w. w @ [a]) (map snd fired) [])"
      "set fired = {e \<in> set (timers two_timers). fst e \<le> 20}" "distinct fired"
      "{e \<in> set (timers two_timers). 20 < fst e} \<subseteq> set (timers q')"
      "\<forall>a \<in> snd ` set fired. settled (\<lambda>k. 20 + int k) 1 (tq_heap two_timers) q' a"
    using timer_event_exact[OF two_timers_inv _ noting_ok, of 20 "\<lambda>k. 20 + int k" "[]"] by (auto simp: two_timers_def)
  have s: "set fired = {(10, 1)}" unfolding r(2) by (auto simp: two_timers_def)
  then have "fired = [(10, 1)]" using r(3) by (cases fired; cases "tl fired") auto
  moreover have "(500, 2) \<in> set (timers q')" using r(4) by (auto simp: two_timers_def)
  moreover have "tq_heap q' 1 = None" using r(5) s by (simp add: settled_def two_timers_def new_Timer_def no_interval_def)
  ultimately show ?thesis using r(1) by simp
qed

text \<open>
  C39: a timer event that comes too early stops the queue. The kernel timer runs on the monotonic
  clock, the comparison uses the wall clock: when that was set back, nothing has expired, no callback
  runs, the loop that sets the kernel timer again runs zero times, and the timers that wait are not
  armed any more, whatever the clock says later, until an earlier timer is added.
\<close>

theorem early_event_disarms:
  assumes "tq_inv q" "timers q \<noteq> []" "\<forall>e \<in> set (timers q). clk (tq_tick q) < fst e"
  shows "\<exists>q'. handleRead_timer clk cb (q, w) = Inr (q', w) \<and> timers q' = timers q \<and> tq_armed q' = None"
proof -
  define q1 where "q1 = q\<lparr>tq_armed := None, tq_tick := tq_tick q + 1\<rparr>"
  have inv1: "tq_inv q1" using assms(1) by (simp add: q1_def tq_inv_def)
  have "filter (\<lambda>e. fst e \<le> clk (tq_tick q)) (timers q1) = []"
      "filter (\<lambda>e. clk (tq_tick q) < fst e) (timers q1) = timers q1"
    using assms(3) by (auto simp: q1_def filter_empty_conv filter_id_conv)
  then have "getExpired (clk (tq_tick q)) q1 = ([], q1)" using getExpired_eq[OF inv1] by simp
  then show ?thesis by (simp add: handleRead_timer_def clock_now_def q1_def)
qed

theorem early_event_disarms_witness:
  "\<exists>q'. handleRead_timer (\<lambda>k. 3) noting (two_timers, []) = Inr (q', []) \<and> timers q' = [(10, 1), (500, 2)] \<and>
     tq_armed q' = None"
  using early_event_disarms[OF two_timers_inv, of "\<lambda>k. 3" noting "[]"] by (simp add: two_timers_def)

end
