(* ===== verification/Memory_Pool.thy ===== *)
theory Memory_Pool
  imports Prelude
begin

text \<open>
  \<open>src/src/memory/MemoryPool.h\<close> and \<open>MemoryPool.cc\<close> on an explicit store: small nodes and large nodes
  by address, and the blocks obtained from \<open>posix_memalign\<close> with their sizes. A null pointer is
  \<open>None\<close>. The structures have the sizes of a 64-bit build (24, 32 and 24 bytes). Each
  \<open>posix_memalign\<close> is an input: \<open>None\<close> when it fails, otherwise the address and, for a page, what
  the new memory holds where the node will be, since not every field is initialised. Loops over
  the node lists have fuel; running out of it is the fault \<open>Diverges\<close>.
\<close>

unbundle bit_operations_syntax

section \<open>Data\<close>

definition PAGE_SIZE :: nat where "PAGE_SIZE = 4096"
definition MP_ALIGNMENT :: nat where "MP_ALIGNMENT = 16"
definition sizeof_Pool :: nat where "sizeof_Pool = 24"
definition sizeof_SmallNode :: nat where "sizeof_SmallNode = 32"
definition sizeof_LargeNode :: nat where "sizeof_LargeNode = 24"

definition mp_align_ptr :: "nat \<Rightarrow> nat \<Rightarrow> nat" where
  "mp_align_ptr p alignment =
     unat ((word_of_nat p + (word_of_nat alignment - 1)) AND NOT (word_of_nat alignment - 1 :: 64 word))"

record SmallNode =
  node_end :: nat
  node_last :: nat
  node_quote :: "32 word"
  node_failed :: "32 word"
  node_next :: "nat option"

record LargeNode =
  ln_address :: "nat option"
  ln_size :: "32 word"
  ln_next :: "nat option"

record MemoryPool =
  pool_base :: nat
  largeList :: "nat option"
  pool_head :: nat
  pool_current :: nat
  smalls :: "nat \<rightharpoonup> SmallNode"
  larges :: "nat \<rightharpoonup> LargeNode"
  live :: "nat \<rightharpoonup> nat"

type_synonym page = "(nat \<times> SmallNode) option"

text \<open>Following a pointer where no node lives, and freeing a block.\<close>

definition small_at :: "nat \<Rightarrow> MemoryPool \<Rightarrow> SmallNode result" where
  "small_at a s = (case smalls s a of Some n \<Rightarrow> Inr n | None \<Rightarrow> Inl WildPointer)"

definition large_at :: "nat \<Rightarrow> MemoryPool \<Rightarrow> LargeNode result" where
  "large_at a s = (case larges s a of Some n \<Rightarrow> Inr n | None \<Rightarrow> Inl WildPointer)"

definition set_small :: "nat \<Rightarrow> SmallNode \<Rightarrow> MemoryPool \<Rightarrow> MemoryPool" where
  "set_small a n s = s\<lparr>smalls := (smalls s)(a \<mapsto> n)\<rparr>"

definition set_large :: "nat \<Rightarrow> LargeNode \<Rightarrow> MemoryPool \<Rightarrow> MemoryPool" where
  "set_large a n s = s\<lparr>larges := (larges s)(a \<mapsto> n)\<rparr>"

definition free_block :: "nat option \<Rightarrow> MemoryPool \<Rightarrow> MemoryPool result" where
  "free_block p s = (case p of None \<Rightarrow> Inr s
     | Some a \<Rightarrow> if live s a = None then Inl Undefined else Inr (s\<lparr>live := (live s)(a := None)\<rparr>))"

section \<open>Operations\<close>

definition createPool :: "page \<Rightarrow> MemoryPool option" where
  "createPool r = (case r of None \<Rightarrow> None
     | Some (p, mem) \<Rightarrow>
         let h = p + sizeof_Pool in
         Some \<lparr>pool_base = p, largeList = None, pool_head = h, pool_current = h,
               smalls = [h \<mapsto> mem\<lparr>node_last := p + sizeof_Pool + sizeof_SmallNode, node_end := p + PAGE_SIZE, node_failed := 0\<rparr>],
               larges = Map.empty, live = [p \<mapsto> PAGE_SIZE]\<rparr>)"

text \<open>The walk over the nodes that follow the current one.\<close>

fun bump_failed :: "nat \<Rightarrow> nat \<Rightarrow> nat \<Rightarrow> MemoryPool \<Rightarrow> (nat \<times> nat \<times> MemoryPool) result" where
  "bump_failed 0 current cur s = Inl Diverges"
| "bump_failed (Suc fuel) current cur s =
     bind_r (small_at cur s) (\<lambda>n.
       case node_next n of None \<Rightarrow> Inr (current, cur, s)
       | Some nx \<Rightarrow> bump_failed fuel (if node_failed n \<ge> 5 then nx else current) nx
                      (set_small cur (n\<lparr>node_failed := node_failed n + 1\<rparr>) s))"

definition mallocSmallNode :: "nat \<Rightarrow> page \<Rightarrow> nat \<Rightarrow> MemoryPool \<Rightarrow> (nat option \<times> MemoryPool) result" where
  "mallocSmallNode fuel r sz s = (case r of None \<Rightarrow> Inr (None, s)
     | Some (block, mem) \<Rightarrow>
         let addr = mp_align_ptr (block + sizeof_SmallNode) MP_ALIGNMENT;
             smallNode = mem\<lparr>node_end := block + PAGE_SIZE, node_next := None, node_last := addr + sz, node_quote := node_quote mem + 1\<rparr>;
             s1 = (set_small block smallNode s)\<lparr>live := (live s)(block \<mapsto> PAGE_SIZE)\<rparr> in
         bind_r (bump_failed fuel (pool_current s1) (pool_current s1) s1) (\<lambda>(current, cur, s2).
         bind_r (small_at cur s2) (\<lambda>n.
           Inr (Some addr, (set_small cur (n\<lparr>node_next := Some block\<rparr>) s2)\<lparr>pool_current := current\<rparr>))))"

text \<open>The difference of the two pointers is converted to \<open>unsigned long\<close> for the comparison.\<close>

fun find_fit :: "nat \<Rightarrow> nat \<Rightarrow> nat option \<Rightarrow> MemoryPool \<Rightarrow> (nat \<times> nat) option result" where
  "find_fit 0 sz cur s = Inl Diverges"
| "find_fit (Suc fuel) sz cur s = (case cur of None \<Rightarrow> Inr None
     | Some a \<Rightarrow> bind_r (small_at a s) (\<lambda>n.
         let addr = mp_align_ptr (node_last n) MP_ALIGNMENT in
         if wrap64 (int (node_end n) - int addr) \<ge> sz then Inr (Some (a, addr))
         else find_fit fuel sz (node_next n) s))"

definition malloc_small :: "nat \<Rightarrow> page \<Rightarrow> nat \<Rightarrow> MemoryPool \<Rightarrow> (nat option \<times> MemoryPool) result" where
  "malloc_small fuel r sz s =
     bind_r (find_fit fuel sz (Some (pool_current s)) s) (\<lambda>found.
       case found of
         Some (a, addr) \<Rightarrow> bind_r (small_at a s) (\<lambda>n.
           Inr (Some addr, set_small a (n\<lparr>node_quote := node_quote n + 1, node_last := addr + sz\<rparr>) s))
       | None \<Rightarrow> mallocSmallNode fuel r sz s)"

text \<open>The search for a large node without a block looks at five nodes at most.\<close>

fun find_free_large :: "nat \<Rightarrow> nat \<Rightarrow> nat option \<Rightarrow> MemoryPool \<Rightarrow> nat option result" where
  "find_free_large 0 count p s = Inl Diverges"
| "find_free_large (Suc fuel) count p s = (case p of None \<Rightarrow> Inr None
     | Some y \<Rightarrow> bind_r (large_at y s) (\<lambda>n.
         if ln_address n = None then Inr (Some y)
         else if count > 3 then Inr None
         else find_free_large fuel (count + 1) (ln_next n) s))"

text \<open>\<open>this->malloc(sizeof(LargeNode))\<close> is served by the small path.\<close>

definition mallocLargeNode :: "nat \<Rightarrow> nat option \<Rightarrow> page \<Rightarrow> nat \<Rightarrow> MemoryPool \<Rightarrow> (nat option \<times> MemoryPool) result" where
  "mallocLargeNode fuel rl r sz s = (case rl of None \<Rightarrow> Inr (None, s)
     | Some addr \<Rightarrow>
         let s1 = s\<lparr>live := (live s)(addr \<mapsto> sz)\<rparr> in
         bind_r (find_free_large fuel 0 (largeList s1) s1) (\<lambda>found.
           case found of
             Some y \<Rightarrow> bind_r (large_at y s1) (\<lambda>n.
               Inr (Some addr, set_large y (n\<lparr>ln_size := of_nat sz, ln_address := Some addr\<rparr>) s1))
           | None \<Rightarrow> bind_r (malloc_small fuel r sizeof_LargeNode s1) (\<lambda>(ln, s2).
               case ln of
                 None \<Rightarrow> bind_r (free_block (Some addr) s2) (\<lambda>s3. Inr (None, s3))
               | Some y \<Rightarrow> Inr (Some addr,
                   (set_large y \<lparr>ln_address = Some addr, ln_size = of_nat sz, ln_next = largeList s2\<rparr> s2)\<lparr>largeList := Some y\<rparr>))))"

definition malloc :: "nat \<Rightarrow> nat option \<Rightarrow> page \<Rightarrow> nat \<Rightarrow> MemoryPool \<Rightarrow> (nat option \<times> MemoryPool) result" where
  "malloc fuel rl r sz s =
     (if sz \<le> 0 then Inr (None, s)
      else if sz > PAGE_SIZE - sizeof_SmallNode then mallocLargeNode fuel rl r sz s
      else malloc_small fuel r sz s)"

text \<open>The range \<open>calloc\<close> clears is part of its result.\<close>

definition calloc :: "nat \<Rightarrow> nat option \<Rightarrow> page \<Rightarrow> nat \<Rightarrow> MemoryPool \<Rightarrow>
    (nat option \<times> (nat \<times> nat) option \<times> MemoryPool) result" where
  "calloc fuel rl r sz s =
     bind_r (malloc fuel rl r sz s) (\<lambda>(addr, s'). Inr (addr, map_option (\<lambda>a. (a, sz)) addr, s'))"

fun find_large :: "nat \<Rightarrow> nat option \<Rightarrow> nat option \<Rightarrow> MemoryPool \<Rightarrow> nat option result" where
  "find_large 0 p l s = Inl Diverges"
| "find_large (Suc fuel) p l s = (case l of None \<Rightarrow> Inr None
     | Some y \<Rightarrow> bind_r (large_at y s) (\<lambda>n.
         if ln_address n = p then Inr (Some y) else find_large fuel p (ln_next n) s))"

fun find_small :: "nat \<Rightarrow> nat option \<Rightarrow> nat option \<Rightarrow> MemoryPool \<Rightarrow> nat option result" where
  "find_small 0 p l s = Inl Diverges"
| "find_small (Suc fuel) p l s = (case l of None \<Rightarrow> Inr None
     | Some a \<Rightarrow> bind_r (small_at a s) (\<lambda>n.
         if (case p of None \<Rightarrow> False | Some q \<Rightarrow> a \<le> q \<and> q \<le> node_end n) then Inr (Some a)
         else find_small fuel p (node_next n) s))"

definition freeMemory :: "nat \<Rightarrow> nat option \<Rightarrow> MemoryPool \<Rightarrow> MemoryPool result" where
  "freeMemory fuel p s =
     bind_r (find_large fuel p (largeList s) s) (\<lambda>found.
       case found of
         Some y \<Rightarrow> bind_r (large_at y s) (\<lambda>n.
                   bind_r (free_block (ln_address n) s) (\<lambda>s1.
                     Inr (set_large y (n\<lparr>ln_size := 0, ln_address := None\<rparr>) s1)))
       | None \<Rightarrow> bind_r (find_small fuel p (Some (pool_head s)) s) (\<lambda>found2.
           case found2 of
             None \<Rightarrow> Inr s
           | Some a \<Rightarrow> bind_r (small_at a s) (\<lambda>n.
               let n1 = n\<lparr>node_quote := node_quote n - 1\<rparr> in
               if node_quote n1 = 0
               then Inr ((set_small a (n1\<lparr>node_last := (if a = pool_head s then pool_base s + sizeof_Pool + sizeof_SmallNode
                                                  else a + sizeof_SmallNode), node_failed := 0\<rparr>) s)\<lparr>pool_current := pool_head s\<rparr>)
               else Inr (set_small a n1 s))))"

fun free_larges :: "nat \<Rightarrow> nat option \<Rightarrow> MemoryPool \<Rightarrow> MemoryPool result" where
  "free_larges 0 l s = Inl Diverges"
| "free_larges (Suc fuel) l s = (case l of None \<Rightarrow> Inr s
     | Some y \<Rightarrow> bind_r (large_at y s) (\<lambda>n. bind_r (free_block (ln_address n) s) (\<lambda>s1. free_larges fuel (ln_next n) s1)))"

fun reset_smalls :: "nat \<Rightarrow> nat option \<Rightarrow> MemoryPool \<Rightarrow> MemoryPool result" where
  "reset_smalls 0 l s = Inl Diverges"
| "reset_smalls (Suc fuel) l s = (case l of None \<Rightarrow> Inr s
     | Some a \<Rightarrow> bind_r (small_at a s) (\<lambda>n. reset_smalls fuel (node_next n)
         (set_small a (n\<lparr>node_last := a + sizeof_SmallNode, node_failed := 0, node_quote := 0\<rparr>) s)))"

definition resetPool :: "nat \<Rightarrow> MemoryPool \<Rightarrow> MemoryPool result" where
  "resetPool fuel s =
     bind_r (free_larges fuel (largeList s) s) (\<lambda>s1.
       reset_smalls fuel (Some (pool_head s1)) (s1\<lparr>largeList := None, pool_current := pool_head s1\<rparr>))"

text \<open>
  \<open>destroyPool\<close> clears the address of each large node it frees. For a small node it frees the block
  and then reads \<open>node_next\<close> from it.
\<close>

fun destroy_larges :: "nat \<Rightarrow> nat option \<Rightarrow> MemoryPool \<Rightarrow> MemoryPool result" where
  "destroy_larges 0 l s = Inl Diverges"
| "destroy_larges (Suc fuel) l s = (case l of None \<Rightarrow> Inr s
     | Some y \<Rightarrow> bind_r (large_at y s) (\<lambda>n.
         bind_r (free_block (ln_address n) s) (\<lambda>s1.
           destroy_larges fuel (ln_next n) (if ln_address n = None then s1 else set_large y (n\<lparr>ln_address := None\<rparr>) s1))))"

fun destroy_smalls :: "nat \<Rightarrow> nat option \<Rightarrow> MemoryPool \<Rightarrow> MemoryPool result" where
  "destroy_smalls 0 l s = Inl Diverges"
| "destroy_smalls (Suc fuel) l s = (case l of None \<Rightarrow> Inr s
     | Some a \<Rightarrow> bind_r (small_at a s) (\<lambda>n.
         bind_r (free_block (Some a) s) (\<lambda>s1.
           if live s1 a = None then Inl UseAfterFree else destroy_smalls fuel (node_next n) s1)))"

definition destroyPool :: "nat \<Rightarrow> MemoryPool \<Rightarrow> MemoryPool result" where
  "destroyPool fuel s =
     bind_r (destroy_larges fuel (largeList s) s) (\<lambda>s1.
     bind_r (small_at (pool_head s1) s1) (\<lambda>h.
     bind_r (destroy_smalls fuel (node_next h) s1) (\<lambda>s2. free_block (Some (pool_base s2)) s2)))"

end
