(* ===== verification/Pool_Small_Blocks.thy ===== *)
theory Pool_Small_Blocks
  imports Memory_Pool
begin

text \<open>
  The small blocks of the memory pool: alignment, the chains of nodes, and the invariant that
  every region handed out lies in one node, behind its header, apart from every other.
\<close>

section \<open>Lemmas: alignment and chains\<close>

lemmas mp_sizes = PAGE_SIZE_def MP_ALIGNMENT_def sizeof_Pool_def sizeof_SmallNode_def sizeof_LargeNode_def

lemma and_not_low_bits: "(w :: 64 word) AND NOT 15 = push_bit 4 (drop_bit 4 w)"
proof -
  have m: "(15 :: 64 word) = mask 4" by (simp add: mask_eq_exp_minus_1)
  show ?thesis unfolding m by (rule bit_word_eqI) (auto simp: bit_push_bit_iff bit_drop_bit_eq bit_and_iff bit_not_iff bit_mask_iff)
qed

text \<open>Alignment rounds up to a multiple of 16, as long as the address space does not end.\<close>

lemma mp_align_ptr_eq: "p + 15 < 2 ^ 64 \<Longrightarrow> mp_align_ptr p 16 = (p + 15) div 16 * 16"
proof -
  assume p: "p + 15 < 2 ^ 64"
  have w: "word_of_nat p + (word_of_nat 16 - 1) = (word_of_nat (p + 15) :: 64 word)" by simp
  have n: "(word_of_nat 16 - 1 :: 64 word) = 15" by simp
  have "(p + 15) div 16 * 16 < 2 ^ 64" using p by linarith
  moreover have "unat (word_of_nat (p + 15) :: 64 word) = p + 15"
    using p by (simp add: unsigned_of_nat take_bit_nat_eq_self del: of_nat_add)
  ultimately have "unat (push_bit 4 (drop_bit 4 (word_of_nat (p + 15) :: 64 word))) = (p + 15) div 16 * 16"
    by (simp only: unsigned_push_bit_eq unat_drop_bit_eq)
      (simp add: push_bit_eq_mult drop_bit_eq_div take_bit_nat_eq_self)
  then show ?thesis unfolding mp_align_ptr_def w n and_not_low_bits by simp
qed

lemma mp_align_ptr_bounds:
  assumes "p + 15 < 2 ^ 64"
  shows "p \<le> mp_align_ptr p 16" "mp_align_ptr p 16 \<le> p + 15" "16 dvd mp_align_ptr p 16"
    and "16 dvd e \<Longrightarrow> p \<le> e \<Longrightarrow> mp_align_ptr p 16 \<le> e"
proof -
  show "p \<le> mp_align_ptr p 16" "mp_align_ptr p 16 \<le> p + 15" "16 dvd mp_align_ptr p 16"
    unfolding mp_align_ptr_eq[OF assms] by simp_all
  show "mp_align_ptr p 16 \<le> e" if "16 dvd e" "p \<le> e"
  proof -
    from that obtain k where e: "e = 16 * k" by blast
    then have "(p + 15) div 16 \<le> k" using that div_le_mono[of "p + 15" "16 * k + 15" 16] by simp
    then show ?thesis unfolding mp_align_ptr_eq[OF assms] e by simp
  qed
qed

fun chain :: "(nat \<rightharpoonup> SmallNode) \<Rightarrow> nat option \<Rightarrow> nat list \<Rightarrow> bool" where
  "chain m p [] \<longleftrightarrow> p = None"
| "chain m p (a # as) \<longleftrightarrow> p = Some a \<and> (case m a of None \<Rightarrow> False | Some n \<Rightarrow> chain m (node_next n) as)"

lemma chain_dom: "chain m p xs \<Longrightarrow> a \<in> set xs \<Longrightarrow> m a \<noteq> None"
  by (induction xs arbitrary: p) (auto split: option.splits)

lemma chain_suffix: "chain m p (xs @ c # zs) \<Longrightarrow> chain m (Some c) (c # zs)"
proof (induction xs arbitrary: p)
  case (Cons a xs)
  then show ?case by (cases "m a") auto
qed simp

lemma chain_cong:
  "(\<And>a. a \<in> set xs \<Longrightarrow> map_option node_next (m' a) = map_option node_next (m a)) \<Longrightarrow> chain m' p xs = chain m p xs"
proof (induction xs arbitrary: p)
  case (Cons a xs)
  have "map_option node_next (m' a) = map_option node_next (m a)" using Cons.prems by simp
  moreover have "chain m' q xs = chain m q xs" for q using Cons by simp
  ultimately show ?case by (cases "m a"; cases "m' a") auto
qed simp

lemma chain_snoc:
  assumes "chain m p xs" "xs \<noteq> []" "distinct xs" "b \<notin> set xs" "m (last xs) = Some n"
    and "m b = Some bn" "node_next bn = None"
  shows "chain (m(last xs \<mapsto> n\<lparr>node_next := Some b\<rparr>)) p (xs @ [b])"
  using assms
proof (induction xs arbitrary: p)
  case (Cons a xs)
  then show ?case by (cases "xs = []") (auto split: option.splits)
qed simp

text \<open>The search for room returns within the length of the chain.\<close>

lemma find_fit_total:
  assumes "chain (smalls s) p zs" "length zs < fuel"
    and "\<And>a. a \<in> set zs \<Longrightarrow> node_last (the (smalls s a)) + 15 < 2 ^ 64 \<and> node_last (the (smalls s a)) \<le> node_end (the (smalls s a)) \<and>
      16 dvd node_end (the (smalls s a)) \<and> node_end (the (smalls s a)) < 2 ^ 64"
  shows "\<exists>res. find_fit fuel sz p s = Inr res \<and>
    (\<forall>a addr. res = Some (a, addr) \<longrightarrow> a \<in> set zs \<and> addr = mp_align_ptr (node_last (the (smalls s a))) 16 \<and>
       addr + sz \<le> node_end (the (smalls s a)))"
  using assms
proof (induction zs arbitrary: p fuel)
  case Nil
  then show ?case by (cases fuel) auto
next
  case (Cons a zs)
  obtain f where f: "fuel = Suc f" using Cons.prems(2) by (cases fuel) auto
  obtain n where n: "smalls s a = Some n" "chain (smalls s) (node_next n) zs" "p = Some a"
    using Cons.prems(1) by (auto split: option.splits)
  define addr where "addr = mp_align_ptr (node_last n) 16"
  have b: "node_last n + 15 < 2 ^ 64" "node_last n \<le> node_end n" "16 dvd node_end n" "node_end n < 2 ^ 64"
    using Cons.prems(3)[of a] n(1) by auto
  then have le: "addr \<le> node_end n" unfolding addr_def using mp_align_ptr_bounds(4)[OF b(1)] by blast
  then have w: "wrap64 (int (node_end n) - int addr) = node_end n - addr" using b(4) by (simp add: wrap64_def)
  show ?case
  proof (cases "sz \<le> node_end n - addr")
    case True
    then show ?thesis using n f w le by (simp add: small_at_def addr_def Let_def MP_ALIGNMENT_def)
  next
    case False
    from Cons.IH[OF n(2), of f] Cons.prems f obtain res where
      "find_fit f sz (node_next n) s = Inr res"
      "\<forall>a addr. res = Some (a, addr) \<longrightarrow> a \<in> set zs \<and> addr = mp_align_ptr (node_last (the (smalls s a))) 16 \<and>
         addr + sz \<le> node_end (the (smalls s a))" by auto
    then show ?thesis using n f w False by (simp add: small_at_def addr_def Let_def MP_ALIGNMENT_def)
  qed
qed

text \<open>The walk of \<open>mallocSmallNode\<close> ends at the last node and changes failure counts only.\<close>

definition same_but_failed :: "(nat \<rightharpoonup> SmallNode) \<Rightarrow> (nat \<rightharpoonup> SmallNode) \<Rightarrow> bool" where
  "same_but_failed m m' \<longleftrightarrow> (\<forall>a. \<exists>f. m' a = map_option (\<lambda>n. n\<lparr>node_failed := f\<rparr>) (m a))"

lemma same_but_failed_refl: "same_but_failed m m"
proof -
  have "\<exists>f. m a = map_option (\<lambda>n. n\<lparr>node_failed := f\<rparr>) (m a)" for a
  proof (cases "m a")
    case (Some n)
    then show ?thesis by (intro exI[of _ "node_failed n"]) simp
  qed simp
  then show ?thesis by (simp add: same_but_failed_def)
qed

lemma same_but_failed_step:
  assumes "same_but_failed (m(a \<mapsto> n\<lparr>node_failed := g\<rparr>)) m'" "m a = Some n"
  shows "same_but_failed m m'"
  unfolding same_but_failed_def
proof
  fix b
  obtain f where "m' b = map_option (\<lambda>n. n\<lparr>node_failed := f\<rparr>) ((m(a \<mapsto> n\<lparr>node_failed := g\<rparr>)) b)"
    using assms(1) by (auto simp: same_but_failed_def)
  then show "\<exists>f. m' b = map_option (\<lambda>n. n\<lparr>node_failed := f\<rparr>) (m b)"
    using assms(2) by (intro exI[of _ f]) (auto split: if_splits)
qed

lemma same_but_failed_chain:
  assumes "same_but_failed m m'"
  shows "chain m' p xs = chain m p xs"
proof (rule chain_cong)
  fix a
  obtain f where "m' a = map_option (\<lambda>n. n\<lparr>node_failed := f\<rparr>) (m a)" using assms by (auto simp: same_but_failed_def)
  then show "map_option node_next (m' a) = map_option node_next (m a)" by (cases "m a") auto
qed

lemma bump_failed_total:
  assumes "chain (smalls s) (Some cur) (cur # zs)" "length zs < fuel"
  shows "\<exists>cu s'. bump_failed fuel c0 cur s = Inr (cu, last (cur # zs), s') \<and> cu \<in> insert c0 (set zs) \<and>
    (\<exists>m'. s' = s\<lparr>smalls := m'\<rparr> \<and> same_but_failed (smalls s) m')"
  using assms
proof (induction zs arbitrary: cur c0 fuel s)
  case Nil
  then obtain f n where "fuel = Suc f" "smalls s cur = Some n" "node_next n = None"
    by (cases fuel) (auto split: option.splits)
  then show ?case by (auto simp: small_at_def intro!: exI[of _ "smalls s"] same_but_failed_refl)
next
  case (Cons b zs)
  then obtain f n where f: "fuel = Suc f" and n: "smalls s cur = Some n" "node_next n = Some b" "chain (smalls s) (Some b) (b # zs)"
    by (cases fuel) (auto split: option.splits)
  define s1 where "s1 = set_small cur (n\<lparr>node_failed := node_failed n + 1\<rparr>) s"
  have sm: "smalls s1 = (smalls s)(cur \<mapsto> n\<lparr>node_failed := node_failed n + 1\<rparr>)" by (simp add: s1_def set_small_def)
  have "chain (smalls s1) (Some b) (b # zs)"
    using n(3) chain_cong[of "b # zs" "smalls s1" "smalls s"] n(1) by (simp add: sm del: chain.simps)
  from Cons.IH[OF this, of f "if node_failed n \<ge> 5 then b else c0"] Cons.prems(2) f obtain cu s' m' where
    "bump_failed f (if node_failed n \<ge> 5 then b else c0) b s1 = Inr (cu, last (b # zs), s')"
    "cu \<in> insert (if node_failed n \<ge> 5 then b else c0) (set zs)" "s' = s1\<lparr>smalls := m'\<rparr>" "same_but_failed (smalls s1) m'"
    by auto
  moreover have "same_but_failed (smalls s) m'"
    using same_but_failed_step[of "smalls s" cur "node_failed n + 1" n m'] calculation(4) n(1) by (simp add: sm)
  ultimately show ?case using f n by (auto simp: small_at_def s1_def set_small_def split: if_splits)
qed


section \<open>Lemmas: the invariant of the small blocks\<close>

text \<open>
  A region is an address and a length. \<open>R\<close> is the set of regions handed out and not yet given
  back, the large nodes included.
\<close>

type_synonym region = "nat \<times> nat"

definition apart :: "region \<Rightarrow> region \<Rightarrow> bool" where
  "apart r q \<longleftrightarrow> fst r + snd r \<le> fst q \<or> fst q + snd q \<le> fst r"

definition pairwise_apart :: "region set \<Rightarrow> bool" where
  "pairwise_apart R \<longleftrightarrow> (\<forall>r\<in>R. \<forall>q\<in>R. r \<noteq> q \<longrightarrow> apart r q)"

definition base_of :: "MemoryPool \<Rightarrow> nat \<Rightarrow> nat" where
  "base_of s a = (if a = pool_head s then pool_base s else a)"

abbreviation nd :: "MemoryPool \<Rightarrow> nat \<Rightarrow> SmallNode" where "nd s a \<equiv> the (smalls s a)"

definition in_node :: "MemoryPool \<Rightarrow> nat \<Rightarrow> region \<Rightarrow> bool" where
  "in_node s a r \<longleftrightarrow> a + 32 \<le> fst r \<and> fst r + snd r \<le> base_of s a + 4096"

definition node_ok :: "MemoryPool \<Rightarrow> nat \<Rightarrow> bool" where
  "node_ok s a \<longleftrightarrow> live s (base_of s a) = Some 4096 \<and> 16 dvd base_of s a \<and> base_of s a + 4112 < 2 ^ 64 \<and>
     base_of s a \<le> a \<and> a + 32 \<le> node_last (nd s a) \<and> node_last (nd s a) \<le> node_end (nd s a) \<and>
     node_end (nd s a) = base_of s a + 4096"

definition blocks_ok :: "(nat \<rightharpoonup> nat) \<Rightarrow> bool" where
  "blocks_ok l \<longleftrightarrow> (\<forall>a k. l a = Some k \<longrightarrow> 0 < k) \<and>
     (\<forall>a k b j. l a = Some k \<longrightarrow> l b = Some j \<longrightarrow> a \<noteq> b \<longrightarrow> apart (a, k) (b, j))"

definition placed :: "MemoryPool \<Rightarrow> nat list \<Rightarrow> region \<Rightarrow> bool" where
  "placed s xs r \<longleftrightarrow> 0 < snd r \<and> 16 dvd fst r \<and>
     (\<exists>a\<in>set xs. a + 32 \<le> fst r \<and> fst r + snd r \<le> node_last (nd s a))"

definition pool_shape :: "MemoryPool \<Rightarrow> nat list \<Rightarrow> bool" where
  "pool_shape s xs \<longleftrightarrow> pool_head s = pool_base s + 24 \<and> chain (smalls s) (Some (pool_head s)) xs \<and> distinct xs \<and>
     pool_base s \<notin> set xs \<and> pool_current s \<in> set xs \<and> (\<forall>a\<in>set xs. node_ok s a) \<and> blocks_ok (live s)"

text \<open>
  The count of a node: the number of regions taken from it, on top of what the memory of its page held
  where the field lies, which nothing initialises. That is harmless as long as the count cannot come
  round to zero while regions are held; a node has at most 4096 of them.
\<close>

definition harmless_count :: "32 word \<Rightarrow> bool" where
  "harmless_count q \<longleftrightarrow> unat q + 4096 < 2 ^ 32"

definition counts :: "32 word \<Rightarrow> nat \<Rightarrow> bool" where
  "counts q n \<longleftrightarrow> (\<exists>q0. q0 + 4096 < 2 ^ 32 \<and> q = of_nat (q0 + n))"

lemma counts_Suc: "counts q n \<Longrightarrow> counts (q + 1) (Suc n)"
proof -
  assume "counts q n"
  then obtain q0 where "q0 + 4096 < 2 ^ 32" "q = of_nat (q0 + n)" by (auto simp: counts_def)
  then show ?thesis by (auto simp: counts_def intro!: exI[of _ q0])
qed

lemma counts_pred: "counts q (Suc n) \<Longrightarrow> counts (q - 1) n"
proof -
  assume "counts q (Suc n)"
  then obtain q0 where "q0 + 4096 < 2 ^ 32" "q = of_nat (q0 + Suc n)" by (auto simp: counts_def)
  then show ?thesis by (auto simp: counts_def intro!: exI[of _ q0])
qed

lemma counts_zero: "counts 0 n \<Longrightarrow> n \<le> 4096 \<Longrightarrow> n = 0"
proof -
  assume c: "counts 0 n" and n: "n \<le> 4096"
  then obtain q0 where q0: "q0 + 4096 < 2 ^ 32" "(of_nat (q0 + n) :: 32 word) = 0" by (auto simp: counts_def)
  then have "2 ^ 32 dvd q0 + n" by (simp add: word_of_nat_eq_0_iff del: of_nat_add)
  moreover have "q0 + n < 2 ^ 32" using q0(1) n by simp
  ultimately have "q0 + n = 0" by (auto dest: nat_dvd_not_less)
  then show "n = 0" by simp
qed

lemma counts_harmless: "harmless_count q \<Longrightarrow> counts q 0" "harmless_count q \<Longrightarrow> counts (q + 1) 1" "counts 0 0"
proof -
  show c: "counts q 0" if "harmless_count q" using that by (auto simp: counts_def harmless_count_def intro!: exI[of _ "unat q"])
  show "counts (q + 1) 1" if "harmless_count q" using counts_Suc[OF c[OF that]] by simp
  show "counts 0 0" by (auto simp: counts_def intro!: exI[of _ 0])
qed

definition small_inv :: "MemoryPool \<Rightarrow> nat list \<Rightarrow> region set \<Rightarrow> bool" where
  "small_inv s xs R \<longleftrightarrow> pool_shape s xs \<and> finite R \<and> pairwise_apart R \<and> (\<forall>r\<in>R. placed s xs r) \<and>
     (\<forall>a\<in>set xs. counts (node_quote (nd s a)) (card {r\<in>R. in_node s a r}))"

lemma apart_sym: "apart r q \<Longrightarrow> apart q r"
  by (auto simp: apart_def)

text \<open>Parts of two different blocks are apart.\<close>

lemma apart_in_blocks:
  assumes "blocks_ok l" "l b = Some k" "l c = Some j" "b \<noteq> c"
    and "b \<le> fst r" "fst r + snd r \<le> b + k" "c \<le> fst q" "fst q + snd q \<le> c + j"
  shows "apart r q"
proof -
  have "apart (b, k) (c, j)" using assms(1-4) by (simp add: blocks_ok_def)
  with assms(5-8) show ?thesis by (auto simp: apart_def)
qed

lemma base_of_inj:
  "pool_shape s xs \<Longrightarrow> a \<in> set xs \<Longrightarrow> b \<in> set xs \<Longrightarrow> base_of s a = base_of s b \<Longrightarrow> a = b"
  by (auto simp: base_of_def pool_shape_def split: if_splits)

lemma pool_shape_node: "pool_shape s xs \<Longrightarrow> a \<in> set xs \<Longrightarrow> node_ok s a"
  by (simp add: pool_shape_def)

lemma pool_shape_chain: "pool_shape s xs \<Longrightarrow> chain (smalls s) (Some (pool_head s)) xs"
  unfolding pool_shape_def by blast

lemma nodes_apart:
  assumes "pool_shape s xs" "a \<in> set xs" "b \<in> set xs" "a \<noteq> b" "in_node s a r" "in_node s b q"
  shows "apart r q"
proof (rule apart_in_blocks[of "live s" "base_of s a" 4096 "base_of s b" 4096])
  show "base_of s a \<noteq> base_of s b" using base_of_inj[OF assms(1-3)] assms(4) by blast
  show "blocks_ok (live s)" using assms(1) by (simp add: pool_shape_def)
  show "live s (base_of s a) = Some 4096" "live s (base_of s b) = Some 4096"
    using pool_shape_node[OF assms(1)] assms(2,3) by (simp_all add: node_ok_def)
qed (use pool_shape_node[OF assms(1,2)] pool_shape_node[OF assms(1,3)] assms(5,6) in \<open>auto simp: node_ok_def in_node_def\<close>)

lemma placed_in_node:
  assumes "pool_shape s xs" "placed s xs r"
  shows "\<exists>a\<in>set xs. in_node s a r \<and> fst r + snd r \<le> node_last (nd s a)"
proof -
  obtain a where a: "a \<in> set xs" "a + 32 \<le> fst r" "fst r + snd r \<le> node_last (nd s a)"
    using assms(2) by (auto simp: placed_def)
  then show ?thesis using pool_shape_node[OF assms(1) a(1)] by (auto simp: in_node_def node_ok_def)
qed

lemma in_node_unique:
  assumes "pool_shape s xs" "a \<in> set xs" "b \<in> set xs" "in_node s a r" "in_node s b r" "0 < snd r"
  shows "a = b"
  using nodes_apart[OF assms(1-3) _ assms(4,5)] assms(6) by (auto simp: apart_def)

text \<open>A region past the end of what its node has handed out is apart from every region held.\<close>

lemma new_region_apart:
  assumes "small_inv s xs R" "a \<in> set xs" "node_last (nd s a) \<le> u" "in_node s a (u, k)" "q \<in> R"
  shows "apart (u, k) q"
proof -
  have sh: "pool_shape s xs" using assms(1) by (simp add: small_inv_def)
  obtain b where b: "b \<in> set xs" "in_node s b q" "fst q + snd q \<le> node_last (nd s b)"
    using placed_in_node[OF sh] assms(1,5) unfolding small_inv_def by blast
  show ?thesis
  proof (cases "a = b")
    case True
    with b assms(3) show ?thesis by (auto simp: apart_def)
  next
    case False
    from nodes_apart[OF sh assms(2) b(1) False assms(4) b(2)] show ?thesis .
  qed
qed

lemma card_in_node:
  assumes "small_inv s xs R"
  shows "card {r\<in>R. in_node s a r} \<le> 4096"
proof -
  let ?A = "{r\<in>R. in_node s a r}"
  have "inj_on fst ?A"
  proof (rule inj_onI)
    fix r q assume r: "r \<in> ?A" "q \<in> ?A" "fst r = fst q"
    then have "0 < snd r" "0 < snd q" using assms by (auto simp: small_inv_def placed_def)
    with r show "r = q" using assms unfolding small_inv_def pairwise_apart_def apart_def
      by (metis (no_types, lifting) add_le_same_cancel1 linorder_not_less mem_Collect_eq)
  qed
  moreover have "fst ` ?A \<subseteq> {base_of s a..<base_of s a + 4096}"
  proof
    fix u assume "u \<in> fst ` ?A"
    then obtain k where r: "(u, k) \<in> R" "in_node s a (u, k)" by auto
    then have "0 < k" using assms by (auto simp: small_inv_def placed_def)
    then show "u \<in> {base_of s a..<base_of s a + 4096}"
      using r(2) assms by (auto simp: in_node_def base_of_def small_inv_def pool_shape_def split: if_splits)
  qed
  ultimately show ?thesis using card_mono[of "{base_of s a..<base_of s a + 4096}" "fst ` ?A"] by (simp add: card_image)
qed


text \<open>
  What \<open>posix_memalign\<close> promises of a page: it is aligned, inside the address space, and apart from
  every block in use. Its contents are arbitrary; \<open>page_harmless\<close> says that they happen to hold a
  harmless count.
\<close>

definition page_placed :: "nat \<Rightarrow> bool" where
  "page_placed b \<longleftrightarrow> 16 dvd b \<and> b + 4112 < 2 ^ 64"

definition page_ok :: "MemoryPool \<Rightarrow> page \<Rightarrow> bool" where
  "page_ok s r \<longleftrightarrow> (case r of None \<Rightarrow> True
     | Some (b, mem) \<Rightarrow> page_placed b \<and> (\<forall>c k. live s c = Some k \<longrightarrow> apart (b, 4096) (c, k)))"

definition page_harmless :: "page \<Rightarrow> bool" where
  "page_harmless r \<longleftrightarrow> (case r of None \<Rightarrow> True | Some (b, mem) \<Rightarrow> harmless_count (node_quote mem))"

lemma base_of_cong: "pool_head s' = pool_head s \<Longrightarrow> pool_base s' = pool_base s \<Longrightarrow> base_of s' = base_of s"
  by (simp add: base_of_def fun_eq_iff)

lemma in_node_cong: "pool_head s' = pool_head s \<Longrightarrow> pool_base s' = pool_base s \<Longrightarrow> in_node s' = in_node s"
  by (simp add: in_node_def fun_eq_iff base_of_def)

lemma set_small_sel [simp]:
  "pool_head (set_small a n s) = pool_head s" "pool_base (set_small a n s) = pool_base s"
  "pool_current (set_small a n s) = pool_current s" "live (set_small a n s) = live s"
  "larges (set_small a n s) = larges s" "largeList (set_small a n s) = largeList s"
  "smalls (set_small a n s) = (smalls s)(a \<mapsto> n)"
  by (simp_all add: set_small_def)

lemma set_small_shape:
  assumes "pool_shape s xs" "a \<in> set xs" "node_next n' = node_next (nd s a)" "node_end n' = node_end (nd s a)"
    and "a + 32 \<le> node_last n'" "node_last n' \<le> node_end n'"
  shows "pool_shape (set_small a n' s) xs"
proof -
  have b: "base_of (set_small a n' s) = base_of s" by (rule base_of_cong) simp_all
  obtain n where n: "smalls s a = Some n" using chain_dom[of "smalls s" _ xs a] assms(1,2) by (auto simp: pool_shape_def)
  have "chain (smalls (set_small a n' s)) p xs = chain (smalls s) p xs" for p
    by (rule chain_cong) (use n assms(3) in auto)
  moreover have "node_ok (set_small a n' s) c" if "c \<in> set xs" for c
    using pool_shape_node[OF assms(1) that] assms(4-6) n by (auto simp: node_ok_def b)
  ultimately show ?thesis using assms(1) unfolding pool_shape_def by auto
qed

lemma node_last_end:
  assumes "pool_shape s xs" "a \<in> set xs"
  shows "node_last (nd s a) + 15 < 2 ^ 64 \<and> node_last (nd s a) \<le> node_end (nd s a) \<and>
    16 dvd node_end (nd s a) \<and> node_end (nd s a) < 2 ^ 64"
  using pool_shape_node[OF assms] by (auto simp: node_ok_def)

text \<open>Handing out the next aligned part of a node.\<close>

lemma take_from_node:
  assumes inv: "small_inv s xs R" and a: "a \<in> set xs" and addr: "addr = mp_align_ptr (node_last (nd s a)) 16"
    and room: "addr + sz \<le> node_end (nd s a)" "0 < sz"
    and s': "s' = set_small a ((nd s a)\<lparr>node_quote := node_quote (nd s a) + 1, node_last := addr + sz\<rparr>) s"
  shows "small_inv s' xs (insert (addr, sz) R)" "\<forall>q\<in>R. apart (addr, sz) q"
proof -
  have sh: "pool_shape s xs" using inv by (simp add: small_inv_def)
  have nk: "node_ok s a" using pool_shape_node[OF sh a] .
  have al: "node_last (nd s a) \<le> addr" "16 dvd addr"
    using mp_align_ptr_bounds(1,3)[of "node_last (nd s a)"] node_last_end[OF sh a] by (simp_all add: addr)
  have new: "in_node s a (addr, sz)" using nk al room by (simp add: in_node_def node_ok_def)
  show ap: "\<forall>q\<in>R. apart (addr, sz) q" using new_region_apart[OF inv a al(1) new] by blast
  have sh': "pool_shape s' xs" unfolding s' by (rule set_small_shape[OF sh a]) (use nk al room in \<open>simp_all add: node_ok_def\<close>)
  have i: "in_node s' = in_node s" unfolding s' by (rule in_node_cong) simp_all
  have fresh: "(addr, sz) \<notin> R" using ap room(2) by (auto simp: apart_def)
  have fin: "finite R" using inv by (simp add: small_inv_def)
  have "placed s' xs r" if "r \<in> insert (addr, sz) R" for r
  proof (cases "r = (addr, sz)")
    case True
    with a nk al room show ?thesis by (auto simp: placed_def s' node_ok_def)
  next
    case False
    then have "placed s xs r" using that inv by (simp add: small_inv_def)
    then show ?thesis using al by (fastforce simp: placed_def s')
  qed
  moreover have "counts (node_quote (nd s' c)) (card {r\<in>insert (addr, sz) R. in_node s' c r})" if c: "c \<in> set xs" for c
  proof (cases "c = a")
    case True
    have "{r\<in>insert (addr, sz) R. in_node s' c r} = insert (addr, sz) {r\<in>R. in_node s a r}" using new True by (auto simp: i)
    then show ?thesis using True fresh fin inv a by (simp add: s' small_inv_def counts_Suc)
  next
    case False
    have "\<not> in_node s c (addr, sz)" using in_node_unique[OF sh c a _ new] False room(2) by auto
    then have "{r\<in>insert (addr, sz) R. in_node s' c r} = {r\<in>R. in_node s c r}" by (auto simp: i)
    then show ?thesis using False inv c by (simp add: s' small_inv_def)
  qed
  moreover have "pairwise_apart (insert (addr, sz) R)"
    using ap inv by (auto simp: pairwise_apart_def small_inv_def intro: apart_sym)
  ultimately show "small_inv s' xs (insert (addr, sz) R)" using sh' fin by (simp add: small_inv_def)
qed


text \<open>A new page, linked behind the last node.\<close>

lemma page_not_node:
  assumes "pool_shape s xs" "page_ok s (Some (b, mem))"
  shows "b \<notin> set xs" "b \<noteq> pool_base s" "b \<noteq> pool_head s" "live s b = None"
proof -
  have ap: "apart (b, 4096) (c, k)" if "live s c = Some k" for c k using assms(2) that by (simp add: page_ok_def)
  have pos: "0 < k" if "live s c = Some k" for c k using assms(1) that by (auto simp: pool_shape_def blocks_ok_def)
  show "live s b = None" using ap[of b] pos[of b] by (cases "live s b") (auto simp: apart_def)
  have h: "pool_head s \<in> set xs" "pool_head s = pool_base s + 24" using assms(1) by (cases xs; auto simp: pool_shape_def)+
  then have "live s (pool_base s) = Some 4096" using pool_shape_node[OF assms(1) h(1)] by (simp add: node_ok_def base_of_def)
  then show "b \<noteq> pool_base s" "b \<noteq> pool_head s" using ap[of "pool_base s" 4096] h(2) by (auto simp: apart_def)
  show "b \<notin> set xs"
  proof
    assume b: "b \<in> set xs"
    with pool_shape_node[OF assms(1) b] ap[of b 4096] \<open>b \<noteq> pool_head s\<close> show False
      by (simp add: node_ok_def base_of_def apart_def)
  qed
qed

lemma blocks_ok_insert:
  "blocks_ok l \<Longrightarrow> 0 < k \<Longrightarrow> (\<And>c j. l c = Some j \<Longrightarrow> apart (b, k) (c, j)) \<Longrightarrow> blocks_ok (l(b \<mapsto> k))"
  unfolding blocks_ok_def by (auto intro: apart_sym)

lemma link_new_node:
  assumes inv: "small_inv s xs R" and pg: "page_ok s (Some (b, mem))" and sz: "0 < sz" "sz \<le> 4064"
    and same: "\<And>a. a \<in> set xs \<Longrightarrow> node_last (nd s' a) = node_last (nd s a) \<and> node_end (nd s' a) = node_end (nd s a) \<and>
      node_quote (nd s' a) = node_quote (nd s a)"
    and new: "node_last (nd s' b) = b + 32 + sz" "node_end (nd s' b) = b + 4096" "counts (node_quote (nd s' b)) 1"
    and ch: "chain (smalls s') (Some (pool_head s)) (xs @ [b])" "pool_current s' \<in> set xs"
    and fld: "pool_head s' = pool_head s" "pool_base s' = pool_base s" "live s' = (live s)(b \<mapsto> 4096)"
  shows "small_inv s' (xs @ [b]) (insert (b + 32, sz) R)" "\<forall>q\<in>R. apart (b + 32, sz) q"
proof -
  have sh: "pool_shape s xs" using inv by (simp add: small_inv_def)
  note nb = page_not_node[OF sh pg]
  have i: "in_node s' = in_node s" by (rule in_node_cong) (simp_all add: fld)
  have ba: "base_of s' = base_of s" by (rule base_of_cong) (simp_all add: fld)
  have bb: "base_of s' b = b" using nb(3) by (simp add: base_of_def fld)
  have al: "16 dvd b" "b + 4112 < 2 ^ 64" using pg by (simp_all add: page_ok_def page_placed_def)
  have old: "node_ok s' a" if a: "a \<in> set xs" for a
  proof -
    have "base_of s a \<noteq> b" using nb a by (auto simp: base_of_def)
    then show ?thesis using pool_shape_node[OF sh a] same[OF a] by (simp add: node_ok_def ba fld)
  qed
  have nbok: "node_ok s' b" using al new sz by (simp add: node_ok_def bb fld)
  have bl: "blocks_ok (live s')" unfolding fld
    by (rule blocks_ok_insert) (use sh pg in \<open>auto simp: pool_shape_def page_ok_def\<close>)
  have sh': "pool_shape s' (xs @ [b])"
    unfolding pool_shape_def using sh ch nb old nbok bl by (auto simp: pool_shape_def fld)
  have pl: "placed s' (xs @ [b]) r" if "r \<in> R" for r
  proof -
    have "placed s xs r" using inv that by (simp add: small_inv_def)
    then show ?thesis using same by (auto simp: placed_def)
  qed
  have inb: "in_node s' b (b + 32, sz)" using sz by (simp add: in_node_def bb)
  have notb: "\<not> in_node s' b r" if r: "r \<in> R" for r
  proof
    assume n: "in_node s' b r"
    have p: "placed s xs r" using inv r by (simp add: small_inv_def)
    then have "0 < snd r" by (simp add: placed_def)
    obtain a where a: "a \<in> set xs" "in_node s a r" using placed_in_node[OF sh p] by blast
    with \<open>0 < snd r\<close> have "a = b" using in_node_unique[OF sh' _ _ _ n] by (auto simp: i)
    with a(1) nb(1) show False by simp
  qed
  have ap: "apart (b + 32, sz) r" if r: "r \<in> R" for r
  proof -
    have "placed s xs r" using inv r by (simp add: small_inv_def)
    then obtain a where a: "a \<in> set xs" "in_node s a r" using placed_in_node[OF sh] by blast
    then show ?thesis using nodes_apart[OF sh' _ _ _ inb, of a r] nb(1) by (auto simp: i)
  qed
  then show "\<forall>q\<in>R. apart (b + 32, sz) q" by blast
  have "counts (node_quote (nd s' c)) (card {r\<in>insert (b + 32, sz) R. in_node s' c r})" if c: "c \<in> set (xs @ [b])" for c
  proof (cases "c = b")
    case True
    have "{r\<in>insert (b + 32, sz) R. in_node s' c r} = {(b + 32, sz)}" using inb notb True by auto
    then show ?thesis using True new(3) by simp
  next
    case False
    then have c': "c \<in> set xs" using c by simp
    have "\<not> in_node s c (b + 32, sz)" using in_node_unique[OF sh' _ _ _ inb, of c] False c' sz(1) by (auto simp: i)
    then have "{r\<in>insert (b + 32, sz) R. in_node s' c r} = {r\<in>R. in_node s c r}" by (auto simp: i)
    then show ?thesis using inv c' same by (simp add: small_inv_def)
  qed
  moreover have "placed s' (xs @ [b]) (b + 32, sz)" using al sz new by (auto simp: placed_def)
  moreover have "pairwise_apart (insert (b + 32, sz) R)"
    using ap inv by (auto simp: pairwise_apart_def small_inv_def intro: apart_sym)
  ultimately show "small_inv s' (xs @ [b]) (insert (b + 32, sz) R)" using sh' inv pl by (simp add: small_inv_def)
qed


text \<open>What an allocation may change outside the small nodes, for the large blocks' sake.\<close>

definition pool_grows :: "MemoryPool \<Rightarrow> nat list \<Rightarrow> MemoryPool \<Rightarrow> nat list \<Rightarrow> bool" where
  "pool_grows s xs s' xs' \<longleftrightarrow> larges s' = larges s \<and> largeList s' = largeList s \<and>
     pool_head s' = pool_head s \<and> pool_base s' = pool_base s \<and> (\<forall>b k. live s b = Some k \<longrightarrow> live s' b = Some k) \<and>
     (\<forall>a\<in>set xs'. a \<in> set xs \<or> live s (base_of s' a) = None)"

lemma mallocSmallNode_ok:
  assumes inv: "small_inv s xs R" and fuel: "length xs < fuel" and pg: "page_ok s (Some (b, mem))" and sz: "0 < sz" "sz \<le> 4064"
  shows "\<exists>s'. mallocSmallNode fuel (Some (b, mem)) sz s = Inr (Some (b + 32), s') \<and>
    (harmless_count (node_quote mem) \<longrightarrow> small_inv s' (xs @ [b]) (insert (b + 32, sz) R) \<and> (\<forall>q\<in>R. apart (b + 32, sz) q)) \<and>
    pool_grows s xs s' (xs @ [b])"
proof -
  have sh: "pool_shape s xs" using inv by (simp add: small_inv_def)
  note nb = page_not_node[OF sh pg]
  have al: "16 dvd b" "b + 4112 < 2 ^ 64" using pg by (simp_all add: page_ok_def page_placed_def)
  have ad: "mp_align_ptr (b + 32) 16 = b + 32"
    using mp_align_ptr_bounds(1,4)[of "b + 32"] al(1,2) by (intro antisym) auto
  define bn where "bn = mem\<lparr>node_end := b + 4096, node_next := None, node_last := b + 32 + sz, node_quote := node_quote mem + 1\<rparr>"
  define s1 where "s1 = (set_small b bn s)\<lparr>live := (live s)(b \<mapsto> 4096)\<rparr>"
  have sm1: "smalls s1 = (smalls s)(b \<mapsto> bn)" "pool_current s1 = pool_current s" by (simp_all add: s1_def)
  have ch: "chain (smalls s) (Some (pool_head s)) xs" "distinct xs" using pool_shape_chain[OF sh] sh by (simp_all add: pool_shape_def)
  have ch1: "chain (smalls s1) (Some (pool_head s)) xs"
  proof -
    have "map_option node_next (smalls s1 a) = map_option node_next (smalls s a)" if "a \<in> set xs" for a
      using nb(1) that by (auto simp: sm1)
    from chain_cong[of xs "smalls s1" "smalls s", OF this] ch(1) show ?thesis by simp
  qed
  obtain ys zs where xs: "xs = ys @ pool_current s # zs" using sh by (auto simp: pool_shape_def dest: split_list)
  have "chain (smalls s1) (Some (pool_current s)) (pool_current s # zs)" using chain_suffix ch1 unfolding xs by blast
  from bump_failed_total[OF this, of fuel "pool_current s"] fuel obtain cu m' where
    bump: "bump_failed fuel (pool_current s) (pool_current s) s1 = Inr (cu, last xs, s1\<lparr>smalls := m'\<rparr>)"
    and cu: "cu \<in> set xs" and sbf: "same_but_failed (smalls s1) m'" by (auto simp: xs)
  have fields: "\<exists>n. m' a = Some n \<and> node_last n = node_last (nd s1 a) \<and> node_end n = node_end (nd s1 a) \<and>
      node_quote n = node_quote (nd s1 a) \<and> node_next n = node_next (nd s1 a)" if "smalls s1 a \<noteq> None" for a
  proof -
    obtain f where "m' a = map_option (\<lambda>n. n\<lparr>node_failed := f\<rparr>) (smalls s1 a)" using sbf by (auto simp: same_but_failed_def)
    with that show ?thesis by auto
  qed
  have ne: "xs \<noteq> []" by (simp add: xs)
  obtain l where l: "m' (last xs) = Some l" using fields[of "last xs"] chain_dom[OF ch1, of "last xs"] ne by auto
  obtain n where n: "m' b = Some n" "node_next n = None" using fields[of b] by (auto simp: sm1 bn_def)
  define s' where "s' = (set_small (last xs) (l\<lparr>node_next := Some b\<rparr>) (s1\<lparr>smalls := m'\<rparr>))\<lparr>pool_current := cu\<rparr>"
  have sm': "smalls s' = m'(last xs \<mapsto> l\<lparr>node_next := Some b\<rparr>)" by (simp add: s'_def)
  have "chain m' (Some (pool_head s)) xs" using ch1 same_but_failed_chain[OF sbf] by simp
  then have ch': "chain (smalls s') (Some (pool_head s)) (xs @ [b])" unfolding sm'
    by (rule chain_snoc[OF _ ne ch(2) nb(1) l n])
  have same: "node_last (nd s' a) = node_last (nd s1 a) \<and> node_end (nd s' a) = node_end (nd s1 a) \<and>
      node_quote (nd s' a) = node_quote (nd s1 a)" if "smalls s1 a \<noteq> None" for a
    using fields[OF that] l by (auto simp: sm')
  have old: "node_last (nd s' a) = node_last (nd s a) \<and> node_end (nd s' a) = node_end (nd s a) \<and>
      node_quote (nd s' a) = node_quote (nd s a)" if "a \<in> set xs" for a
    using same[of a] chain_dom[OF ch(1) that] that nb(1) by (auto simp: sm1)
  have run: "mallocSmallNode fuel (Some (b, mem)) sz s = Inr (Some (b + 32), s')"
    using bump l by (simp add: mallocSmallNode_def mp_sizes ad Let_def s'_def s1_def bn_def small_at_def)
  have "small_inv s' (xs @ [b]) (insert (b + 32, sz) R) \<and> (\<forall>q\<in>R. apart (b + 32, sz) q)" if "harmless_count (node_quote mem)"
    using link_new_node[OF inv pg sz old _ _ _ ch'] same[of b] cu counts_harmless(2)[OF that] by (simp_all add: sm1 bn_def s'_def s1_def)
  moreover have "pool_grows s xs s' (xs @ [b])"
    using nb(3,4) by (auto simp: pool_grows_def s'_def s1_def base_of_def)
  ultimately show ?thesis using run by blast
qed

lemma pool_grows_refl: "pool_grows s xs s xs"
  by (simp add: pool_grows_def)

lemma malloc_small_ok:
  assumes inv: "small_inv s xs R" and fuel: "length xs < fuel" and pg: "page_ok s r" and sz: "0 < sz" "sz \<le> 4064"
  shows "\<exists>p s' xs'. malloc_small fuel r sz s = Inr (p, s') \<and> pool_grows s xs s' xs' \<and>
    (case p of None \<Rightarrow> r = None \<and> s' = s \<and> xs' = xs
     | Some u \<Rightarrow> page_harmless r \<longrightarrow> small_inv s' xs' (insert (u, sz) R) \<and> (\<forall>q\<in>R. apart (u, sz) q))"
proof -
  have sh: "pool_shape s xs" using inv by (simp add: small_inv_def)
  then have ch: "chain (smalls s) (Some (pool_head s)) xs" by (rule pool_shape_chain)
  obtain ys zs where xs: "xs = ys @ pool_current s # zs" using sh by (auto simp: pool_shape_def dest: split_list)
  have cc: "chain (smalls s) (Some (pool_current s)) (pool_current s # zs)" using chain_suffix ch unfolding xs by blast
  have "\<exists>res. find_fit fuel sz (Some (pool_current s)) s = Inr res \<and>
    (\<forall>a addr. res = Some (a, addr) \<longrightarrow> a \<in> set (pool_current s # zs) \<and> addr = mp_align_ptr (node_last (nd s a)) 16 \<and>
       addr + sz \<le> node_end (nd s a))"
    by (rule find_fit_total[OF cc]) (use fuel node_last_end[OF sh] in \<open>auto simp: xs\<close>)
  then obtain res where res: "find_fit fuel sz (Some (pool_current s)) s = Inr res"
      "\<And>a addr. res = Some (a, addr) \<Longrightarrow> a \<in> set xs \<and> addr = mp_align_ptr (node_last (nd s a)) 16 \<and> addr + sz \<le> node_end (nd s a)"
    by (auto simp: xs)
  show ?thesis
  proof (cases res)
    case (Some x)
    then obtain a addr where x: "res = Some (a, addr)" by (cases x) auto
    note t = res(2)[OF x]
    obtain n where n: "smalls s a = Some n" using chain_dom[OF ch] t by auto
    define s' where "s' = set_small a ((nd s a)\<lparr>node_quote := node_quote (nd s a) + 1, node_last := addr + sz\<rparr>) s"
    have "small_inv s' xs (insert (addr, sz) R)" "\<forall>q\<in>R. apart (addr, sz) q"
      using take_from_node[OF inv _ _ _ sz(1) s'_def] t by blast+
    moreover have "malloc_small fuel r sz s = Inr (Some addr, s')"
      using res(1) x n by (simp add: malloc_small_def small_at_def s'_def)
    moreover have "pool_grows s xs s' xs" by (simp add: pool_grows_def s'_def)
    ultimately show ?thesis by force
  next
    case None
    then have m: "malloc_small fuel r sz s = mallocSmallNode fuel r sz s" using res(1) by (simp add: malloc_small_def)
    show ?thesis
    proof (cases r)
      case None
      then show ?thesis using m by (intro exI[of _ None]) (auto simp: mallocSmallNode_def pool_grows_refl)
    next
      case (Some bm)
      obtain b mem where r: "r = Some (b, mem)" using Some by (cases bm) auto
      obtain s' where s': "mallocSmallNode fuel r sz s = Inr (Some (b + 32), s')"
        "harmless_count (node_quote mem) \<longrightarrow> small_inv s' (xs @ [b]) (insert (b + 32, sz) R) \<and> (\<forall>q\<in>R. apart (b + 32, sz) q)"
        "pool_grows s xs s' (xs @ [b])"
        using mallocSmallNode_ok[OF inv fuel _ sz, of b mem] pg unfolding r by blast
      show ?thesis
        by (rule exI[of _ "Some (b + 32)"], rule exI[of _ s'], rule exI[of _ "xs @ [b]"]) (use s' m in \<open>simp add: page_harmless_def r\<close>)
    qed
  qed
qed


text \<open>Giving back a region of a small node.\<close>

lemma find_small_unique:
  assumes "chain (smalls s) p zs" "length zs < fuel" "a \<in> set zs" "a \<le> u" "u \<le> node_end (nd s a)"
    and "\<And>b. b \<in> set zs \<Longrightarrow> b \<le> u \<Longrightarrow> u \<le> node_end (nd s b) \<Longrightarrow> b = a"
  shows "find_small fuel (Some u) p s = Inr (Some a)"
  using assms
proof (induction zs arbitrary: p fuel)
  case (Cons b zs)
  obtain f n where f: "fuel = Suc f" "smalls s b = Some n" "chain (smalls s) (node_next n) zs" "p = Some b"
    using Cons.prems(1,2) by (cases fuel) (auto split: option.splits)
  show ?case
  proof (cases "b \<le> u \<and> u \<le> node_end n")
    case True
    then have "b = a" using Cons.prems(6)[of b] f(2) by simp
    with True f show ?thesis by (simp add: small_at_def)
  next
    case False
    then have az: "a \<in> set zs" using Cons.prems(3-5) f(2) by auto
    have "find_small f (Some u) (node_next n) s = Inr (Some a)"
    proof (rule Cons.IH[OF f(3) _ az])
      show "length zs < f" using Cons.prems(2) f(1) by simp
      show "b = a" if "b \<in> set zs" "b \<le> u" "u \<le> node_end (nd s b)" for b using Cons.prems(6)[of b] that by simp
    qed (rule Cons.prems(4), rule Cons.prems(5))
    with False f show ?thesis by (auto simp: small_at_def)
  qed
qed simp

lemma find_small_held:
  assumes inv: "small_inv s xs R" and r: "(u, k) \<in> R" and fuel: "length xs < fuel"
  obtains a where "a \<in> set xs" "in_node s a (u, k)" "find_small fuel (Some u) (Some (pool_head s)) s = Inr (Some a)"
proof -
  have sh: "pool_shape s xs" using inv by (simp add: small_inv_def)
  have p: "placed s xs (u, k)" using inv r by (simp add: small_inv_def)
  then have k: "0 < k" by (simp add: placed_def)
  obtain a where a: "a \<in> set xs" "in_node s a (u, k)" using placed_in_node[OF sh p] by blast
  have na: "node_ok s a" using pool_shape_node[OF sh a(1)] .
  have "find_small fuel (Some u) (Some (pool_head s)) s = Inr (Some a)"
  proof (rule find_small_unique[OF pool_shape_chain[OF sh] fuel a(1)])
    show "a \<le> u" "u \<le> node_end (nd s a)" using a(2) na by (auto simp: in_node_def node_ok_def)
    fix b assume b: "b \<in> set xs" "b \<le> u" "u \<le> node_end (nd s b)"
    have nb: "node_ok s b" using pool_shape_node[OF sh b(1)] .
    show "b = a"
    proof (rule ccontr)
      assume "b \<noteq> a"
      then have "base_of s b \<noteq> base_of s a" using base_of_inj[OF sh b(1) a(1)] by blast
      then have "apart (base_of s b, 4096) (base_of s a, 4096)"
        using sh na nb unfolding pool_shape_def blocks_ok_def node_ok_def by blast
      then show False using a(2) b k na nb by (auto simp: apart_def in_node_def node_ok_def)
    qed
  qed
  with a show ?thesis using that by blast
qed

lemma release_region:
  assumes inv: "small_inv s xs R" and r: "(u, k) \<in> R" and a: "a \<in> set xs" "in_node s a (u, k)"
    and n': "n' = (let n1 = (nd s a)\<lparr>node_quote := node_quote (nd s a) - 1\<rparr> in
      if node_quote n1 = 0 then n1\<lparr>node_last := a + 32, node_failed := 0\<rparr> else n1)"
  shows "small_inv (set_small a n' s) xs (R - {(u, k)})"
proof -
  let ?s = "set_small a n' s"
  let ?A = "{q\<in>R. in_node s a q}"
  have sh: "pool_shape s xs" and fin: "finite R" using inv by (simp_all add: small_inv_def)
  have k: "0 < k" using inv r by (auto simp: small_inv_def placed_def)
  have na: "node_ok s a" using pool_shape_node[OF sh a(1)] .
  have mem: "(u, k) \<in> ?A" "finite ?A" using r a(2) fin by auto
  have quote: "counts (node_quote (nd s a) - 1) (card (?A - {(u, k)}))"
  proof -
    have "counts (node_quote (nd s a)) (card ?A)" using inv a(1) by (simp add: small_inv_def)
    moreover have "card ?A = Suc (card (?A - {(u, k)}))" using card_Suc_Diff1[OF mem(2,1)] by simp
    ultimately show ?thesis by (simp add: counts_pred)
  qed
  have small: "card (?A - {(u, k)}) \<le> 4096" using card_in_node[OF inv, of a] mem by (simp add: card_Diff_singleton)
  have sel: "node_end n' = node_end (nd s a)" "node_next n' = node_next (nd s a)" "node_quote n' = node_quote (nd s a) - 1"
    by (simp_all add: n' Let_def)
  have i: "in_node ?s = in_node s" by (rule in_node_cong) simp_all
  have "pool_shape ?s xs" by (rule set_small_shape[OF sh a(1)]) (use na sel in \<open>auto simp: n' Let_def node_ok_def\<close>)
  moreover have "placed ?s xs q" if q: "q \<in> R - {(u, k)}" for q
  proof -
    have p: "placed s xs q" using inv q by (simp add: small_inv_def)
    then obtain c where c: "c \<in> set xs" "in_node s c q" "fst q + snd q \<le> node_last (nd s c)" using placed_in_node[OF sh] by blast
    show ?thesis
    proof (cases "c = a \<and> node_quote (nd s a) - 1 = 0")
      case True
      then have "card (?A - {(u, k)}) = 0" using quote counts_zero[OF _ small] by simp
      then have "?A - {(u, k)} = {}" using mem(2) by simp
      then show ?thesis using True q c by blast
    next
      case False
      then have "node_last (nd ?s c) = node_last (nd s c)" by (auto simp: n' Let_def)
      with p c show ?thesis by (auto simp: placed_def in_node_def)
    qed
  qed
  moreover have "counts (node_quote (nd ?s c)) (card {q\<in>R - {(u, k)}. in_node ?s c q})" if c: "c \<in> set xs" for c
  proof (cases "c = a")
    case True
    have "{q\<in>R - {(u, k)}. in_node ?s c q} = ?A - {(u, k)}" using True by (auto simp: i)
    then show ?thesis using True quote sel(3) by simp
  next
    case False
    then have "\<not> in_node s c (u, k)" using in_node_unique[OF sh c a(1) _ a(2)] k by auto
    then have "{q\<in>R - {(u, k)}. in_node ?s c q} = {q\<in>R. in_node s c q}" by (auto simp: i)
    then show ?thesis using False c inv by (simp add: small_inv_def)
  qed
  moreover have "pairwise_apart (R - {(u, k)})" using inv by (auto simp: small_inv_def pairwise_apart_def)
  ultimately show ?thesis using fin by (simp add: small_inv_def)
qed

end
