(* ===== verification/Pool_Regions.thy ===== *)
theory Pool_Regions
  imports Pool_Small_Blocks
begin

text \<open>
  The memory pool as a whole: the large blocks, what every operation keeps of the invariant, that
  enough fuel makes every operation return, and the properties of the pool.
\<close>

section \<open>Lemmas: large blocks\<close>

fun lchain :: "(nat \<rightharpoonup> LargeNode) \<Rightarrow> nat option \<Rightarrow> nat list \<Rightarrow> bool" where
  "lchain m p [] \<longleftrightarrow> p = None"
| "lchain m p (a # as) \<longleftrightarrow> p = Some a \<and> (case m a of None \<Rightarrow> False | Some n \<Rightarrow> lchain m (ln_next n) as)"

lemma lchain_dom: "lchain m p ys \<Longrightarrow> y \<in> set ys \<Longrightarrow> m y \<noteq> None"
  by (induction ys arbitrary: p) (auto split: option.splits)

lemma lchain_cong:
  "(\<And>a. a \<in> set ys \<Longrightarrow> map_option ln_next (m' a) = map_option ln_next (m a)) \<Longrightarrow> lchain m' p ys = lchain m p ys"
proof (induction ys arbitrary: p)
  case (Cons a ys)
  have "map_option ln_next (m' a) = map_option ln_next (m a)" using Cons.prems by simp
  moreover have "lchain m' q ys = lchain m q ys" for q using Cons by simp
  ultimately show ?case by (cases "m a"; cases "m' a") auto
qed simp

abbreviation lg :: "MemoryPool \<Rightarrow> nat \<Rightarrow> LargeNode" where "lg s y \<equiv> the (larges s y)"

text \<open>The large blocks in use, \<open>L\<close>, are those the list of large nodes \<open>ys\<close> holds, each in one node.\<close>

definition large_inv :: "MemoryPool \<Rightarrow> nat list \<Rightarrow> nat list \<Rightarrow> region set \<Rightarrow> bool" where
  "large_inv s xs ys L \<longleftrightarrow> lchain (larges s) (largeList s) ys \<and> distinct ys \<and>
     (\<forall>q k. (q, k) \<in> L \<longrightarrow> live s q = Some k \<and> 16 dvd q \<and> (\<forall>a\<in>set xs. base_of s a \<noteq> q) \<and>
        (\<exists>y\<in>set ys. ln_address (lg s y) = Some q)) \<and>
     (\<forall>y\<in>set ys. \<forall>q. ln_address (lg s y) = Some q \<longrightarrow> (\<exists>k. (q, k) \<in> L)) \<and>
     (\<forall>y\<in>set ys. \<forall>z\<in>set ys. ln_address (lg s y) \<noteq> None \<longrightarrow> ln_address (lg s y) = ln_address (lg s z) \<longrightarrow> y = z)"

lemma large_invI:
  assumes "lchain (larges s) (largeList s) ys" "distinct ys"
    and "\<And>q k. (q, k) \<in> L \<Longrightarrow> live s q = Some k \<and> 16 dvd q \<and> (\<forall>a\<in>set xs. base_of s a \<noteq> q) \<and>
        (\<exists>y\<in>set ys. ln_address (lg s y) = Some q)"
    and "\<And>y q. y \<in> set ys \<Longrightarrow> ln_address (lg s y) = Some q \<Longrightarrow> \<exists>k. (q, k) \<in> L"
    and "\<And>y z. y \<in> set ys \<Longrightarrow> z \<in> set ys \<Longrightarrow> ln_address (lg s y) \<noteq> None \<Longrightarrow> ln_address (lg s y) = ln_address (lg s z) \<Longrightarrow> y = z"
  shows "large_inv s xs ys L"
  using assms unfolding large_inv_def by blast

lemma find_free_large_total:
  assumes "lchain (larges s) p ys" "length ys < fuel"
  shows "\<exists>res. find_free_large fuel c p s = Inr res \<and> (\<forall>y. res = Some y \<longrightarrow> y \<in> set ys \<and> ln_address (lg s y) = None)"
  using assms
proof (induction ys arbitrary: p fuel c)
  case Nil
  then show ?case by (cases fuel) auto
next
  case (Cons y ys)
  obtain f n where f: "fuel = Suc f" "larges s y = Some n" "lchain (larges s) (ln_next n) ys" "p = Some y"
    using Cons.prems by (cases fuel) (auto split: option.splits)
  obtain res where "find_free_large f (c + 1) (ln_next n) s = Inr res"
      "\<forall>y. res = Some y \<longrightarrow> y \<in> set ys \<and> ln_address (lg s y) = None"
    using Cons.IH[OF f(3), of f "c + 1"] Cons.prems(2) f(1) by auto
  with f show ?case by (simp add: large_at_def)
qed

lemma find_large_total:
  assumes "lchain (larges s) p ys" "length ys < fuel"
  shows "\<exists>res. find_large fuel (Some q) p s = Inr res \<and>
    (case res of Some y \<Rightarrow> y \<in> set ys \<and> ln_address (lg s y) = Some q | None \<Rightarrow> (\<forall>y\<in>set ys. ln_address (lg s y) \<noteq> Some q))"
  using assms
proof (induction ys arbitrary: p fuel)
  case Nil
  then show ?case by (cases fuel) auto
next
  case (Cons y ys)
  obtain f n where f: "fuel = Suc f" "larges s y = Some n" "lchain (larges s) (ln_next n) ys" "p = Some y"
    using Cons.prems by (cases fuel) (auto split: option.splits)
  obtain res where res: "find_large f (Some q) (ln_next n) s = Inr res"
      "case res of Some y \<Rightarrow> y \<in> set ys \<and> ln_address (lg s y) = Some q | None \<Rightarrow> (\<forall>y\<in>set ys. ln_address (lg s y) \<noteq> Some q)"
    using Cons.IH[OF f(3), of f] Cons.prems(2) f(1) by auto
  show ?case
  proof (cases "ln_address n = Some q")
    case True
    then show ?thesis using f by (simp add: large_at_def)
  next
    case False
    then show ?thesis using f res by (auto simp: large_at_def split: option.splits)
  qed
qed

text \<open>The small part does not look at the large nodes, and other blocks may come and go.\<close>

lemma small_inv_cong:
  assumes "smalls s' = smalls s" "pool_head s' = pool_head s" "pool_base s' = pool_base s" "pool_current s' = pool_current s"
    and "blocks_ok (live s')" "\<And>a. a \<in> set xs \<Longrightarrow> live s' (base_of s a) = live s (base_of s a)" "small_inv s xs R"
  shows "small_inv s' xs R"
proof -
  have b: "base_of s' = base_of s" by (rule base_of_cong[OF assms(2,3)])
  have i: "in_node s' = in_node s" by (rule in_node_cong[OF assms(2,3)])
  have "node_ok s' a" if "a \<in> set xs" for a
    using pool_shape_node[of s xs a] assms(1,6,7) that by (simp add: small_inv_def node_ok_def b)
  then have "pool_shape s' xs" using assms unfolding small_inv_def pool_shape_def by auto
  then show ?thesis using assms(1,7) by (simp add: small_inv_def placed_def i)
qed

lemma small_inv_add_block:
  assumes "small_inv s xs R" "0 < k" "\<And>c j. live s c = Some j \<Longrightarrow> apart (b, k) (c, j)"
  shows "small_inv (s\<lparr>live := (live s)(b \<mapsto> k)\<rparr>) xs R" "live s b = None"
proof -
  have bl: "blocks_ok (live s)" using assms(1) by (simp add: small_inv_def pool_shape_def)
  show n: "live s b = None"
  proof (cases "live s b")
    case (Some j)
    then show ?thesis using assms(3)[OF Some] bl assms(2) by (auto simp: apart_def blocks_ok_def)
  qed simp
  have "live s (base_of s a) \<noteq> None" if "a \<in> set xs" for a
    using pool_shape_node[of s xs a] assms(1) that by (simp add: small_inv_def node_ok_def)
  then have "base_of s a \<noteq> b" if "a \<in> set xs" for a using n that by metis
  then show "small_inv (s\<lparr>live := (live s)(b \<mapsto> k)\<rparr>) xs R"
    by (intro small_inv_cong[OF _ _ _ _ _ _ assms(1)]) (use blocks_ok_insert[OF bl assms(2,3)] in auto)
qed

lemma small_inv_drop_block:
  assumes "small_inv s xs R" "\<And>a. a \<in> set xs \<Longrightarrow> base_of s a \<noteq> b"
  shows "small_inv (s\<lparr>live := (live s)(b := None)\<rparr>) xs R"
proof (rule small_inv_cong[OF _ _ _ _ _ _ assms(1)])
  have "blocks_ok (live s)" using assms(1) by (simp add: small_inv_def pool_shape_def)
  then show "blocks_ok (live (s\<lparr>live := (live s)(b := None)\<rparr>))" by (auto simp: blocks_ok_def split: if_splits)
qed (use assms(2) in auto)

text \<open>A region of a small node is no large block's address.\<close>

lemma small_not_large:
  assumes "small_inv s xs R" "large_inv s xs ys L" "(u, k) \<in> R"
  shows "\<forall>y\<in>set ys. ln_address (lg s y) \<noteq> Some u"
proof (intro ballI notI)
  fix y assume "y \<in> set ys" "ln_address (lg s y) = Some u"
  then obtain j where "(u, j) \<in> L" using assms(2) unfolding large_inv_def by blast
  then have l: "live s u = Some j" "\<And>a. a \<in> set xs \<Longrightarrow> base_of s a \<noteq> u" using assms(2) by (auto simp: large_inv_def)
  have sh: "pool_shape s xs" and p: "placed s xs (u, k)" using assms(1,3) by (simp_all add: small_inv_def)
  obtain a where a: "a \<in> set xs" "in_node s a (u, k)" using placed_in_node[OF sh p] by blast
  have na: "node_ok s a" using pool_shape_node[OF sh a(1)] .
  have "apart (u, j) (base_of s a, 4096)" "0 < j" "0 < k"
    using sh l na a(1) p unfolding pool_shape_def blocks_ok_def node_ok_def placed_def by (blast, blast, simp)
  then show False using a(2) na by (auto simp: apart_def in_node_def node_ok_def)
qed


section \<open>Lemmas: the whole pool\<close>

text \<open>\<open>H\<close> is the set of regions the client holds; those above 4064 bytes are blocks of their own.\<close>

definition smallH :: "region set \<Rightarrow> region set" where "smallH H = {r\<in>H. snd r \<le> 4064}"
definition largeH :: "region set \<Rightarrow> region set" where "largeH H = {r\<in>H. 4064 < snd r}"
definition node_regions :: "nat list \<Rightarrow> region set" where "node_regions ys = (\<lambda>y. (y, 24)) ` set ys"

definition pool_state :: "MemoryPool \<Rightarrow> nat list \<Rightarrow> nat list \<Rightarrow> region set \<Rightarrow> bool" where
  "pool_state s xs ys H \<longleftrightarrow> small_inv s xs (smallH H \<union> node_regions ys) \<and> smallH H \<inter> node_regions ys = {} \<and>
     large_inv s xs ys (largeH H)"

text \<open>What is relied on of the blocks one allocation may get from \<open>posix_memalign\<close>.\<close>

definition os_ok :: "MemoryPool \<Rightarrow> nat \<Rightarrow> nat option \<Rightarrow> page \<Rightarrow> bool" where
  "os_ok s sz rl r \<longleftrightarrow> page_ok s r \<and> (case rl of None \<Rightarrow> True
     | Some b \<Rightarrow> 16 dvd b \<and> (\<forall>c k. live s c = Some k \<longrightarrow> apart (b, sz) (c, k)) \<and>
         (case r of None \<Rightarrow> True | Some (c, mem) \<Rightarrow> apart (c, 4096) (b, sz)))"

lemma largeH_insert [simp]:
  "sz \<le> 4064 \<Longrightarrow> largeH (insert (u, sz) H) = largeH H" "\<not> sz \<le> 4064 \<Longrightarrow> largeH (insert (u, sz) H) = insert (u, sz) (largeH H)"
  "sz \<le> 4064 \<Longrightarrow> smallH (insert (u, sz) H) = insert (u, sz) (smallH H)" "\<not> sz \<le> 4064 \<Longrightarrow> smallH (insert (u, sz) H) = smallH H"
  by (auto simp: largeH_def smallH_def)

lemma large_inv_grows:
  assumes inv: "large_inv s xs ys L" and g: "pool_grows s xs s' xs'"
  shows "large_inv s' xs' ys L"
proof -
  have b: "base_of s' = base_of s" using g by (intro base_of_cong) (simp_all add: pool_grows_def)
  have sel: "larges s' = larges s" "largeList s' = largeList s" using g by (simp_all add: pool_grows_def)
  have "base_of s' a \<noteq> q" if q: "(q, k) \<in> L" and a: "a \<in> set xs'" for q k a
  proof (cases "a \<in> set xs")
    case True
    then show ?thesis using inv q by (auto simp: large_inv_def b)
  next
    case False
    then have "live s (base_of s' a) = None" using g a by (auto simp: pool_grows_def)
    moreover have "live s q = Some k" using inv q by (simp add: large_inv_def)
    ultimately show ?thesis by auto
  qed
  moreover have "live s' q = Some k" if "(q, k) \<in> L" for q k using inv g that by (simp add: large_inv_def pool_grows_def)
  ultimately show ?thesis using inv unfolding large_inv_def sel by blast
qed

lemma set_large_sel [simp]:
  "pool_head (set_large a l s) = pool_head s" "pool_base (set_large a l s) = pool_base s"
  "pool_current (set_large a l s) = pool_current s" "live (set_large a l s) = live s"
  "smalls (set_large a l s) = smalls s" "largeList (set_large a l s) = largeList s"
  "larges (set_large a l s) = (larges s)(a \<mapsto> l)"
  by (simp_all add: set_large_def)

lemma apart_self: "apart (u, k) (u, k) \<Longrightarrow> k = 0"
  by (simp add: apart_def)

lemma malloc_small_pool:
  assumes st: "pool_state s xs ys H" and fuel: "length xs < fuel" and pg: "page_ok s r" and sz: "0 < sz" "sz \<le> 4064"
  shows "\<exists>p s' xs'. malloc_small fuel r sz s = Inr (p, s') \<and>
    (case p of None \<Rightarrow> r = None \<and> s' = s \<and> xs' = xs
     | Some u \<Rightarrow> page_harmless r \<longrightarrow> pool_state s' xs' ys (insert (u, sz) H))"
proof -
  have inv: "small_inv s xs (smallH H \<union> node_regions ys)" using st by (simp add: pool_state_def)
  obtain p s' xs' where m: "malloc_small fuel r sz s = Inr (p, s')" "pool_grows s xs s' xs'"
    "case p of None \<Rightarrow> r = None \<and> s' = s \<and> xs' = xs
     | Some u \<Rightarrow> page_harmless r \<longrightarrow> small_inv s' xs' (insert (u, sz) (smallH H \<union> node_regions ys)) \<and>
         (\<forall>q\<in>smallH H \<union> node_regions ys. apart (u, sz) q)"
    using malloc_small_ok[OF inv fuel pg sz] by blast
  show ?thesis
  proof (cases p)
    case None
    then show ?thesis using m by auto
  next
    case (Some u)
    have "pool_state s' xs' ys (insert (u, sz) H)" if h: "page_harmless r"
    proof -
      have "large_inv s' xs' ys (largeH H)" using large_inv_grows[OF _ m(2)] st by (simp add: pool_state_def)
      moreover have "(u, sz) \<notin> node_regions ys" using m(3) h Some sz(1) apart_self[of u sz] by auto
      ultimately show ?thesis using st m(3) h Some sz by (simp add: pool_state_def)
    qed
    then show ?thesis using m(1) Some by auto
  qed
qed


text \<open>A large block filed in a large node that had none.\<close>

lemma file_large_block:
  assumes "large_inv s xs ys L" "y \<in> set ys" "ln_address (lg s y) = None" "live s b = None"
    and "\<And>a. a \<in> set xs \<Longrightarrow> base_of s a \<noteq> b" "16 dvd b"
  shows "large_inv (set_large y ((lg s y)\<lparr>ln_size := w, ln_address := Some b\<rparr>) (s\<lparr>live := (live s)(b \<mapsto> k)\<rparr>)) xs ys (insert (b, k) L)"
    (is "large_inv ?s xs ys _")
proof -
  have lc: "lchain (larges s) (largeList s) ys" using assms(1) by (simp add: large_inv_def)
  obtain n where n: "larges s y = Some n" using lchain_dom[OF lc assms(2)] by auto
  have "lchain (larges ?s) (largeList ?s) ys = lchain (larges s) (largeList ?s) ys"
    by (rule lchain_cong) (use n in auto)
  then have l: "lchain (larges ?s) (largeList ?s) ys" "distinct ys" using lc assms(1) by (simp_all add: large_inv_def)
  have nb: "(b, j) \<notin> L" for j using assms(1,4) by (auto simp: large_inv_def)
  have ad: "ln_address (lg ?s z) = (if z = y then Some b else ln_address (lg s z))" for z by simp
  have bo: "base_of ?s = base_of s" by (rule base_of_cong) simp_all
  have "live ?s q = Some j \<and> 16 dvd q \<and> (\<forall>a\<in>set xs. base_of ?s a \<noteq> q) \<and> (\<exists>z\<in>set ys. ln_address (lg ?s z) = Some q)"
    if q: "(q, j) \<in> insert (b, k) L" for q j
  proof (cases "(q, j) = (b, k)")
    case True
    then show ?thesis using assms(2,5,6) by (auto simp: bo ad)
  next
    case False
    then have q: "(q, j) \<in> L" using q by auto
    then have f: "live s q = Some j" "16 dvd q" "\<forall>a\<in>set xs. base_of s a \<noteq> q" "\<exists>z\<in>set ys. ln_address (lg s z) = Some q"
      using assms(1) unfolding large_inv_def by blast+
    then obtain z where "z \<in> set ys" "ln_address (lg s z) = Some q" "z \<noteq> y" using assms(3) by fastforce
    then have "\<exists>z\<in>set ys. ln_address (lg ?s z) = Some q" by (auto simp: ad)
    then show ?thesis using f nb q assms(4) by (auto simp: bo)
  qed
  moreover have "\<exists>j. (q, j) \<in> insert (b, k) L" if "z \<in> set ys" "ln_address (lg ?s z) = Some q" for z q
  proof (cases "z = y")
    case True
    then show ?thesis using that(2) by auto
  next
    case False
    then have "ln_address (lg s z) = Some q" using that(2) unfolding ad by simp
    then show ?thesis using assms(1) that(1) unfolding large_inv_def by blast
  qed
  moreover have "z = z'" if "z \<in> set ys" "z' \<in> set ys" "ln_address (lg ?s z) \<noteq> None" "ln_address (lg ?s z) = ln_address (lg ?s z')" for z z'
  proof -
    have no: "ln_address (lg s x) \<noteq> Some b" if "x \<in> set ys" for x using assms(1) nb that unfolding large_inv_def by metis
    have inj: "x = x'" if "x \<in> set ys" "x' \<in> set ys" "ln_address (lg s x) \<noteq> None" "ln_address (lg s x) = ln_address (lg s x')" for x x'
      using assms(1) that unfolding large_inv_def by blast
    show ?thesis using that(3,4) no[OF that(1)] no[OF that(2)] inj[OF that(1,2)] unfolding ad by (auto split: if_splits)
  qed
  ultimately show ?thesis by (rule large_invI[OF l])
qed

lemma add_large_node:
  assumes "large_inv s xs ys L" "y \<notin> set ys"
  shows "large_inv ((set_large y \<lparr>ln_address = None, ln_size = w, ln_next = largeList s\<rparr> s)\<lparr>largeList := Some y\<rparr>) xs (y # ys) L"
    (is "large_inv ?s xs _ _")
proof -
  have "lchain (larges ?s) p ys = lchain (larges s) p ys" for p by (rule lchain_cong) (use assms(2) in auto)
  then have "lchain (larges ?s) (largeList ?s) (y # ys)" using assms(1) by (simp add: large_inv_def)
  moreover have ad: "ln_address (lg ?s z) = (if z = y then None else ln_address (lg s z))" for z by simp
  moreover have "base_of ?s = base_of s" by (rule base_of_cong) simp_all
  ultimately show ?thesis using assms unfolding large_inv_def by (auto simp del: lchain.simps) metis+
qed

lemma mallocLargeNode_pool:
  assumes st: "pool_state s xs ys H" and fuel: "length xs < fuel" "length ys < fuel" and os: "os_ok s sz rl r" and sz: "4064 < sz"
  shows "\<exists>p s' xs' ys'. mallocLargeNode fuel rl r sz s = Inr (p, s') \<and>
    (case p of None \<Rightarrow> s' = s | Some u \<Rightarrow> page_harmless r \<longrightarrow> pool_state s' xs' ys' (insert (u, sz) H))"
proof (cases rl)
  case None
  then show ?thesis by (simp add: mallocLargeNode_def)
next
  case (Some b)
  let ?R = "smallH H \<union> node_regions ys"
  have inv: "small_inv s xs ?R" and li: "large_inv s xs ys (largeH H)" using st by (simp_all add: pool_state_def)
  have b: "16 dvd b" "\<And>c k. live s c = Some k \<Longrightarrow> apart (b, sz) (c, k)" using os Some by (simp_all add: os_ok_def)
  define s1 where "s1 = s\<lparr>live := (live s)(b \<mapsto> sz)\<rparr>"
  have inv1: "small_inv s1 xs ?R" and nb: "live s b = None"
    using small_inv_add_block[OF inv _ b(2)] sz by (simp_all add: s1_def)
  have base: "base_of s a \<noteq> b" if "a \<in> set xs" for a
    using pool_shape_node[of s xs a] inv that nb by (auto simp: small_inv_def node_ok_def)
  have lc: "lchain (larges s1) (largeList s1) ys" using li by (simp add: large_inv_def s1_def)
  obtain res where res: "find_free_large fuel 0 (largeList s1) s1 = Inr res"
      "\<And>y. res = Some y \<Longrightarrow> y \<in> set ys \<and> ln_address (lg s1 y) = None"
    using find_free_large_total[OF lc fuel(2)] by blast
  show ?thesis
  proof (cases res)
    case (Some y)
    then have y: "y \<in> set ys" "ln_address (lg s y) = None" using res(2) by (simp_all add: s1_def)
    obtain n where n: "larges s y = Some n" using lchain_dom[OF lc y(1)] by (auto simp: s1_def)
    define s' where "s' = set_large y ((lg s y)\<lparr>ln_size := of_nat sz, ln_address := Some b\<rparr>) s1"
    have "mallocLargeNode fuel rl r sz s = Inr (Some b, s')"
      using \<open>rl = Some b\<close> res(1) Some n by (simp add: mallocLargeNode_def s1_def s'_def large_at_def)
    moreover have "large_inv s' xs ys (insert (b, sz) (largeH H))"
      unfolding s'_def s1_def by (rule file_large_block[OF li y nb base b(1)])
    moreover have "small_inv s' xs ?R"
      by (rule small_inv_cong[OF _ _ _ _ _ _ inv1]) (use inv1 in \<open>simp_all add: s'_def small_inv_def pool_shape_def\<close>)
    ultimately have "mallocLargeNode fuel rl r sz s = Inr (Some b, s')" "pool_state s' xs ys (insert (b, sz) H)"
      using st sz by (simp_all add: pool_state_def)
    then show ?thesis by (intro exI[of _ "Some b"] exI[of _ s'] exI[of _ xs] exI[of _ ys]) simp
  next
    case None
    have pg: "page_ok s1 r" using os Some by (auto simp: os_ok_def page_ok_def s1_def split: option.splits)
    obtain p s2 xs' where m: "malloc_small fuel r 24 s1 = Inr (p, s2)" "pool_grows s1 xs s2 xs'"
      "case p of None \<Rightarrow> r = None \<and> s2 = s1 \<and> xs' = xs
       | Some u \<Rightarrow> page_harmless r \<longrightarrow> small_inv s2 xs' (insert (u, 24) ?R) \<and> (\<forall>q\<in>?R. apart (u, 24) q)"
      using malloc_small_ok[OF inv1 fuel(1) pg, of 24] by auto
    show ?thesis
    proof (cases p)
      case None
      then have "mallocLargeNode fuel rl r sz s = Inr (None, s)"
        using \<open>rl = Some b\<close> \<open>res = None\<close> res(1) m nb
        by (simp add: mallocLargeNode_def s1_def sizeof_LargeNode_def free_block_def fun_upd_idem)
      then show ?thesis by auto
    next
      case (Some y)
      define s3 where "s3 = (set_large y \<lparr>ln_address = None, ln_size = of_nat sz, ln_next = largeList s\<rparr> s)\<lparr>largeList := Some y\<rparr>"
      define s4 where "s4 = set_large y ((lg s3 y)\<lparr>ln_size := of_nat sz, ln_address := Some b\<rparr>) (s3\<lparr>live := (live s3)(b \<mapsto> sz)\<rparr>)"
      define s' where "s' = (set_large y \<lparr>ln_address = Some b, ln_size = of_nat sz, ln_next = largeList s2\<rparr> s2)\<lparr>largeList := Some y\<rparr>"
      have run: "mallocLargeNode fuel rl r sz s = Inr (Some b, s')"
        using \<open>rl = Some b\<close> \<open>res = None\<close> res(1) m(1) Some by (simp add: mallocLargeNode_def s1_def sizeof_LargeNode_def s'_def)
      have "pool_state s' xs' (y # ys) (insert (b, sz) H)" if h: "page_harmless r"
      proof -
      have y: "y \<notin> set ys" "(y, 24) \<notin> smallH H" using m(3) h Some apart_self[of y 24] by (auto simp: node_regions_def)
      have "large_inv s3 xs (y # ys) (largeH H)" unfolding s3_def by (rule add_large_node[OF li y(1)])
      then have "large_inv s4 xs (y # ys) (insert (b, sz) (largeH H))"
        unfolding s4_def
      proof (rule file_large_block)
        show "base_of s3 a \<noteq> b" if "a \<in> set xs" for a using base[OF that] by (auto simp: s3_def base_of_def)
      qed (use nb b(1) in \<open>simp_all add: s3_def\<close>)
      moreover have "pool_grows s4 xs s' xs'"
        using m(2) by (auto simp: pool_grows_def s4_def s3_def s'_def s1_def base_of_def)
      ultimately have l': "large_inv s' xs' (y # ys) (insert (b, sz) (largeH H))" by (rule large_inv_grows)
      have "small_inv s2 xs' (insert (y, 24) ?R)" using m(3) h Some by simp
      then have "small_inv s' xs' (insert (y, 24) ?R)"
        by (rule small_inv_cong[rotated -1]) (use m(3) h Some in \<open>simp_all add: s'_def small_inv_def pool_shape_def\<close>)
      moreover have "insert (y, 24) ?R = smallH H \<union> node_regions (y # ys)" by (auto simp: node_regions_def)
      moreover have "smallH H \<inter> node_regions (y # ys) = {}" using st y(2) by (auto simp: pool_state_def node_regions_def)
      ultimately show ?thesis using l' sz by (simp add: pool_state_def)
      qed
      then show ?thesis using run by (intro exI[of _ "Some b"] exI[of _ s'] exI[of _ xs'] exI[of _ "y # ys"]) simp
    qed
  qed
qed


lemma malloc_pool:
  assumes st: "pool_state s xs ys H" and fuel: "length xs < fuel" "length ys < fuel" and os: "os_ok s sz rl r"
  shows "\<exists>p s' xs' ys'. malloc fuel rl r sz s = Inr (p, s') \<and>
    (case p of None \<Rightarrow> s' = s | Some u \<Rightarrow> page_harmless r \<longrightarrow> pool_state s' xs' ys' (insert (u, sz) H))"
proof (cases "sz = 0 \<or> 4064 < sz")
  case True
  then show ?thesis using mallocLargeNode_pool[OF st fuel os] by (auto simp: malloc_def mp_sizes)
next
  case False
  then have sz: "0 < sz" "sz \<le> 4064" by auto
  have "page_ok s r" using os by (simp add: os_ok_def)
  from malloc_small_pool[OF st fuel(1) this sz] obtain p s' xs' where
    "malloc_small fuel r sz s = Inr (p, s')"
    "case p of None \<Rightarrow> r = None \<and> s' = s \<and> xs' = xs | Some u \<Rightarrow> page_harmless r \<longrightarrow> pool_state s' xs' ys (insert (u, sz) H)" by blast
  then show ?thesis using sz
    by (intro exI[of _ p] exI[of _ s'] exI[of _ xs'] exI[of _ ys]) (auto simp: malloc_def mp_sizes split: option.splits)
qed

lemma release_large:
  assumes inv: "large_inv s xs ys L" and y: "y \<in> set ys" "ln_address (lg s y) = Some u" and uk: "(u, k) \<in> L"
  shows "large_inv (set_large y ((lg s y)\<lparr>ln_size := 0, ln_address := None\<rparr>) (s\<lparr>live := (live s)(u := None)\<rparr>)) xs ys (L - {(u, k)})"
    (is "large_inv ?s xs ys _")
proof -
  have lc: "lchain (larges s) (largeList s) ys" using inv by (simp add: large_inv_def)
  obtain n where n: "larges s y = Some n" using lchain_dom[OF lc y(1)] by auto
  have "lchain (larges ?s) (largeList ?s) ys = lchain (larges s) (largeList ?s) ys"
    by (rule lchain_cong) (use n in auto)
  then have l: "lchain (larges ?s) (largeList ?s) ys" "distinct ys" using lc inv by (simp_all add: large_inv_def)
  have ad: "ln_address (lg ?s z) = (if z = y then None else ln_address (lg s z))" for z by simp
  have bo: "base_of ?s = base_of s" by (rule base_of_cong) simp_all
  have one: "j = k" if "(u, j) \<in> L" for j
  proof -
    have "live s u = Some j" "live s u = Some k" using inv that uk unfolding large_inv_def by blast+
    then show ?thesis by simp
  qed
  have other: "q \<noteq> u" if "z \<in> set ys" "z \<noteq> y" "ln_address (lg s z) = Some q" for z q
    using inv that y unfolding large_inv_def by (metis option.distinct(1))
  have "live ?s q = Some j \<and> 16 dvd q \<and> (\<forall>a\<in>set xs. base_of ?s a \<noteq> q) \<and> (\<exists>z\<in>set ys. ln_address (lg ?s z) = Some q)"
    if q: "(q, j) \<in> L - {(u, k)}" for q j
  proof -
    have f: "live s q = Some j" "16 dvd q" "\<forall>a\<in>set xs. base_of s a \<noteq> q" "\<exists>z\<in>set ys. ln_address (lg s z) = Some q"
      using inv q unfolding large_inv_def by blast+
    have "q \<noteq> u" using q one by auto
    moreover obtain z where "z \<in> set ys" "ln_address (lg s z) = Some q" using f(4) by blast
    moreover have "z \<noteq> y" using calculation y(2) by auto
    ultimately show ?thesis using f by (auto simp: bo ad)
  qed
  moreover have "\<exists>j. (q, j) \<in> L - {(u, k)}" if z: "z \<in> set ys" "ln_address (lg ?s z) = Some q" for z q
  proof -
    have "z \<noteq> y" "ln_address (lg s z) = Some q" using z(2) unfolding ad by (auto split: if_splits)
    then obtain j where "(q, j) \<in> L" "q \<noteq> u" using inv z(1) other unfolding large_inv_def by blast
    then show ?thesis by auto
  qed
  moreover have "z = z'" if "z \<in> set ys" "z' \<in> set ys" "ln_address (lg ?s z) \<noteq> None" "ln_address (lg ?s z) = ln_address (lg ?s z')" for z z'
  proof -
    have "x = x'" if "x \<in> set ys" "x' \<in> set ys" "ln_address (lg s x) \<noteq> None" "ln_address (lg s x) = ln_address (lg s x')" for x x'
      using inv that unfolding large_inv_def by blast
    from this[OF that(1,2)] that(3,4) show ?thesis unfolding ad by (auto split: if_splits)
  qed
  ultimately show ?thesis by (rule large_invI[OF l])
qed

lemma freeMemory_pool:
  assumes st: "pool_state s xs ys H" and uk: "(u, k) \<in> H" and fuel: "length xs < fuel" "length ys < fuel"
  shows "\<exists>s'. freeMemory fuel (Some u) s = Inr s' \<and> pool_state s' xs ys (H - {(u, k)})"
proof -
  let ?R = "smallH H \<union> node_regions ys"
  have inv: "small_inv s xs ?R" and li: "large_inv s xs ys (largeH H)" and dj: "smallH H \<inter> node_regions ys = {}"
    using st by (simp_all add: pool_state_def)
  have lc: "lchain (larges s) (largeList s) ys" using li by (simp add: large_inv_def)
  obtain res where res: "find_large fuel (Some u) (largeList s) s = Inr res"
    "case res of Some y \<Rightarrow> y \<in> set ys \<and> ln_address (lg s y) = Some u | None \<Rightarrow> (\<forall>y\<in>set ys. ln_address (lg s y) \<noteq> Some u)"
    using find_large_total[OF lc fuel(2)] by blast
  show ?thesis
  proof (cases "k \<le> 4064")
    case True
    then have r: "(u, k) \<in> ?R" "(u, k) \<notin> node_regions ys" using uk dj by (auto simp: smallH_def)
    have "res = None" using res(2) small_not_large[OF inv li r(1)] by (auto split: option.splits)
    obtain a where a: "a \<in> set xs" "in_node s a (u, k)" "find_small fuel (Some u) (Some (pool_head s)) s = Inr (Some a)"
      using find_small_held[OF inv r(1) fuel(1)] by blast
    have sh: "pool_shape s xs" using inv by (simp add: small_inv_def)
    obtain n where n: "smalls s a = Some n" using chain_dom[OF pool_shape_chain[OF sh] a(1)] by auto
    define n' where "n' = (let n1 = (nd s a)\<lparr>node_quote := node_quote (nd s a) - 1\<rparr> in
        if node_quote n1 = 0 then n1\<lparr>node_last := a + 32, node_failed := 0\<rparr> else n1)"
    define s' where "s' = (if node_quote n - 1 = 0 then (set_small a n' s)\<lparr>pool_current := pool_head s\<rparr> else set_small a n' s)"
    have hd: "pool_head s = pool_base s + 24" "pool_head s \<in> set xs" using sh pool_shape_chain[OF sh] by (auto simp: pool_shape_def, cases xs, auto)
    have "freeMemory fuel (Some u) s = Inr s'"
      using res(1) \<open>res = None\<close> a(3) n hd by (simp add: freeMemory_def small_at_def s'_def n'_def Let_def mp_sizes)
    moreover have R: "small_inv (set_small a n' s) xs (?R - {(u, k)})" by (rule release_region[OF inv r(1) a(1,2) n'_def])
    then have "small_inv s' xs (?R - {(u, k)})"
      using hd(2) by (auto simp: s'_def small_inv_def pool_shape_def node_ok_def base_of_def placed_def in_node_def)
    moreover have "?R - {(u, k)} = smallH (H - {(u, k)}) \<union> node_regions ys" "smallH (H - {(u, k)}) \<inter> node_regions ys = {}"
      "largeH (H - {(u, k)}) = largeH H" using r(2) dj True by (auto simp: smallH_def largeH_def)
    moreover have "pool_grows s xs s' xs" by (simp add: pool_grows_def s'_def)
    then have "large_inv s' xs ys (largeH H)" by (rule large_inv_grows[OF li])
    ultimately show ?thesis by (auto simp: pool_state_def)
  next
    case False
    then have L: "(u, k) \<in> largeH H" using uk by (simp add: largeH_def)
    then have lv: "live s u = Some k" "\<And>a. a \<in> set xs \<Longrightarrow> base_of s a \<noteq> u" "\<exists>y\<in>set ys. ln_address (lg s y) = Some u"
      using li unfolding large_inv_def by blast+
    then obtain y where y: "res = Some y" "y \<in> set ys" "ln_address (lg s y) = Some u"
      using res(2) by (cases res) auto
    obtain n where n: "larges s y = Some n" using lchain_dom[OF lc y(2)] by auto
    define s' where "s' = set_large y ((lg s y)\<lparr>ln_size := 0, ln_address := None\<rparr>) (s\<lparr>live := (live s)(u := None)\<rparr>)"
    have "freeMemory fuel (Some u) s = Inr s'"
      using res(1) y n lv(1) by (simp add: freeMemory_def large_at_def free_block_def s'_def)
    moreover have "large_inv s' xs ys (largeH H - {(u, k)})" unfolding s'_def by (rule release_large[OF li y(2,3) L])
    moreover have d: "small_inv (s\<lparr>live := (live s)(u := None)\<rparr>) xs ?R" by (rule small_inv_drop_block[OF inv lv(2)])
    then have "small_inv s' xs ?R"
      by (rule small_inv_cong[rotated -1]) (use d in \<open>simp_all add: s'_def small_inv_def pool_shape_def\<close>)
    moreover have "smallH (H - {(u, k)}) = smallH H" "largeH (H - {(u, k)}) = largeH H - {(u, k)}"
      using False by (auto simp: smallH_def largeH_def)
    ultimately show ?thesis using dj by (auto simp: pool_state_def)
  qed
qed


text \<open>Resetting the pool.\<close>

lemma free_larges_total:
  assumes "lchain (larges s) p zs" "length zs < fuel" "distinct zs"
    and "\<And>z q. z \<in> set zs \<Longrightarrow> ln_address (lg s z) = Some q \<Longrightarrow> live s q \<noteq> None"
    and "\<And>z z'. z \<in> set zs \<Longrightarrow> z' \<in> set zs \<Longrightarrow> ln_address (lg s z) \<noteq> None \<Longrightarrow> ln_address (lg s z) = ln_address (lg s z') \<Longrightarrow> z = z'"
  shows "\<exists>l. free_larges fuel p s = Inr (s\<lparr>live := l\<rparr>) \<and>
    (\<forall>b. l b = (if \<exists>z\<in>set zs. ln_address (lg s z) = Some b then None else live s b))"
  using assms
proof (induction zs arbitrary: p fuel s)
  case Nil
  then obtain f where "fuel = Suc f" by (cases fuel) auto
  then show ?case using Nil by (intro exI[of _ "live s"]) simp
next
  case (Cons y zs)
  obtain f n where f: "fuel = Suc f" "larges s y = Some n" "lchain (larges s) (ln_next n) zs" "p = Some y"
    using Cons.prems(1,2) by (cases fuel) (auto split: option.splits)
  define s1 where "s1 = (case ln_address n of None \<Rightarrow> s | Some q \<Rightarrow> s\<lparr>live := (live s)(q := None)\<rparr>)"
  have fb: "free_block (ln_address n) s = Inr s1"
    using Cons.prems(4)[of y] f(2) by (auto simp: free_block_def s1_def split: option.splits)
  have sel: "larges s1 = larges s" by (simp add: s1_def split: option.splits)
  have lv: "live s1 b = (if ln_address n = Some b then None else live s b)" for b
    by (auto simp: s1_def split: option.splits)
  have "\<exists>l. free_larges f (ln_next n) s1 = Inr (s1\<lparr>live := l\<rparr>) \<and>
      (\<forall>b. l b = (if \<exists>z\<in>set zs. ln_address (lg s1 z) = Some b then None else live s1 b))"
  proof (rule Cons.IH)
    show "lchain (larges s1) (ln_next n) zs" "length zs < f" "distinct zs" using f Cons.prems(2,3) by (simp_all add: sel)
    fix z q assume z: "z \<in> set zs" "ln_address (lg s1 z) = Some q"
    then have "ln_address n \<noteq> Some q" using Cons.prems(3) Cons.prems(5)[of y z] f(2) by (auto simp: sel)
    then show "live s1 q \<noteq> None" using Cons.prems(4)[of z q] z by (simp add: lv sel)
  qed (use Cons.prems(5) in \<open>simp add: sel\<close>)
  then obtain l where l: "free_larges f (ln_next n) s1 = Inr (s1\<lparr>live := l\<rparr>)"
      "\<forall>b. l b = (if \<exists>z\<in>set zs. ln_address (lg s z) = Some b then None else live s1 b)" by (auto simp: sel)
  have "s1\<lparr>live := l\<rparr> = s\<lparr>live := l\<rparr>" by (simp add: s1_def split: option.splits)
  then have "free_larges fuel p s = Inr (s\<lparr>live := l\<rparr>)" using f fb l(1) by (simp add: large_at_def)
  moreover have "\<forall>b. l b = (if \<exists>z\<in>set (y # zs). ln_address (lg s z) = Some b then None else live s b)"
    using l(2) f(2) by (auto simp: lv)
  ultimately show ?case by blast
qed

lemma reset_smalls_total:
  assumes "chain (smalls s) p zs" "length zs < fuel" "distinct zs"
  shows "reset_smalls fuel p s = Inr (s\<lparr>smalls := (\<lambda>a. if a \<in> set zs
    then map_option (\<lambda>n. n\<lparr>node_last := a + 32, node_failed := 0, node_quote := 0\<rparr>) (smalls s a) else smalls s a)\<rparr>)"
  using assms
proof (induction zs arbitrary: p fuel s)
  case Nil
  then obtain f where "fuel = Suc f" by (cases fuel) auto
  then show ?case using Nil by simp
next
  case (Cons c zs)
  obtain f n where f: "fuel = Suc f" "smalls s c = Some n" "chain (smalls s) (node_next n) zs" "p = Some c"
    using Cons.prems(1,2) by (cases fuel) (auto split: option.splits)
  define s1 where "s1 = set_small c (n\<lparr>node_last := c + 32, node_failed := 0, node_quote := 0\<rparr>) s"
  have "chain (smalls s1) (node_next n) zs = chain (smalls s) (node_next n) zs"
    by (rule chain_cong) (use Cons.prems(3) in \<open>auto simp: s1_def\<close>)
  then have "chain (smalls s1) (node_next n) zs" using f(3) by simp
  from Cons.IH[OF this, of f] Cons.prems f(1) have
    ih: "reset_smalls f (node_next n) s1 = Inr (s1\<lparr>smalls := (\<lambda>a. if a \<in> set zs
      then map_option (\<lambda>n. n\<lparr>node_last := a + 32, node_failed := 0, node_quote := 0\<rparr>) (smalls s1 a) else smalls s1 a)\<rparr>)" by simp
  show ?case
    using ih f Cons.prems(3) by (simp add: small_at_def sizeof_SmallNode_def flip: s1_def)
      (auto simp: s1_def set_small_def fun_eq_iff intro!: arg_cong[where f = "\<lambda>m. s\<lparr>smalls := m\<rparr>"])
qed

lemma resetPool_pool:
  assumes st: "pool_state s xs ys H" and fuel: "length xs < fuel" "length ys < fuel"
  shows "\<exists>s'. resetPool fuel s = Inr s' \<and> pool_state s' xs [] {}"
proof -
  have inv: "small_inv s xs (smallH H \<union> node_regions ys)" and li: "large_inv s xs ys (largeH H)"
    using st by (simp_all add: pool_state_def)
  have sh: "pool_shape s xs" using inv by (simp add: small_inv_def)
  have lc: "lchain (larges s) (largeList s) ys" "distinct ys" using li by (simp_all add: large_inv_def)
  have held: "\<exists>k. (q, k) \<in> largeH H" if "z \<in> set ys" "ln_address (lg s z) = Some q" for z q
    using li that unfolding large_inv_def by blast
  have lv: "live s q = Some k \<and> (\<forall>a\<in>set xs. base_of s a \<noteq> q)" if "(q, k) \<in> largeH H" for q k
    using li that unfolding large_inv_def by blast
  have "\<exists>l. free_larges fuel (largeList s) s = Inr (s\<lparr>live := l\<rparr>) \<and>
    (\<forall>b. l b = (if \<exists>z\<in>set ys. ln_address (lg s z) = Some b then None else live s b))"
    by (rule free_larges_total[OF lc(1) fuel(2) lc(2)]) (use held lv li in \<open>fastforce, unfold large_inv_def, blast\<close>)
  then obtain l where l: "free_larges fuel (largeList s) s = Inr (s\<lparr>live := l\<rparr>)"
      "\<And>b. l b = (if \<exists>z\<in>set ys. ln_address (lg s z) = Some b then None else live s b)" by blast
  define s1 where "s1 = s\<lparr>live := l, largeList := None, pool_current := pool_head s\<rparr>"
  define s' where "s' = s1\<lparr>smalls := (\<lambda>a. if a \<in> set xs
    then map_option (\<lambda>n. n\<lparr>node_last := a + 32, node_failed := 0, node_quote := 0\<rparr>) (smalls s a) else smalls s a)\<rparr>"
  have dx: "distinct xs" using sh by (simp add: pool_shape_def)
  have "reset_smalls fuel (Some (pool_head s)) s1 = Inr s'"
  proof -
    have "smalls s1 = smalls s" by (simp add: s1_def)
    then show ?thesis
      using reset_smalls_total[of s1 "Some (pool_head s)" xs fuel] pool_shape_chain[OF sh] fuel(1) dx
      unfolding s'_def by metis
  qed
  then have run: "resetPool fuel s = Inr s'" using l(1) by (simp add: resetPool_def s1_def)
  have bo: "base_of s' = base_of s" by (rule base_of_cong) (simp_all add: s'_def s1_def)
  have node: "\<exists>n. smalls s a = Some n \<and> smalls s' a = Some (n\<lparr>node_last := a + 32, node_failed := 0, node_quote := 0\<rparr>)"
    if "a \<in> set xs" for a using chain_dom[OF pool_shape_chain[OF sh] that] that by (auto simp: s'_def)
  have "chain (smalls s') (Some (pool_head s)) xs = chain (smalls s) (Some (pool_head s)) xs"
    by (rule chain_cong) (use node in force)
  then have ch: "chain (smalls s') (Some (pool_head s)) xs" using pool_shape_chain[OF sh] by simp
  have ok: "node_ok s' a" if a: "a \<in> set xs" for a
  proof -
    have "\<not> (\<exists>z\<in>set ys. ln_address (lg s z) = Some (base_of s a))" using held lv a by blast
    then have "live s' (base_of s a) = live s (base_of s a)" by (simp add: s'_def s1_def l(2))
    then show ?thesis using pool_shape_node[OF sh a] node[OF a] by (auto simp: node_ok_def bo)
  qed
  have "blocks_ok (live s')"
    using sh unfolding pool_shape_def blocks_ok_def s'_def s1_def by (auto simp: l(2) split: if_splits)
  moreover have "pool_head s \<in> set xs" using pool_shape_chain[OF sh] by (cases xs) (use sh in \<open>auto simp: pool_shape_def\<close>)
  ultimately have "pool_shape s' xs" using sh ch ok unfolding pool_shape_def by (auto simp: s'_def s1_def)
  moreover have "node_quote (nd s' a) = 0" if "a \<in> set xs" for a using node[OF that] by auto
  ultimately have "small_inv s' xs {}" using counts_harmless(3) by (simp add: small_inv_def pairwise_apart_def)
  moreover have "large_inv s' xs [] {}" by (simp add: large_inv_def s'_def s1_def)
  ultimately show ?thesis using run by (simp add: pool_state_def smallH_def largeH_def node_regions_def)
qed

lemma createPool_pool:
  assumes "page_placed b" "node_next mem = None" "harmless_count (node_quote mem)" "createPool (Some (b, mem)) = Some s"
  shows "pool_state s [b + 24] [] {}"
proof -
  have b: "16 dvd b" "b + 4112 < 2 ^ 64" "counts (node_quote mem) 0" "node_next mem = None"
    using assms(1,2) counts_harmless(1)[OF assms(3)] by (simp_all add: page_placed_def)
  have s: "s = \<lparr>pool_base = b, largeList = None, pool_head = b + 24, pool_current = b + 24,
      smalls = [b + 24 \<mapsto> mem\<lparr>node_last := 56 + b, node_end := b + 4096, node_failed := 0\<rparr>],
      larges = Map.empty, live = [b \<mapsto> 4096]\<rparr>"
    using assms(4) by (simp add: createPool_def mp_sizes Let_def)
  have "pool_shape s [b + 24]" using b by (simp add: s pool_shape_def node_ok_def base_of_def blocks_ok_def)
  then show ?thesis using b by (simp add: pool_state_def small_inv_def large_inv_def smallH_def largeH_def node_regions_def pairwise_apart_def s)
qed

section \<open>Lemmas: fuel\<close>

text \<open>A loop that has returned returns the same with more fuel; so do the operations.\<close>

named_theorems fuel_mono

lemma bump_failed_mono [fuel_mono]: "bump_failed fuel current cur s = Inr y \<Longrightarrow> fuel \<le> fuel' \<Longrightarrow> bump_failed fuel' current cur s = Inr y"
proof (induction fuel arbitrary: current cur s fuel')
  case (Suc fuel)
  then obtain g where "fuel' = Suc g" "fuel \<le> g" by (cases fuel') auto
  with Suc show ?case by (auto simp: bind_r_eq_Inr Let_def split: option.splits if_splits)
qed simp

lemma find_fit_mono [fuel_mono]: "find_fit fuel sz p s = Inr y \<Longrightarrow> fuel \<le> fuel' \<Longrightarrow> find_fit fuel' sz p s = Inr y"
proof (induction fuel arbitrary: p fuel')
  case (Suc fuel)
  then obtain g where "fuel' = Suc g" "fuel \<le> g" by (cases fuel') auto
  with Suc show ?case by (auto simp: bind_r_eq_Inr Let_def split: option.splits if_splits)
qed simp

lemma find_free_large_mono [fuel_mono]: "find_free_large fuel c p s = Inr y \<Longrightarrow> fuel \<le> fuel' \<Longrightarrow> find_free_large fuel' c p s = Inr y"
proof (induction fuel arbitrary: c p fuel')
  case (Suc fuel)
  then obtain g where "fuel' = Suc g" "fuel \<le> g" by (cases fuel') auto
  with Suc show ?case by (auto simp: bind_r_eq_Inr Let_def split: option.splits if_splits)
qed simp

lemma find_large_mono [fuel_mono]: "find_large fuel q p s = Inr y \<Longrightarrow> fuel \<le> fuel' \<Longrightarrow> find_large fuel' q p s = Inr y"
proof (induction fuel arbitrary: p fuel')
  case (Suc fuel)
  then obtain g where "fuel' = Suc g" "fuel \<le> g" by (cases fuel') auto
  with Suc show ?case by (auto simp: bind_r_eq_Inr Let_def split: option.splits if_splits)
qed simp

lemma find_small_mono [fuel_mono]: "find_small fuel q p s = Inr y \<Longrightarrow> fuel \<le> fuel' \<Longrightarrow> find_small fuel' q p s = Inr y"
proof (induction fuel arbitrary: p fuel')
  case (Suc fuel)
  then obtain g where "fuel' = Suc g" "fuel \<le> g" by (cases fuel') auto
  with Suc show ?case by (auto simp: bind_r_eq_Inr Let_def split: option.splits if_splits)
qed simp

lemma free_larges_mono [fuel_mono]: "free_larges fuel p s = Inr y \<Longrightarrow> fuel \<le> fuel' \<Longrightarrow> free_larges fuel' p s = Inr y"
proof (induction fuel arbitrary: p s fuel')
  case (Suc fuel)
  then obtain g where "fuel' = Suc g" "fuel \<le> g" by (cases fuel') auto
  with Suc show ?case by (auto simp: bind_r_eq_Inr Let_def split: option.splits if_splits)
qed simp

lemma reset_smalls_mono [fuel_mono]: "reset_smalls fuel p s = Inr y \<Longrightarrow> fuel \<le> fuel' \<Longrightarrow> reset_smalls fuel' p s = Inr y"
proof (induction fuel arbitrary: p s fuel')
  case (Suc fuel)
  then obtain g where "fuel' = Suc g" "fuel \<le> g" by (cases fuel') auto
  with Suc show ?case by (auto simp: bind_r_eq_Inr Let_def split: option.splits if_splits)
qed simp

lemma destroy_larges_mono [fuel_mono]: "destroy_larges fuel p s = Inr y \<Longrightarrow> fuel \<le> fuel' \<Longrightarrow> destroy_larges fuel' p s = Inr y"
proof (induction fuel arbitrary: p s fuel')
  case (Suc fuel)
  then obtain g where "fuel' = Suc g" "fuel \<le> g" by (cases fuel') auto
  with Suc show ?case by (auto simp: bind_r_eq_Inr Let_def split: option.splits if_splits)
qed simp

lemma bind_r_mono:
  "bind_r m f = Inr y \<Longrightarrow> (\<And>x. m = Inr x \<Longrightarrow> m' = Inr x) \<Longrightarrow> (\<And>x. f x = Inr y \<Longrightarrow> f' x = Inr y) \<Longrightarrow> bind_r m' f' = Inr y"
  by (auto simp: bind_r_eq_Inr)

lemma mallocSmallNode_mono [fuel_mono]:
  "mallocSmallNode fuel r sz s = Inr y \<Longrightarrow> fuel \<le> fuel' \<Longrightarrow> mallocSmallNode fuel' r sz s = Inr y"
  unfolding mallocSmallNode_def Let_def by (auto split: option.splits elim!: bind_r_mono intro: fuel_mono)

lemma malloc_small_mono [fuel_mono]:
  "malloc_small fuel r sz s = Inr y \<Longrightarrow> fuel \<le> fuel' \<Longrightarrow> malloc_small fuel' r sz s = Inr y"
  unfolding malloc_small_def by (erule bind_r_mono) (auto split: option.splits intro: fuel_mono)

lemma mallocLargeNode_mono [fuel_mono]:
  "mallocLargeNode fuel rl r sz s = Inr y \<Longrightarrow> fuel \<le> fuel' \<Longrightarrow> mallocLargeNode fuel' rl r sz s = Inr y"
  unfolding mallocLargeNode_def Let_def by (auto split: option.splits elim!: bind_r_mono intro: fuel_mono)

lemma malloc_mono [fuel_mono]:
  "malloc fuel rl r sz s = Inr y \<Longrightarrow> fuel \<le> fuel' \<Longrightarrow> malloc fuel' rl r sz s = Inr y"
  unfolding malloc_def by (auto split: if_splits intro: fuel_mono)

lemma freeMemory_mono [fuel_mono]:
  "freeMemory fuel p s = Inr y \<Longrightarrow> fuel \<le> fuel' \<Longrightarrow> freeMemory fuel' p s = Inr y"
  unfolding freeMemory_def by (erule bind_r_mono) (auto split: option.splits elim!: bind_r_mono intro: fuel_mono)

lemma resetPool_mono [fuel_mono]:
  "resetPool fuel s = Inr y \<Longrightarrow> fuel \<le> fuel' \<Longrightarrow> resetPool fuel' s = Inr y"
  unfolding resetPool_def by (erule bind_r_mono) (auto intro: fuel_mono)

text \<open>
  The states a client can bring the pool into, with the regions it holds: by allocating, by giving
  back a region it holds, and by resetting the pool. The pages are wherever \<open>posix_memalign\<close> may put
  them and hold anything. The first argument records whether the contents the pool relies on without
  setting them were harmless so far: a null link in the first page, and in no page a count within
  4096 of coming round to zero (pages of zeros are harmless; nothing promises them).
\<close>

inductive pool_reach :: "bool \<Rightarrow> MemoryPool \<Rightarrow> region set \<Rightarrow> bool" where
  reach_create: "page_placed b \<Longrightarrow> createPool (Some (b, mem)) = Some s \<Longrightarrow>
    pool_reach (node_next mem = None \<and> harmless_count (node_quote mem)) s {}"
| reach_malloc: "pool_reach h s H \<Longrightarrow> os_ok s sz rl r \<Longrightarrow> malloc fuel rl r sz s = Inr (p, s') \<Longrightarrow>
    pool_reach (h \<and> page_harmless r) s' (case p of None \<Rightarrow> H | Some u \<Rightarrow> insert (u, sz) H)"
| reach_free: "pool_reach h s H \<Longrightarrow> (u, k) \<in> H \<Longrightarrow> freeMemory fuel (Some u) s = Inr s' \<Longrightarrow> pool_reach h s' (H - {(u, k)})"
| reach_reset: "pool_reach h s H \<Longrightarrow> resetPool fuel s = Inr s' \<Longrightarrow> pool_reach h s' {}"

lemma enough_fuel:
  "length xs < max fuel (Suc (length xs + length ys))" "length ys < max fuel (Suc (length xs + length ys))"
  by (simp_all add: less_max_iff_disj)

text \<open>A result some fuel gives is the one enough fuel gives, so one step keeps the invariant.\<close>

lemma pool_reach_state: "pool_reach h s H \<Longrightarrow> h \<Longrightarrow> \<exists>xs ys. pool_state s xs ys H"
proof (induction rule: pool_reach.induct)
  case (reach_create b mem s)
  then show ?case using createPool_pool by blast
next
  case (reach_malloc h s H sz rl r fuel p s')
  then obtain xs ys where st: "pool_state s xs ys H" by blast
  let ?f = "max fuel (Suc (length xs + length ys))"
  obtain p' s'' xs' ys' where m: "malloc ?f rl r sz s = Inr (p', s'')"
      "case p' of None \<Rightarrow> s'' = s | Some u \<Rightarrow> page_harmless r \<longrightarrow> pool_state s'' xs' ys' (insert (u, sz) H)"
    using malloc_pool[OF st enough_fuel reach_malloc.hyps(2)] by blast
  moreover have "malloc ?f rl r sz s = Inr (p, s')" by (rule malloc_mono[OF reach_malloc.hyps(3)]) simp
  ultimately show ?case using st reach_malloc.prems by (cases p) (auto split: option.splits)
next
  case (reach_free h s H u k fuel s')
  then obtain xs ys where st: "pool_state s xs ys H" by blast
  let ?f = "max fuel (Suc (length xs + length ys))"
  have "freeMemory ?f (Some u) s = Inr s'" by (rule freeMemory_mono[OF reach_free.hyps(3)]) simp
  then show ?case using freeMemory_pool[OF st reach_free.hyps(2) enough_fuel, of fuel] by auto
next
  case (reach_reset h s H fuel s')
  then obtain xs ys where st: "pool_state s xs ys H" by blast
  let ?f = "max fuel (Suc (length xs + length ys))"
  have "resetPool ?f s = Inr s'" by (rule resetPool_mono[OF reach_reset.hyps(2)]) simp
  then show ?case using resetPool_pool[OF st enough_fuel, of fuel] by auto
qed

text \<open>The regions the client holds are apart, and lie in blocks of the pool.\<close>

lemma held_in_block:
  assumes st: "pool_state s xs ys H" and r: "r \<in> H"
  shows "16 dvd fst r \<and> 0 < snd r \<and> (\<exists>b k. live s b = Some k \<and> b \<le> fst r \<and> fst r + snd r \<le> b + k \<and>
    (if snd r \<le> 4064 then \<exists>a\<in>set xs. b = base_of s a else r = (b, k) \<and> (\<forall>a\<in>set xs. base_of s a \<noteq> b)))"
proof (cases "snd r \<le> 4064")
  case True
  have inv: "small_inv s xs (smallH H \<union> node_regions ys)" using st by (simp add: pool_state_def)
  then have sh: "pool_shape s xs" and p: "placed s xs r" using True r by (auto simp: small_inv_def smallH_def)
  obtain a where a: "a \<in> set xs" "in_node s a r" using placed_in_node[OF sh p] by blast
  then show ?thesis using pool_shape_node[OF sh a(1)] p True
    by (intro conjI exI[of _ "base_of s a"] exI[of _ 4096]) (auto simp: node_ok_def in_node_def placed_def)
next
  case False
  have "large_inv s xs ys (largeH H)" using st by (simp add: pool_state_def)
  moreover have "(fst r, snd r) \<in> largeH H" using False r by (simp add: largeH_def)
  ultimately have "live s (fst r) = Some (snd r)" "16 dvd fst r" "\<forall>a\<in>set xs. base_of s a \<noteq> fst r"
    unfolding large_inv_def by blast+
  with False show ?thesis by (intro conjI exI[of _ "fst r"] exI[of _ "snd r"]) auto
qed

lemma held_apart:
  assumes st: "pool_state s xs ys H"
  shows "pairwise_apart H"
  unfolding pairwise_apart_def
proof (intro ballI impI)
  fix r q assume r: "r \<in> H" "q \<in> H" "r \<noteq> q"
  have inv: "small_inv s xs (smallH H \<union> node_regions ys)" using st by (simp add: pool_state_def)
  then have bl: "blocks_ok (live s)" by (simp add: small_inv_def pool_shape_def)
  show "apart r q"
  proof (cases "snd r \<le> 4064 \<and> snd q \<le> 4064")
    case True
    then have "r \<in> smallH H" "q \<in> smallH H" using r by (auto simp: smallH_def)
    then show ?thesis using inv r(3) by (auto simp: small_inv_def pairwise_apart_def)
  next
    case False
    obtain b k where b: "live s b = Some k" "b \<le> fst r" "fst r + snd r \<le> b + k"
        "if snd r \<le> 4064 then \<exists>a\<in>set xs. b = base_of s a else r = (b, k) \<and> (\<forall>a\<in>set xs. base_of s a \<noteq> b)"
      using held_in_block[OF st r(1)] by blast
    obtain c j where c: "live s c = Some j" "c \<le> fst q" "fst q + snd q \<le> c + j"
        "if snd q \<le> 4064 then \<exists>a\<in>set xs. c = base_of s a else q = (c, j) \<and> (\<forall>a\<in>set xs. base_of s a \<noteq> c)"
      using held_in_block[OF st r(2)] by blast
    have "b \<noteq> c" using b(1,4) c(1,4) r(3) False by (auto split: if_splits)
    then show ?thesis by (rule apart_in_blocks[OF bl b(1) c(1) _ b(2,3) c(2,3)])
  qed
qed

text \<open>\<open>destroyPool\<close> gets through the large blocks.\<close>

lemma destroy_larges_total:
  assumes "lchain (larges s) p zs" "length zs < fuel" "distinct zs"
    and "\<And>z q. z \<in> set zs \<Longrightarrow> ln_address (lg s z) = Some q \<Longrightarrow> live s q \<noteq> None"
    and "\<And>z z'. z \<in> set zs \<Longrightarrow> z' \<in> set zs \<Longrightarrow> ln_address (lg s z) \<noteq> None \<Longrightarrow> ln_address (lg s z) = ln_address (lg s z') \<Longrightarrow> z = z'"
  shows "\<exists>s'. destroy_larges fuel p s = Inr s' \<and> smalls s' = smalls s \<and> pool_head s' = pool_head s \<and>
    (\<forall>b. (\<forall>z\<in>set zs. ln_address (lg s z) \<noteq> Some b) \<longrightarrow> live s' b = live s b)"
  using assms
proof (induction zs arbitrary: p fuel s)
  case Nil
  then obtain f where "fuel = Suc f" by (cases fuel) auto
  then show ?case using Nil by simp
next
  case (Cons y zs)
  obtain f n where f: "fuel = Suc f" "larges s y = Some n" "lchain (larges s) (ln_next n) zs" "p = Some y"
    using Cons.prems(1,2) by (cases fuel) (auto split: option.splits)
  define s0 where "s0 = (case ln_address n of None \<Rightarrow> s | Some q \<Rightarrow> s\<lparr>live := (live s)(q := None)\<rparr>)"
  define s1 where "s1 = (if ln_address n = None then s0 else set_large y (n\<lparr>ln_address := None\<rparr>) s0)"
  have fb: "free_block (ln_address n) s = Inr s0"
    using Cons.prems(4)[of y] f(2) by (auto simp: free_block_def s0_def split: option.splits)
  have sel: "larges s1 z = larges s z" if "z \<in> set zs" for z
    using Cons.prems(3) that by (auto simp: s1_def s0_def split: option.splits)
  have keep: "smalls s1 = smalls s" "pool_head s1 = pool_head s" by (auto simp: s1_def s0_def split: option.splits)
  have lv: "live s1 b = (if ln_address n = Some b then None else live s b)" for b
    by (auto simp: s1_def s0_def split: option.splits)
  have "\<exists>s'. destroy_larges f (ln_next n) s1 = Inr s' \<and> smalls s' = smalls s1 \<and> pool_head s' = pool_head s1 \<and>
    (\<forall>b. (\<forall>z\<in>set zs. ln_address (lg s1 z) \<noteq> Some b) \<longrightarrow> live s' b = live s1 b)"
  proof (rule Cons.IH)
    have "lchain (larges s1) (ln_next n) zs = lchain (larges s) (ln_next n) zs" by (rule lchain_cong) (simp add: sel)
    then show "lchain (larges s1) (ln_next n) zs" using f(3) by simp
    show "length zs < f" "distinct zs" using f Cons.prems(2,3) by simp_all
    fix z q assume z: "z \<in> set zs" "ln_address (lg s1 z) = Some q"
    then have "ln_address n \<noteq> Some q" using Cons.prems(3) Cons.prems(5)[of y z] f(2) by (auto simp: sel)
    then show "live s1 q \<noteq> None" using Cons.prems(4)[of z q] z by (simp add: lv sel)
  qed (use Cons.prems(5) in \<open>simp add: sel\<close>)
  then obtain s' where s': "destroy_larges f (ln_next n) s1 = Inr s'" "smalls s' = smalls s" "pool_head s' = pool_head s"
      "\<And>b. \<forall>z\<in>set zs. ln_address (lg s z) \<noteq> Some b \<Longrightarrow> live s' b = live s1 b" by (auto simp: keep sel)
  then show ?case using f fb
    by (intro exI[of _ s']) (simp add: large_at_def lv s1_def[symmetric])
qed


text \<open>No region the client holds overlaps a header.\<close>

lemma held_apart_header:
  assumes st: "pool_state s xs ys H" and r: "r \<in> H" and a: "a \<in> set xs"
  shows "apart r (a, 32)"
proof -
  have inv: "small_inv s xs (smallH H \<union> node_regions ys)" and sh: "pool_shape s xs"
    using st by (simp_all add: pool_state_def small_inv_def)
  have bl: "blocks_ok (live s)" using sh by (simp add: pool_shape_def)
  have na: "live s (base_of s a) = Some 4096" "base_of s a \<le> a" "a + 32 \<le> base_of s a + 4096"
    using pool_shape_node[OF sh a] by (auto simp: node_ok_def)
  obtain b k where b: "live s b = Some k" "b \<le> fst r" "fst r + snd r \<le> b + k"
      "if snd r \<le> 4064 then \<exists>a\<in>set xs. b = base_of s a else r = (b, k) \<and> (\<forall>a\<in>set xs. base_of s a \<noteq> b)"
    using held_in_block[OF st r] by blast
  show ?thesis
  proof (cases "b = base_of s a")
    case True
    then have "snd r \<le> 4064" using b(4) a by (auto split: if_splits)
    then have p: "placed s xs r" using r inv by (auto simp: small_inv_def smallH_def)
    then obtain c where c: "c \<in> set xs" "in_node s c r" using placed_in_node[OF sh] by blast
    have lvc: "live s (base_of s c) = Some 4096" "base_of s c \<le> c" using pool_shape_node[OF sh c(1)] by (simp_all add: node_ok_def)
    have "base_of s c = base_of s a"
    proof (rule ccontr)
      assume "base_of s c \<noteq> base_of s a"
      then have "apart r r" using apart_in_blocks[OF bl lvc(1) b(1)] True b(2,3) c(2) lvc(2) by (auto simp: in_node_def)
      then show False using p by (simp add: apart_def placed_def)
    qed
    then have "c = a" using base_of_inj[OF sh c(1) a] by blast
    then show ?thesis using c(2) by (auto simp: in_node_def apart_def)
  next
    case False
    show ?thesis by (rule apart_in_blocks[OF bl b(1) na(1) False b(2,3)]) (use na in auto)
  qed
qed

lemma held_apart_large_node:
  assumes st: "pool_state s xs ys H" and r: "r \<in> H" and y: "y \<in> set ys"
  shows "apart r (y, 24)"
proof -
  have inv: "small_inv s xs (smallH H \<union> node_regions ys)" and sh: "pool_shape s xs"
    using st by (simp_all add: pool_state_def small_inv_def)
  have bl: "blocks_ok (live s)" using sh by (simp add: pool_shape_def)
  have yR: "(y, 24) \<in> smallH H \<union> node_regions ys" using y by (auto simp: node_regions_def)
  then have p: "placed s xs (y, 24)" using inv by (simp add: small_inv_def)
  obtain c where c: "c \<in> set xs" "in_node s c (y, 24)" using placed_in_node[OF sh p] by blast
  have lvc: "live s (base_of s c) = Some 4096" "base_of s c \<le> c" using pool_shape_node[OF sh c(1)] by (simp_all add: node_ok_def)
  show ?thesis
  proof (cases "snd r \<le> 4064")
    case True
    then have "r \<in> smallH H" "r \<noteq> (y, 24)" using r y st by (auto simp: pool_state_def smallH_def node_regions_def)
    then show ?thesis using inv yR by (auto simp: small_inv_def pairwise_apart_def)
  next
    case False
    obtain b k where b: "live s b = Some k" "b \<le> fst r" "fst r + snd r \<le> b + k" "\<forall>a\<in>set xs. base_of s a \<noteq> b"
      using held_in_block[OF st r] False by auto
    then have "b \<noteq> base_of s c" using c(1) by auto
    then show ?thesis using apart_in_blocks[OF bl b(1) lvc(1) _ b(2,3)] c(2) lvc(2) by (auto simp: in_node_def)
  qed
qed

text \<open>A pool with more than one page cannot be destroyed.\<close>

lemma destroyPool_second_page:
  assumes st: "pool_state s xs ys H" and nx: "node_next (nd s (pool_head s)) \<noteq> None" and fuel: "length ys < fuel"
  shows "destroyPool fuel s = Inl UseAfterFree"
proof -
  have sh: "pool_shape s xs" and li: "large_inv s xs ys (largeH H)" using st by (simp_all add: pool_state_def small_inv_def)
  obtain n where n: "smalls s (pool_head s) = Some n" "chain (smalls s) (node_next n) (tl xs)"
    using pool_shape_chain[OF sh] by (cases xs) (auto split: option.splits)
  then obtain a where a: "node_next n = Some a" "a \<in> set (tl xs)" using nx by (cases "tl xs") auto
  have xs: "xs = pool_head s # tl xs" using pool_shape_chain[OF sh] by (cases xs) auto
  then have ax: "a \<in> set xs" "a \<noteq> pool_head s"
    using a(2) sh by (metis list.set_intros(2), metis distinct.simps(2) pool_shape_def)
  then obtain m where m: "smalls s a = Some m" "live s a = Some 4096"
    using chain_dom[OF pool_shape_chain[OF sh] ax(1)] pool_shape_node[OF sh ax(1)] by (auto simp: node_ok_def base_of_def)
  have held: "\<exists>k. (q, k) \<in> largeH H" if "z \<in> set ys" "ln_address (lg s z) = Some q" for z q
    using li that unfolding large_inv_def by blast
  have lv: "live s q = Some k \<and> (\<forall>a\<in>set xs. base_of s a \<noteq> q)" if "(q, k) \<in> largeH H" for q k
    using li that unfolding large_inv_def by blast
  have nl: "\<forall>z\<in>set ys. ln_address (lg s z) \<noteq> Some a" using held lv ax by (fastforce simp: base_of_def)
  have lc: "lchain (larges s) (largeList s) ys" "distinct ys" using li by (simp_all add: large_inv_def)
  have "\<exists>s'. destroy_larges fuel (largeList s) s = Inr s' \<and> smalls s' = smalls s \<and> pool_head s' = pool_head s \<and>
    (\<forall>b. (\<forall>z\<in>set ys. ln_address (lg s z) \<noteq> Some b) \<longrightarrow> live s' b = live s b)"
    by (rule destroy_larges_total[OF lc(1) fuel lc(2)]) (use held lv li in \<open>fastforce, unfold large_inv_def, blast\<close>)
  then obtain s' where s': "destroy_larges fuel (largeList s) s = Inr s'" "smalls s' = smalls s" "pool_head s' = pool_head s"
      "live s' a = Some 4096" using nl m(2) by auto
  obtain f where "fuel = Suc f" using fuel by (cases fuel) auto
  then show ?thesis using s' n(1) a(1) m(1) by (simp add: destroyPool_def small_at_def free_block_def)
qed

text \<open>With any contents of the pages, destroying a pool whose head has a link is a fault.\<close>

lemma destroy_larges_smalls:
  "destroy_larges fuel p s = Inr s' \<Longrightarrow> smalls s' = smalls s \<and> pool_head s' = pool_head s"
proof (induction fuel arbitrary: p s)
  case (Suc fuel)
  show ?case
  proof (cases p)
    case None
    then show ?thesis using Suc.prems by simp
  next
    case (Some y)
    then obtain n s1 where n: "free_block (ln_address n) s = Inr s1"
        "destroy_larges fuel (ln_next n) (if ln_address n = None then s1 else set_large y (n\<lparr>ln_address := None\<rparr>) s1) = Inr s'"
      using Suc.prems by (auto simp: bind_r_eq_Inr)
    have "smalls s1 = smalls s \<and> pool_head s1 = pool_head s" using n(1) by (auto simp: free_block_def split: option.splits if_splits)
    then show ?thesis using Suc.IH[OF n(2)] by (simp split: if_splits)
  qed
qed simp

lemma destroyPool_fails:
  assumes "node_next (nd s (pool_head s)) = Some a"
  shows "\<exists>e. destroyPool fuel s = Inl e"
proof (cases "destroy_larges fuel (largeList s) s")
  case (Inl e)
  then show ?thesis by (simp add: destroyPool_def)
next
  case (Inr s1)
  have k: "smalls s1 = smalls s" "pool_head s1 = pool_head s" using destroy_larges_smalls[OF Inr] by simp_all
  have "\<exists>e. destroy_smalls fuel (Some a) s1 = Inl e"
    by (cases fuel; cases "smalls s1 a"; cases "live s1 a") (simp_all add: small_at_def free_block_def)
  then show ?thesis using Inr assms k by (cases "smalls s (pool_head s)") (auto simp: destroyPool_def small_at_def)
qed

text \<open>A small run for the witnesses: a pool, and an allocation that needs a second page.\<close>

definition zero_node :: SmallNode where
  "zero_node = \<lparr>node_end = 0, node_last = 0, node_quote = 0, node_failed = 0, node_next = None\<rparr>"

definition first_pool :: MemoryPool where
  "first_pool = the (createPool (Some (4096, zero_node)))"

definition two_pages :: MemoryPool where
  "two_pages = (case malloc (Suc (Suc (Suc 0))) None (Some (8192, zero_node)) 4064 first_pool of Inr (p, s) \<Rightarrow> s | Inl e \<Rightarrow> first_pool)"

lemma first_pool_eq:
  "createPool (Some (4096, zero_node)) = Some first_pool"
  "first_pool = \<lparr>pool_base = 4096, largeList = None, pool_head = 4120, pool_current = 4120,
     smalls = [4120 \<mapsto> zero_node\<lparr>node_last := 4152, node_end := 8192\<rparr>], larges = Map.empty, live = [4096 \<mapsto> 4096]\<rparr>"
  by (simp_all add: first_pool_def createPool_def mp_sizes zero_node_def)

lemma first_pool_reach: "pool_reach True first_pool {}"
  using reach_create[OF _ first_pool_eq(1)] by (simp add: page_placed_def zero_node_def harmless_count_def)

lemma two_pages_eq:
  "malloc (Suc (Suc (Suc 0))) None (Some (8192, zero_node)) 4064 first_pool = Inr (Some 8224, two_pages)"
  "smalls two_pages 4120 = Some (zero_node\<lparr>node_last := 4152, node_end := 8192, node_next := Some 8192\<rparr>)"
  "pool_head two_pages = 4120"
  by (simp_all add: two_pages_def first_pool_eq(2) malloc_def malloc_small_def mallocSmallNode_def mp_sizes small_at_def
      mp_align_ptr_eq wrap64_def zero_node_def set_small_def Let_def)

lemma two_pages_reach: "pool_reach True two_pages {(8224, 4064)}"
proof -
  have "os_ok first_pool 4064 None (Some (8192, zero_node))"
    by (simp add: os_ok_def page_ok_def page_placed_def zero_node_def first_pool_eq(2) apart_def)
  from reach_malloc[OF first_pool_reach this two_pages_eq(1)] show ?thesis
    by (simp add: page_harmless_def harmless_count_def zero_node_def)
qed

text \<open>
  A first page whose count happens to be the largest number: after two allocations and one release the
  count is zero while a region is held, and the next allocation gets memory that is in use. And one
  whose link is not null: the first allocation that does not fit the page follows it.
\<close>

definition dirty_pool :: "32 word \<Rightarrow> nat \<Rightarrow> nat option \<Rightarrow> MemoryPool" where
  "dirty_pool q l nx = \<lparr>pool_base = 4096, largeList = None, pool_head = 4120, pool_current = 4120,
     smalls = [4120 \<mapsto> zero_node\<lparr>node_last := l, node_end := 8192, node_quote := q, node_next := nx\<rparr>],
     larges = Map.empty, live = [4096 \<mapsto> 4096]\<rparr>"

lemma dirty_pool_malloc:
  assumes "mp_align_ptr l 16 = u" "u + sz \<le> 8192" "0 < sz" "sz \<le> 4064"
  shows "malloc (Suc f) None None sz (dirty_pool q l nx) = Inr (Some u, dirty_pool (q + 1) (u + sz) nx)"
proof -
  have "wrap64 (8192 - int u) = 8192 - u" "sz \<le> 8192 - u" using assms(2) by (simp_all add: wrap64_def)
  then show ?thesis using assms
    by (simp add: dirty_pool_def malloc_def malloc_small_def mp_sizes small_at_def set_small_def Let_def zero_node_def)
qed

lemma overlapping_run: "\<exists>s. pool_reach False s {(4160, 16), (4160, 32)}"
proof -
  let ?q = "- 1 :: 32 word"
  have os: "os_ok s sz None None" for s sz by (simp add: os_ok_def page_ok_def)
  have al: "mp_align_ptr 4152 16 = 4160" "mp_align_ptr 4176 16 = 4176" by (simp_all add: mp_align_ptr_eq)
  have h: "\<not> harmless_count ?q" by (simp add: harmless_count_def unsigned_minus_1_eq_mask mask_eq_exp_minus_1)
  have "createPool (Some (4096, zero_node\<lparr>node_quote := ?q\<rparr>)) = Some (dirty_pool ?q 4152 None)"
    by (simp add: createPool_def mp_sizes zero_node_def dirty_pool_def)
  from reach_create[OF _ this] have r0: "pool_reach False (dirty_pool ?q 4152 None) {}" using h by (simp add: page_placed_def zero_node_def)
  from reach_malloc[OF r0 os dirty_pool_malloc[OF al(1), of 16]] have r1: "pool_reach False (dirty_pool 0 4176 None) {(4160, 16)}" by simp
  from reach_malloc[OF r1 os dirty_pool_malloc[OF al(2), of 16]]
  have r2: "pool_reach False (dirty_pool 1 4192 None) {(4176, 16), (4160, 16)}" by simp
  have "freeMemory (Suc 0) (Some 4176) (dirty_pool 1 4192 None) = Inr (dirty_pool 0 4152 None)"
    by (simp add: dirty_pool_def freeMemory_def small_at_def set_small_def mp_sizes Let_def zero_node_def)
  from reach_free[OF r2 _ this, of 16] have r3: "pool_reach False (dirty_pool 0 4152 None) {(4160, 16)}" by simp
  from reach_malloc[OF r3 os dirty_pool_malloc[OF al(1), of 32]] show ?thesis by (auto simp: insert_commute)
qed

lemma wild_link_run:
  "pool_reach False (dirty_pool 0 4152 (Some 1)) {}"
  "2 \<le> fuel \<Longrightarrow> malloc fuel None r 4064 (dirty_pool 0 4152 (Some 1)) = Inl WildPointer"
proof -
  have "createPool (Some (4096, zero_node\<lparr>node_next := Some 1\<rparr>)) = Some (dirty_pool 0 4152 (Some 1))"
    by (simp add: createPool_def mp_sizes zero_node_def dirty_pool_def)
  from reach_create[OF _ this] show "pool_reach False (dirty_pool 0 4152 (Some 1)) {}" by (simp add: page_placed_def)
  assume "2 \<le> fuel"
  then obtain f where "fuel = Suc (Suc f)" by (metis Suc_le_D Suc_le_mono numeral_2_eq_2)
  then show "malloc fuel None r 4064 (dirty_pool 0 4152 (Some 1)) = Inl WildPointer"
    by (simp add: dirty_pool_def malloc_def malloc_small_def mp_sizes small_at_def mp_align_ptr_eq wrap64_def Let_def)
qed

section \<open>Properties\<close>

text \<open>
  C8: the regions of the memory pool. The pool initialises neither the reference counts of its nodes
  nor the link of the first one, so what it does depends on what the memory held. In every state a
  client can reach by allocating, giving back and resetting while these contents were harmless (a null
  link in the first page, no count within 4096 of \<open>2^32\<close>), the regions it holds are pairwise apart and
  aligned to 16 bytes, each lies inside one block the pool owns, and none overlaps the header of a
  small node or a large node of the pool's lists. With other contents, which nothing excludes, this
  is false: there is a state a client can reach in which two regions it holds overlap.
\<close>

theorem pool_regions_apart:
  assumes "pool_reach True s H"
  shows "pairwise_apart H \<and>
    (\<forall>r\<in>H. 16 dvd fst r \<and> 0 < snd r \<and> (\<exists>b k. live s b = Some k \<and> b \<le> fst r \<and> fst r + snd r \<le> b + k)) \<and>
    (\<exists>xs ys. chain (smalls s) (Some (pool_head s)) xs \<and> lchain (larges s) (largeList s) ys \<and>
      (\<forall>r\<in>H. (\<forall>a\<in>set xs. apart r (a, sizeof_SmallNode)) \<and> (\<forall>y\<in>set ys. apart r (y, sizeof_LargeNode)))) \<and>
    (\<exists>s' H'. pool_reach False s' H' \<and> \<not> pairwise_apart H')"
proof -
  obtain xs ys where st: "pool_state s xs ys H" using pool_reach_state[OF assms] by blast
  have sh: "pool_shape s xs" and lc: "lchain (larges s) (largeList s) ys"
    using st by (simp_all add: pool_state_def small_inv_def large_inv_def)
  have "\<not> pairwise_apart {(4160, 16), (4160, 32)}" by (simp add: pairwise_apart_def apart_def)
  then show ?thesis using held_apart[OF st] held_in_block[OF st] held_apart_header[OF st] held_apart_large_node[OF st]
      pool_shape_chain[OF sh] lc overlapping_run unfolding sizeof_SmallNode_def sizeof_LargeNode_def by blast
qed

theorem pool_regions_apart_witness:
  "pool_reach True two_pages {(8224, 4064)} \<and> pairwise_apart {(8224, 4064)} \<and>
   (\<exists>b k. live two_pages b = Some k \<and> b \<le> 8224 \<and> 8224 + 4064 \<le> b + k)"
  using pool_regions_apart[OF two_pages_reach] two_pages_reach by simp

text \<open>
  C24: the operations of the memory pool return. In every state reached while the uninitialised
  contents of the pages were harmless, there is a number of loop iterations within which \<open>malloc\<close> of
  any size, whatever the new page holds, \<open>freeMemory\<close> of any region held and \<open>resetPool\<close> finish without
  a fault. An allocation of a positive size is refused only when \<open>posix_memalign\<close> failed, and leaves the
  pool as it was then. Without that condition an allocation may follow a wild pointer: a new pool
  whose first page does not happen to hold a null link does so.
\<close>

theorem pool_operations_return:
  assumes "pool_reach True s H"
  shows "(\<exists>N. \<forall>fuel\<ge>N.
    (\<forall>sz rl r. os_ok s sz rl r \<longrightarrow> (\<exists>p s'. malloc fuel rl r sz s = Inr (p, s') \<and>
       (p = None \<longrightarrow> s' = s \<and> (sz = 0 \<or> r = None \<or> rl = None)))) \<and>
    (\<forall>u k. (u, k) \<in> H \<longrightarrow> (\<exists>s'. freeMemory fuel (Some u) s = Inr s')) \<and> (\<exists>s'. resetPool fuel s = Inr s')) \<and>
    (\<exists>s'. pool_reach False s' {} \<and> (\<forall>fuel\<ge>2. \<forall>r. malloc fuel None r 4064 s' = Inl WildPointer))"
proof -
  obtain xs ys where st: "pool_state s xs ys H" using pool_reach_state[OF assms] by blast
  have "(\<exists>p s'. malloc fuel rl r sz s = Inr (p, s') \<and> (p = None \<longrightarrow> s' = s \<and> (sz = 0 \<or> r = None \<or> rl = None)))"
    if fuel: "length xs < fuel" "length ys < fuel" and os: "os_ok s sz rl r" for fuel sz rl r
  proof -
    obtain p s' where m: "malloc fuel rl r sz s = Inr (p, s')" "p = None \<longrightarrow> s' = s"
      using malloc_pool[OF st fuel os] by (force split: option.splits)
    moreover have "sz = 0 \<or> r = None \<or> rl = None" if "p = None"
    proof (rule ccontr)
      assume c: "\<not> ?thesis"
      then have ok: "page_ok s r" "0 < sz" using os by (simp_all add: os_ok_def)
      obtain b where b: "rl = Some b" using c by auto
      have a: "16 dvd b" "\<And>c k. live s c = Some k \<Longrightarrow> apart (b, sz) (c, k)" using os b by (simp_all add: os_ok_def)
      have inv: "small_inv s xs (smallH H \<union> node_regions ys)" using st by (simp add: pool_state_def)
      show False
      proof (cases "sz \<le> 4064")
        case True
        then show False using malloc_small_pool[OF st fuel(1) ok] m(1) c \<open>p = None\<close>
          by (auto simp: malloc_def mp_sizes split: option.splits)
      next
        case False
        define s1 where "s1 = s\<lparr>live := (live s)(b \<mapsto> sz)\<rparr>"
        have "small_inv s1 xs (smallH H \<union> node_regions ys)" using small_inv_add_block[OF inv _ a(2)] ok(2) by (simp add: s1_def)
        moreover have "page_ok s1 r" using os b by (auto simp: os_ok_def page_ok_def s1_def split: option.splits)
        ultimately obtain q s2 where q: "malloc_small fuel r 24 s1 = Inr (q, s2)" "q \<noteq> None"
          using malloc_small_ok[OF _ fuel(1), of s1 "smallH H \<union> node_regions ys" r 24] c by (force split: option.splits)
        then show False using m(1) c b False \<open>p = None\<close>
          by (auto simp: malloc_def mallocLargeNode_def mp_sizes Let_def bind_r_eq_Inr s1_def split: option.splits)
      qed
    qed
    ultimately show ?thesis by blast
  qed
  then show ?thesis using freeMemory_pool[OF st] resetPool_pool[OF st] wild_link_run
    by (intro conjI exI[of _ "Suc (length xs + length ys)"] exI[of _ "dirty_pool 0 4152 (Some 1)"])
      (metis Suc_le_eq le_add1 le_add2 le_less_trans, blast, blast)
qed

theorem pool_operations_return_witness:
  "pool_reach True two_pages {(8224, 4064)} \<and> (\<exists>fuel p s'. malloc fuel None None 100 two_pages = Inr (p, s')) \<and>
   (\<exists>fuel s'. freeMemory fuel (Some 8224) two_pages = Inr s')"
proof -
  have "os_ok two_pages 100 None None" by (simp add: os_ok_def page_ok_def)
  moreover obtain N where N: "\<forall>fuel\<ge>N.
      (\<forall>sz rl r. os_ok two_pages sz rl r \<longrightarrow> (\<exists>p s'. malloc fuel rl r sz two_pages = Inr (p, s') \<and>
         (p = None \<longrightarrow> s' = two_pages \<and> (sz = 0 \<or> r = None \<or> rl = None)))) \<and>
      (\<forall>u k. (u, k) \<in> {(8224 :: nat, 4064 :: nat)} \<longrightarrow> (\<exists>s'. freeMemory fuel (Some u) two_pages = Inr s')) \<and>
      (\<exists>s'. resetPool fuel two_pages = Inr s')"
    using pool_operations_return[OF two_pages_reach] by (elim conjE) (erule exE)
  ultimately have "\<exists>p s'. malloc N None None 100 two_pages = Inr (p, s')" "\<exists>s'. freeMemory N (Some 8224) two_pages = Inr s'"
    using N[rule_format, of N] by (metis le_refl, auto)
  then show ?thesis using two_pages_reach by blast
qed

text \<open>
  C40: once the pool has a second page, \<open>destroyPool\<close> reads the link of a node it has just freed. In
  every state reached while the uninitialised contents of the pages were harmless whose head node has a
  successor, after any sequence of operations, this is what it does; and whatever the pages held, it
  never returns normally from a state whose head node has a link.
\<close>

theorem destroyPool_use_after_free:
  assumes "pool_reach h s H" "node_next (the (smalls s (pool_head s))) \<noteq> None"
  shows "(h \<longrightarrow> (\<exists>N. \<forall>fuel\<ge>N. destroyPool fuel s = Inl UseAfterFree)) \<and> (\<forall>fuel. \<exists>e. destroyPool fuel s = Inl e)"
proof -
  have "\<exists>N. \<forall>fuel\<ge>N. destroyPool fuel s = Inl UseAfterFree" if h: h
  proof -
    obtain xs ys where st: "pool_state s xs ys H" using pool_reach_state[OF assms(1) h] by blast
    show ?thesis using destroyPool_second_page[OF st assms(2)] by (intro exI[of _ "Suc (length ys)"]) auto
  qed
  then show ?thesis using assms(2) destroyPool_fails by blast
qed

theorem destroyPool_use_after_free_witness:
  "pool_reach True two_pages {(8224, 4064)} \<and> (\<exists>fuel. destroyPool fuel two_pages = Inl UseAfterFree)"
  using destroyPool_use_after_free[OF two_pages_reach] two_pages_reach by (auto simp: two_pages_eq(2,3))

end
