(* ===== verification/Thread_Pool.thy ===== *)
theory Thread_Pool
  imports Task_Fifo
begin

text \<open>
  \<open>src/src/base/Thread.h\<close>, \<open>Thread.cc\<close>, \<open>ThreadPool.h\<close> and \<open>ThreadPool.cc\<close>. A task is a value; \<open>None\<close>
  is an empty \<open>std::function\<close>. Each worker thread of the pool has a program counter, and the
  sections the mutex makes atomic are the steps of a transition relation. Waking by
  \<open>notify_one\<close> picks any one waiting worker, and a wait may end without a notification.
\<close>

section \<open>CurrentThread\<close>

text \<open>\<open>cached\<close> is the thread's own \<open>t_cachedTid\<close>, \<open>gettid\<close> what the system call returns.\<close>

definition cacheTid :: "int \<Rightarrow> int \<Rightarrow> int" where
  "cacheTid gettid cached = (if cached = 0 then gettid else cached)"

definition tid :: "int \<Rightarrow> int \<Rightarrow> int \<times> int" where
  "tid gettid cached = (let c = (if cached = 0 then cacheTid gettid cached else cached) in (c, c))"

section \<open>Thread\<close>

record Thread =
  th_started :: bool
  th_joined :: bool
  th_tid :: int
  th_name :: string

text \<open>\<open>created\<close> is the static counter, an \<open>atomic_int\<close>.\<close>

definition setDefaultName :: "32 word \<Rightarrow> Thread \<Rightarrow> Thread \<times> 32 word" where
  "setDefaultName created t =
     (let num = created + 1 in
      (if th_name t = [] then t\<lparr>th_name := take 31 (''Thread'' @ show_int (sint num))\<rparr> else t, num))"

definition new_Thread :: "string \<Rightarrow> 32 word \<Rightarrow> Thread \<times> 32 word" where
  "new_Thread name created =
     setDefaultName created \<lparr>th_started = False, th_joined = False, th_tid = 0, th_name = name\<rparr>"

text \<open>
  \<open>start\<close> returns only after the new thread has stored its \<open>tid\<close>. Starting a thread that runs
  replaces a \<open>std::thread\<close> that is still joinable, which terminates the program.
\<close>

definition start_thread :: "int \<Rightarrow> Thread \<Rightarrow> Thread result" where
  "start_thread gettid t =
     (if th_started t \<and> \<not> th_joined t then Inl Aborted
      else Inr (t\<lparr>th_started := True, th_tid := fst (tid gettid 0)\<rparr>))"

definition join_thread :: "Thread \<Rightarrow> Thread result" where
  "join_thread t = (if \<not> th_started t then Inl NullPointer else Inr (t\<lparr>th_joined := True\<rparr>))"

text \<open>The destructor: whether the running thread is detached.\<close>

definition destroy_Thread :: "Thread \<Rightarrow> bool" where
  "destroy_Thread t \<longleftrightarrow> th_started t \<and> \<not> th_joined t"

section \<open>ThreadPool\<close>

datatype 'f worker =
    Ready              \<comment> \<open>about to lock the mutex and look at the queue\<close>
  | Waiting            \<comment> \<open>in \<open>cond_.wait\<close>\<close>
  | Running 'f         \<comment> \<open>outside the lock, in a task\<close>
  | Exited             \<comment> \<open>\<open>runInThread\<close> has returned\<close>

record 'f ThreadPool =
  tp_names :: "string list"
  tp_pool_name :: string
  tp_init_cb :: bool
  tp_queue :: "'f option list"
  tp_running :: bool
  tp_size :: nat
  tp_workers :: "'f worker list"

text \<open>The constructor leaves \<open>threadSize_\<close> as it finds it (\<open>mem\<close>).\<close>

definition new_ThreadPool :: "nat \<Rightarrow> string \<Rightarrow> 'f ThreadPool" where
  "new_ThreadPool mem name =
     \<lparr>tp_names = [], tp_pool_name = name, tp_init_cb = False, tp_queue = [], tp_running = False, tp_size = mem, tp_workers = []\<rparr>"

definition setThreadInitCallback :: "'f ThreadPool \<Rightarrow> 'f ThreadPool" where
  "setThreadInitCallback p = p\<lparr>tp_init_cb := True\<rparr>"

definition setThreadSize :: "int \<Rightarrow> 'f ThreadPool \<Rightarrow> 'f ThreadPool" where
  "setThreadSize num p = p\<lparr>tp_size := wrap64 num\<rparr>"

text \<open>
  \<open>start\<close>: \<open>reserve\<close> throws above the largest size of a vector of pointers. The thread started for
  the index \<open>i\<close> is \<open>threads_[i]\<close>, which on a second call is a thread that runs already. The result
  includes whether the callback is called here.
\<close>

definition start_ThreadPool :: "'f ThreadPool \<Rightarrow> (bool \<times> 'f ThreadPool) result" where
  "start_ThreadPool p =
     (if tp_size p > 2 ^ 60 - 1 then Inl (Thrown LengthError)
      else if tp_size p > 0 \<and> tp_workers p \<noteq> [] then Inl Aborted
      else Inr (tp_size p = 0 \<and> tp_init_cb p,
                p\<lparr>tp_running := True,
                  tp_names := tp_names p @ map (\<lambda>i. tp_pool_name p @ take 31 (show_nat (i + 1))) [0..<tp_size p],
                  tp_workers := tp_workers p @ replicate (tp_size p) Ready\<rparr>))"

definition wake_all :: "'f worker list \<Rightarrow> 'f worker list" where
  "wake_all ws = map (\<lambda>w. case w of Waiting \<Rightarrow> Ready | _ \<Rightarrow> w) ws"

definition stop_ThreadPool :: "'f ThreadPool \<Rightarrow> 'f ThreadPool" where
  "stop_ThreadPool p = p\<lparr>tp_running := False, tp_workers := wake_all (tp_workers p)\<rparr>"

definition queueSize :: "'f ThreadPool \<Rightarrow> nat" where
  "queueSize p = length (tp_queue p)"

text \<open>\<open>add\<close>: \<open>woken\<close> is the worker \<open>notify_one\<close> wakes, when one waits.\<close>

definition add_task :: "'f option \<Rightarrow> 'f ThreadPool \<Rightarrow> 'f ThreadPool" where
  "add_task t p = p\<lparr>tp_queue := tp_queue p @ [t]\<rparr>"

definition notify_one :: "nat \<Rightarrow> 'f ThreadPool \<Rightarrow> 'f ThreadPool" where
  "notify_one woken p =
     (if woken < length (tp_workers p) \<and> tp_workers p ! woken = Waiting
      then p\<lparr>tp_workers := (tp_workers p)[woken := Ready]\<rparr> else p)"

text \<open>
  The locked section of \<open>runInThread\<close>: wait, leave, or take the front task. A worker is here after
  the initial callback, when there is one, has returned.
\<close>

definition take_task :: "'f ThreadPool \<Rightarrow> 'f option list \<times> 'f ThreadPool" where
  "take_task p = (case tp_queue p of [] \<Rightarrow> ([], p) | t # q \<Rightarrow> ([t], p\<lparr>tp_queue := q\<rparr>))"

definition worker_locked :: "nat \<Rightarrow> 'f ThreadPool \<Rightarrow> 'f ThreadPool" where
  "worker_locked i p =
     (case tp_queue p of
        [] \<Rightarrow> p\<lparr>tp_workers := (tp_workers p)[i := if tp_running p then Waiting else Exited]\<rparr>
      | t # q \<Rightarrow> (snd (take_task p))\<lparr>tp_workers := (tp_workers p)[i := case t of None \<Rightarrow> Ready | Some f \<Rightarrow> Running f]\<rparr>)"

text \<open>The task returns, or throws: then \<open>runInThread\<close> logs and returns.\<close>

definition task_done :: "bool \<Rightarrow> nat \<Rightarrow> 'f ThreadPool \<Rightarrow> 'f ThreadPool" where
  "task_done throws i p = p\<lparr>tp_workers := (tp_workers p)[i := if throws then Exited else Ready]\<rparr>"

text \<open>The destructor stops the pool and joins the threads in order (their indices).\<close>

definition destroy_ThreadPool :: "'f ThreadPool \<Rightarrow> nat list \<times> 'f ThreadPool" where
  "destroy_ThreadPool p = ([0..<length (tp_workers p)], stop_ThreadPool p)"

section \<open>Interleavings\<close>

datatype 'f tp_event = EvAdd "'f option" | EvStop | EvTake nat "'f option" | EvIdle nat | EvDone nat 'f | EvThrow nat 'f | EvWake nat

inductive tp_step :: "'f ThreadPool \<Rightarrow> 'f tp_event \<Rightarrow> 'f ThreadPool \<Rightarrow> bool" where
  st_add: "(Waiting \<in> set (tp_workers p) \<longrightarrow> woken < length (tp_workers p) \<and> tp_workers p ! woken = Waiting) \<Longrightarrow>
    tp_step p (EvAdd t) (notify_one woken (add_task t p))"
| st_stop: "tp_step p EvStop (stop_ThreadPool p)"
| st_take: "i < length (tp_workers p) \<Longrightarrow> tp_workers p ! i = Ready \<Longrightarrow> tp_queue p = t # q \<Longrightarrow>
    tp_step p (EvTake i t) (worker_locked i p)"
| st_idle: "i < length (tp_workers p) \<Longrightarrow> tp_workers p ! i = Ready \<Longrightarrow> tp_queue p = [] \<Longrightarrow>
    tp_step p (EvIdle i) (worker_locked i p)"
| st_done: "i < length (tp_workers p) \<Longrightarrow> tp_workers p ! i = Running f \<Longrightarrow> tp_step p (EvDone i f) (task_done False i p)"
| st_throw: "i < length (tp_workers p) \<Longrightarrow> tp_workers p ! i = Running f \<Longrightarrow> tp_step p (EvThrow i f) (task_done True i p)"
| st_spurious: "i < length (tp_workers p) \<Longrightarrow> tp_workers p ! i = Waiting \<Longrightarrow>
    tp_step p (EvWake i) (p\<lparr>tp_workers := (tp_workers p)[i := Ready]\<rparr>)"

inductive_cases tp_stepE: "tp_step p e p'"

inductive tp_run :: "'f ThreadPool \<Rightarrow> 'f tp_event list \<Rightarrow> 'f ThreadPool \<Rightarrow> bool" where
  run_nil: "tp_run p [] p"
| run_snoc: "tp_run p es p' \<Longrightarrow> tp_step p' e p'' \<Longrightarrow> tp_run p (es @ [e]) p''"

fun added :: "'f tp_event list \<Rightarrow> 'f option list" where
  "added [] = []"
| "added (EvAdd t # es) = t # added es"
| "added (_ # es) = added es"

fun taken :: "'f tp_event list \<Rightarrow> 'f option list" where
  "taken [] = []"
| "taken (EvTake i t # es) = t # taken es"
| "taken (_ # es) = taken es"

section \<open>Lemmas\<close>

interpretation pool_fifo: task_fifo tp_queue add_task take_task
  by unfold_locales (auto simp: add_task_def take_task_def split: list.splits)

lemma added_append [simp]: "added (xs @ ys) = added xs @ added ys"
  by (induction xs rule: added.induct) auto

lemma taken_append [simp]: "taken (xs @ ys) = taken xs @ taken ys"
  by (induction xs rule: taken.induct) auto

text \<open>Counting the workers by what they do.\<close>

definition nready :: "'f worker list \<Rightarrow> nat" where
  "nready ws = length (filter (\<lambda>w. w = Ready) ws)"

fun load :: "'f worker \<Rightarrow> nat" where
  "load Ready = 1"
| "load Waiting = 2"
| "load (Running f) = 2"
| "load Exited = 0"

definition work_left :: "'f ThreadPool \<Rightarrow> nat" where
  "work_left p = 2 * length (tp_queue p) + sum_list (map load (tp_workers p))"

lemma nready_update:
  "i < length ws \<Longrightarrow> nready (ws[i := w]) + (if ws ! i = Ready then 1 else 0) = nready ws + (if w = Ready then 1 else 0)"
proof (induction ws arbitrary: i)
  case (Cons a ws)
  then show ?case by (cases i) (force simp: nready_def)+
qed simp

lemma load_update:
  "i < length ws \<Longrightarrow> sum_list (map load (ws[i := w])) + load (ws ! i) = sum_list (map load ws) + load w"
proof (induction ws arbitrary: i)
  case (Cons a ws)
  then show ?case by (cases i) force+
qed simp

lemma nready_pos: "0 < nready ws \<longleftrightarrow> Ready \<in> set ws"
  unfolding nready_def by (auto simp: length_greater_0_conv filter_empty_conv simp del: length_greater_0_conv)

lemma waiting_update: "w \<noteq> Waiting \<Longrightarrow> Waiting \<in> set (ws[i := w]) \<Longrightarrow> Waiting \<in> set ws"
  using set_update_subset_insert[of ws i w] by auto

lemma no_waiting_wake_all [simp]: "Waiting \<notin> set (wake_all ws)"
  by (auto simp: wake_all_def split: worker.splits)

text \<open>While a worker waits, the pool runs and there is a ready worker for every queued task.\<close>

definition tp_inv :: "'f ThreadPool \<Rightarrow> bool" where
  "tp_inv p \<longleftrightarrow> (Waiting \<in> set (tp_workers p) \<longrightarrow> tp_running p \<and> length (tp_queue p) \<le> nready (tp_workers p))"

lemma tp_step_inv:
  assumes "tp_step p e p'" and inv: "tp_inv p"
  shows "tp_inv p'"
  using assms(1)
proof (cases rule: tp_step.cases)
  case (st_add woken t)
  show ?thesis
  proof (cases "Waiting \<in> set (tp_workers p)")
    case True
    then have w: "woken < length (tp_workers p)" "tp_workers p ! woken = Waiting" using st_add(3) by auto
    then show ?thesis using inv True nready_update[OF w(1), of Ready]
      by (simp add: st_add tp_inv_def notify_one_def add_task_def)
  next
    case False
    then show ?thesis using waiting_update[of Ready "tp_workers p" woken]
      by (auto simp: st_add tp_inv_def notify_one_def add_task_def)
  qed
next
  case st_stop
  then show ?thesis by (simp add: tp_inv_def stop_ThreadPool_def)
next
  case (st_take i t q)
  let ?w = "case t of None \<Rightarrow> Ready | Some f \<Rightarrow> Running f"
  have "Waiting \<in> set (tp_workers p)" if "Waiting \<in> set ((tp_workers p)[i := ?w])"
    by (rule waiting_update[OF _ that]) (simp split: option.splits)
  then show ?thesis using inv st_take nready_update[OF st_take(3), of ?w]
    by (auto simp: tp_inv_def worker_locked_def take_task_def split: option.splits)
next
  case (st_idle i)
  then show ?thesis using inv waiting_update[of Exited "tp_workers p" i]
    by (auto simp: tp_inv_def worker_locked_def)
next
  case (st_done i f)
  then show ?thesis using inv nready_update[OF st_done(3), of Ready] waiting_update[of Ready "tp_workers p" i]
    by (auto simp: tp_inv_def task_done_def)
next
  case (st_throw i f)
  then show ?thesis using inv nready_update[OF st_throw(3), of Exited] waiting_update[of Exited "tp_workers p" i]
    by (auto simp: tp_inv_def task_done_def)
next
  case (st_spurious i)
  then show ?thesis using inv nready_update[OF st_spurious(3), of Ready] waiting_update[of Ready "tp_workers p" i]
    by (auto simp: tp_inv_def)
qed

lemma tp_run_inv: "tp_run p es p' \<Longrightarrow> tp_inv p \<Longrightarrow> tp_inv p'"
  by (induction rule: tp_run.induct) (auto intro: tp_step_inv)

text \<open>One step keeps the account of tasks.\<close>

lemma tp_step_queue:
  assumes "tp_step p e p'"
  shows "tp_queue p @ added [e] = taken [e] @ tp_queue p'"
  using assms
proof (cases rule: tp_step.cases)
  case (st_add woken t)
  then show ?thesis using pool_fifo.put_waiting[of t p] by (simp add: notify_one_def)
next
  case (st_take i t q)
  then show ?thesis using pool_fifo.grab_waiting[of p "[t]"] by (simp add: worker_locked_def take_task_def)
qed (auto simp: stop_ThreadPool_def worker_locked_def task_done_def)

lemma tp_run_queue: "tp_run p es p' \<Longrightarrow> tp_queue p @ added es = taken es @ tp_queue p'"
proof (induction rule: tp_run.induct)
  case (run_snoc p es p' e p'')
  then show ?case using tp_step_queue[OF run_snoc(2)] by simp (metis append.assoc)
qed simp

text \<open>What the workers do on their own.\<close>

fun worker_event :: "'f tp_event \<Rightarrow> bool" where
  "worker_event (EvAdd t) = False"
| "worker_event EvStop = False"
| "worker_event (EvThrow i f) = False"
| "worker_event _ = True"

text \<open>In a stopped pool nobody waits, and every step of a worker uses up some of the work left.\<close>

lemma stopped_no_waiting: "tp_inv p \<Longrightarrow> \<not> tp_running p \<Longrightarrow> Waiting \<notin> set (tp_workers p)"
  by (auto simp: tp_inv_def)

definition drained_when_left :: "'f ThreadPool \<Rightarrow> bool" where
  "drained_when_left p \<longleftrightarrow> \<not> tp_running p \<and> (Exited \<in> set (tp_workers p) \<longrightarrow> tp_queue p = [])"

lemma worker_step_works:
  assumes "tp_step p e p'" "worker_event e" "tp_inv p" "drained_when_left p"
  shows "work_left p' < work_left p \<and> drained_when_left p' \<and> length (tp_workers p') = length (tp_workers p)"
  using assms(1)
proof (cases rule: tp_step.cases)
  case (st_take i t q)
  let ?w = "case t of None \<Rightarrow> Ready | Some f \<Rightarrow> Running f"
  have "Exited \<notin> set (tp_workers p)" using assms(4) st_take by (auto simp: drained_when_left_def)
  then have "Exited \<notin> set ((tp_workers p)[i := ?w])"
    using set_update_subset_insert[of "tp_workers p" i ?w] by (auto split: option.splits)
  then show ?thesis using st_take assms(4) load_update[OF st_take(3), of ?w]
    by (auto simp: worker_locked_def take_task_def work_left_def drained_when_left_def split: option.splits)
next
  case (st_idle i)
  then show ?thesis using assms(4) load_update[OF st_idle(3), of Exited]
    by (auto simp: worker_locked_def work_left_def drained_when_left_def)
next
  case (st_done i f)
  have "Exited \<in> set (tp_workers p)" if "Exited \<in> set ((tp_workers p)[i := Ready])"
    using set_update_subset_insert[of "tp_workers p" i Ready] that by auto
  then show ?thesis using st_done assms(4) load_update[OF st_done(3), of Ready]
    by (auto simp: task_done_def work_left_def drained_when_left_def)
next
  case (st_spurious i)
  then show ?thesis using stopped_no_waiting[OF assms(3)] assms(4) by (auto simp: drained_when_left_def) (metis nth_mem)+
qed (use assms(2) in auto)

text \<open>Unless every worker has left, one of them can go on.\<close>

lemma worker_progress:
  assumes "tp_inv p" "\<not> tp_running p" "w \<in> set (tp_workers p)" "w \<noteq> Exited"
  shows "\<exists>e p'. tp_step p e p' \<and> worker_event e"
proof -
  obtain i where i: "i < length (tp_workers p)" "tp_workers p ! i = w" using assms(3) by (auto simp: in_set_conv_nth)
  show ?thesis
  proof (cases w)
    case Ready
    then show ?thesis
    proof (cases "tp_queue p")
      case Nil
      then have "tp_step p (EvIdle i) (worker_locked i p)" using i Ready by (intro st_idle) auto
      then show ?thesis using worker_event.simps(5) by blast
    next
      case (Cons t q)
      then have "tp_step p (EvTake i t) (worker_locked i p)" using i Ready by (intro st_take) auto
      then show ?thesis using worker_event.simps(4) by blast
    qed
  next
    case Waiting
    then show ?thesis using stopped_no_waiting[OF assms(1,2)] assms(3) by simp
  next
    case (Running f)
    then have "tp_step p (EvDone i f) (task_done False i p)" using i by (intro st_done) auto
    moreover have "worker_event (EvDone i f)" by simp
    ultimately show ?thesis by blast
  qed (use assms(4) in simp)
qed

lemma worker_run_works:
  assumes "tp_run p es p'" "\<forall>e\<in>set es. worker_event e" "tp_inv p" "drained_when_left p"
  shows "work_left p' + length es \<le> work_left p \<and> tp_inv p' \<and> drained_when_left p' \<and> length (tp_workers p') = length (tp_workers p)"
  using assms
proof (induction rule: tp_run.induct)
  case (run_snoc p es p' e p'')
  then have ih: "work_left p' + length es \<le> work_left p" "tp_inv p'" "drained_when_left p'" "length (tp_workers p') = length (tp_workers p)"
    by auto
  show ?case using worker_step_works[OF run_snoc.hyps(2) _ ih(2,3)] tp_step_inv[OF run_snoc.hyps(2) ih(2)] run_snoc.prems(1) ih by auto
qed simp

lemma worker_run_added: "\<forall>e\<in>set es. worker_event e \<Longrightarrow> added es = []"
  by (induction es rule: added.induct) auto

text \<open>While the pool runs and no task throws, no worker leaves.\<close>

lemma step_running:
  assumes "tp_step p e p'" "e \<noteq> EvStop" "\<And>i f. e \<noteq> EvThrow i f" "tp_running p" "Exited \<notin> set (tp_workers p)"
  shows "tp_running p' \<and> Exited \<notin> set (tp_workers p')"
proof -
  have "Exited \<notin> set (ws[i := w])" if "Exited \<notin> set ws" "w \<noteq> Exited" for ws i and w :: "'a worker"
    using set_update_subset_insert[of ws i w] that by auto
  with assms show ?thesis
    by (cases rule: tp_step.cases)
      (auto simp: notify_one_def add_task_def worker_locked_def take_task_def task_done_def split: option.splits)
qed

lemma run_running:
  "tp_run p es p' \<Longrightarrow> EvStop \<notin> set es \<Longrightarrow> (\<And>i f. EvThrow i f \<notin> set es) \<Longrightarrow> tp_running p \<Longrightarrow> Exited \<notin> set (tp_workers p) \<Longrightarrow>
     tp_running p' \<and> Exited \<notin> set (tp_workers p')"
proof (induction rule: tp_run.induct)
  case (run_snoc p es p' e p'')
  then have "tp_running p'" "Exited \<notin> set (tp_workers p')" by auto
  moreover have "e \<noteq> EvStop" "\<And>i f. e \<noteq> EvThrow i f" using run_snoc.prems(1,2) by auto
  ultimately show ?case using step_running[OF run_snoc.hyps(2)] by blast
qed simp

lemma started_pool:
  assumes "start_ThreadPool (setThreadSize (int n) (new_ThreadPool mem name)) = Inr (cb, p)" "n < 2 ^ 31"
  shows "tp_queue p = []" "tp_running p" "tp_workers p = replicate n Ready" "tp_inv p"
  using assms by (auto simp: start_ThreadPool_def setThreadSize_def new_ThreadPool_def tp_inv_def wrap64_def split: if_splits)

section \<open>Properties\<close>

text \<open>
  C12: the pool loses no task and no wake-up. Whatever the interleaving of clients and workers, the
  tasks taken from the queue so far, followed by those still queued, are exactly the tasks added, in
  the order they were added; and as long as a worker waits there is another worker ready to take
  each queued task, so a task is never left to sleeping workers.
\<close>

theorem threadpool_loses_nothing:
  assumes "start_ThreadPool (setThreadSize (int n) (new_ThreadPool mem name)) = Inr (cb, p0)" "n < 2 ^ 31"
    and "tp_run p0 es p"
  shows "added es = taken es @ tp_queue p \<and>
    (Waiting \<in> set (tp_workers p) \<longrightarrow> length (tp_queue p) \<le> nready (tp_workers p))"
  using tp_run_queue[OF assms(3)] tp_run_inv[OF assms(3)] started_pool[OF assms(1,2)] by (simp add: tp_inv_def)

theorem threadpool_loses_nothing_witness:
  "\<exists>cb p0 p. start_ThreadPool (setThreadSize (int 2) (new_ThreadPool 7 ''pool'')) = Inr (cb, p0) \<and>
     tp_run p0 [EvIdle 0, EvAdd (Some (5 :: nat))] p \<and>
     added [EvIdle 0, EvAdd (Some (5 :: nat))] = taken [EvIdle 0, EvAdd (Some (5 :: nat))] @ tp_queue p"
proof -
  obtain p0 :: "nat ThreadPool" where s: "start_ThreadPool (setThreadSize (int 2) (new_ThreadPool 7 ''pool'')) = Inr (False, p0)"
    by (simp add: start_ThreadPool_def setThreadSize_def new_ThreadPool_def wrap64_def)
  have "replicate 2 Ready = [Ready, Ready :: nat worker]" by (simp add: numeral_2_eq_2)
  then have q: "tp_queue p0 = []" "tp_workers p0 = [Ready, Ready]" using started_pool(1,3)[OF s] by simp_all
  have "tp_step p0 (EvIdle 0) (worker_locked 0 p0)" by (rule st_idle) (simp_all add: q)
  from run_snoc[OF run_nil this] have "tp_run p0 [EvIdle 0] (worker_locked 0 p0)" by simp
  moreover obtain p where "tp_step (worker_locked 0 p0) (EvAdd (Some 5)) p"
    using st_add[of "worker_locked 0 p0" 0] started_pool(2)[OF s] q by (auto simp: worker_locked_def)
  ultimately have r: "tp_run p0 [EvIdle 0, EvAdd (Some 5)] p" using run_snoc[of p0 "[EvIdle 0]"] by force
  show ?thesis using threadpool_loses_nothing[OF s _ r] s r by auto
qed

text \<open>
  C13: stopping the pool drains it. Take any state of a pool with workers in which no task has thrown.
  After \<open>stop\<close>, and while clients add nothing and no task throws, the workers can make only
  boundedly many steps, some worker can go on until all have left, and when they all have left,
  every task that was queued at \<open>stop\<close> has been taken, in order.
\<close>

theorem threadpool_stop_drains:
  assumes "start_ThreadPool (setThreadSize (int n) (new_ThreadPool mem name)) = Inr (cb, p0)" "0 < n" "n < 2 ^ 31"
    and "tp_run p0 es p" "EvStop \<notin> set es" "\<And>i f. EvThrow i f \<notin> set es"
    and "tp_run (stop_ThreadPool p) fs p'" "\<forall>e\<in>set fs. worker_event e"
  shows "length fs \<le> work_left (stop_ThreadPool p) \<and>
    ((\<exists>e p''. tp_step p' e p'' \<and> worker_event e) \<or>
     (set (tp_workers p') = {Exited} \<and> tp_queue p' = [] \<and> taken fs = tp_queue p))"
proof -
  note st = started_pool[OF assms(1,3)]
  have rn: "Exited \<notin> set (tp_workers p)" using run_running[OF assms(4-6)] st by simp
  have inv: "tp_inv (stop_ThreadPool p)" by (simp add: tp_inv_def stop_ThreadPool_def)
  have dr: "drained_when_left (stop_ThreadPool p)"
    using rn by (auto simp: drained_when_left_def stop_ThreadPool_def wake_all_def split: worker.splits)
  note w = worker_run_works[OF assms(7,8) inv dr]
  have "length (tp_workers p) = n" using assms(4) st(3)
  proof (induction rule: tp_run.induct)
    case (run_snoc p es p' e p'')
    from run_snoc.hyps(2) have "length (tp_workers p'') = length (tp_workers p')"
      by (cases rule: tp_step.cases) (auto simp: notify_one_def add_task_def stop_ThreadPool_def wake_all_def
          worker_locked_def take_task_def task_done_def split: list.splits)
    then show ?case using run_snoc by simp
  qed simp
  then have ne: "tp_workers p' \<noteq> []" using w assms(2) by (auto simp: stop_ThreadPool_def wake_all_def)
  have "tp_queue p = taken fs @ tp_queue p'"
    using tp_run_queue[OF assms(7)] worker_run_added[OF assms(8)] by (simp add: stop_ThreadPool_def)
  moreover have "set (tp_workers p') = {Exited} \<and> tp_queue p' = []" if "\<not> (\<exists>e p''. tp_step p' e p'' \<and> worker_event e)"
  proof -
    have "\<forall>x\<in>set (tp_workers p'). x = Exited" using worker_progress[of p'] w that by (auto simp: drained_when_left_def)
    then have "set (tp_workers p') = {Exited}" using ne by (cases "tp_workers p'") auto
    then show ?thesis using w by (simp add: drained_when_left_def)
  qed
  ultimately show ?thesis using w by auto
qed

theorem threadpool_stop_drains_witness:
  "\<exists>cb p0 p'. start_ThreadPool (setThreadSize (int 1) (new_ThreadPool 7 ''pool'')) = Inr (cb, p0) \<and>
     tp_run (stop_ThreadPool p0) [EvIdle 0] p' \<and>
     ((\<exists>e p''. tp_step p' e p'' \<and> worker_event (e :: nat tp_event)) \<or> (set (tp_workers p') = {Exited} \<and> tp_queue p' = []))"
proof -
  obtain p0 :: "nat ThreadPool" where s: "start_ThreadPool (setThreadSize (int 1) (new_ThreadPool 7 ''pool'')) = Inr (False, p0)"
    by (simp add: start_ThreadPool_def setThreadSize_def new_ThreadPool_def wrap64_def)
  have q: "tp_queue p0 = []" "tp_workers p0 = [Ready]" using started_pool(1,3)[OF s] by simp_all
  have "tp_step (stop_ThreadPool p0) (EvIdle 0) (worker_locked 0 (stop_ThreadPool p0))"
    by (rule st_idle) (simp_all add: q stop_ThreadPool_def wake_all_def)
  from run_snoc[OF run_nil this] have r: "tp_run (stop_ThreadPool p0) [EvIdle 0] (worker_locked 0 (stop_ThreadPool p0))" by simp
  have "\<forall>e\<in>set [EvIdle 0]. worker_event (e :: nat tp_event)" by simp
  from threadpool_stop_drains[OF s _ _ run_nil _ _ r this] s r show ?thesis by auto
qed

end
