(* ===== verification/Log_Stream.thy ===== *)
theory Log_Stream
  imports Base_Timestamp
begin

text \<open>
  \<open>src/src/logger/FixedBuffer.h\<close>, \<open>LogStream.h\<close>, \<open>LogStream.cc\<close>, \<open>Logging.h\<close> and \<open>Logging.cc\<close>. A
  fixed buffer is its array and the offset of \<open>cur_\<close>; a new one holds whatever memory it gets. The
  stream functions are the overloads of \<open>operator<<\<close>; text from \<open>snprintf\<close> of a \<open>double\<close> and from
  \<open>strerror_r\<close> is an input, and so is \<open>localtime\<close>.
\<close>

section \<open>FixedBuffer\<close>

definition kSmallBuffer :: nat where "kSmallBuffer = 4000"
definition kLargeBuffer :: nat where "kLargeBuffer = 4000 * 1000"

record FixedBuffer =
  fb_data :: string
  fb_cur :: nat

definition new_FixedBuffer :: "string \<Rightarrow> FixedBuffer" where
  "new_FixedBuffer mem = \<lparr>fb_data = mem, fb_cur = 0\<rparr>"

definition avail :: "FixedBuffer \<Rightarrow> int" where
  "avail b = int (length (fb_data b)) - int (fb_cur b)"

text \<open>\<open>len\<close> bytes from \<open>buf\<close>; the comparison is between unsigned numbers.\<close>

definition fb_append :: "string \<Rightarrow> FixedBuffer \<Rightarrow> FixedBuffer" where
  "fb_append buf b =
     (if wrap64 (avail b) > length buf
      then b\<lparr>fb_data := overwrite (fb_cur b) buf (fb_data b), fb_cur := fb_cur b + length buf\<rparr> else b)"

text \<open>\<open>length()\<close> measures up to the end of the array, not up to \<open>cur_\<close>.\<close>

definition fb_length :: "FixedBuffer \<Rightarrow> nat" where
  "fb_length b = length (fb_data b)"

definition fb_add :: "nat \<Rightarrow> FixedBuffer \<Rightarrow> FixedBuffer" where
  "fb_add len b = b\<lparr>fb_cur := fb_cur b + len\<rparr>"

definition fb_reset :: "FixedBuffer \<Rightarrow> FixedBuffer" where
  "fb_reset b = b\<lparr>fb_cur := 0\<rparr>"

definition fb_bzero :: "FixedBuffer \<Rightarrow> FixedBuffer" where
  "fb_bzero b = b\<lparr>fb_data := replicate (length (fb_data b)) (CHR 0x00)\<rparr>"

definition fb_toString :: "FixedBuffer \<Rightarrow> string" where
  "fb_toString b = take (fb_length b) (fb_data b)"

section \<open>LogStream\<close>

definition digits :: string where "digits = ''9876543210123456789''"

definition kMaxNumericSize :: int where "kMaxNumericSize = 48"

text \<open>The digits in the order the loop stores them, least significant first.\<close>

function format_loop :: "int \<Rightarrow> string" where
  "format_loop num =
     (let c = digits ! nat (9 + tmod num 10); num' = tdiv num 10 in
      c # (if num' = 0 then [] else format_loop num'))"
  by auto
termination
proof (relation "measure (\<lambda>n. nat \<bar>n\<bar>)")
  fix num :: int and x xa
  assume "xa = tdiv num 10" "xa \<noteq> 0"
  then have "tdiv num 10 \<noteq> 0" by simp
  moreover have "\<bar>tdiv num 10\<bar> \<le> \<bar>num\<bar> div 10" by (simp add: tdiv_def abs_mult abs_sgn_eq)
  ultimately have "\<bar>tdiv num 10\<bar> < \<bar>num\<bar>" by (cases "num = 0") (auto simp: tdiv_def)
  then show "(xa, num) \<in> measure (\<lambda>n. nat \<bar>n\<bar>)" using \<open>xa = tdiv num 10\<close> by simp
qed simp

declare format_loop.simps [simp del]

text \<open>\<open>formatInteger\<close>: the text is stored, terminated, reversed in place and counted.\<close>

definition formatInteger :: "int \<Rightarrow> FixedBuffer \<Rightarrow> FixedBuffer" where
  "formatInteger num b =
     (if avail b \<ge> kMaxNumericSize
      then let t = format_loop num @ (if num < 0 then ''-'' else []) in
           fb_add (length t) (b\<lparr>fb_data := overwrite (fb_cur b) (rev t @ [CHR 0x00]) (fb_data b)\<rparr>)
      else b)"

text \<open>
  The overloads for the integer types all end in \<open>formatInteger\<close>, on the value they are given; the
  short ones go through \<open>int\<close> and \<open>unsigned int\<close>.
\<close>

definition put_int :: "int \<Rightarrow> FixedBuffer \<Rightarrow> FixedBuffer" where "put_int v b = formatInteger v b"
definition put_uint :: "int \<Rightarrow> FixedBuffer \<Rightarrow> FixedBuffer" where "put_uint v b = formatInteger v b"
definition put_short :: "int \<Rightarrow> FixedBuffer \<Rightarrow> FixedBuffer" where "put_short v b = put_int v b"
definition put_ushort :: "int \<Rightarrow> FixedBuffer \<Rightarrow> FixedBuffer" where "put_ushort v b = put_uint v b"
definition put_long :: "int \<Rightarrow> FixedBuffer \<Rightarrow> FixedBuffer" where "put_long v b = formatInteger v b"
definition put_ulong :: "int \<Rightarrow> FixedBuffer \<Rightarrow> FixedBuffer" where "put_ulong v b = formatInteger v b"
definition put_llong :: "int \<Rightarrow> FixedBuffer \<Rightarrow> FixedBuffer" where "put_llong v b = formatInteger v b"
definition put_ullong :: "int \<Rightarrow> FixedBuffer \<Rightarrow> FixedBuffer" where "put_ullong v b = formatInteger v b"

text \<open>\<open>g\<close> is what \<open>\<percent>.12g\<close> prints; without room the function ends without a return value.\<close>

definition put_double :: "string \<Rightarrow> FixedBuffer \<Rightarrow> FixedBuffer result" where
  "put_double g b =
     (if avail b \<ge> kMaxNumericSize
      then Inr (fb_add (length g) (b\<lparr>fb_data := overwrite (fb_cur b) (take 47 g @ [CHR 0x00]) (fb_data b)\<rparr>))
      else Inl Undefined)"

definition put_float :: "string \<Rightarrow> FixedBuffer \<Rightarrow> FixedBuffer result" where "put_float g b = put_double g b"

definition put_char :: "char \<Rightarrow> FixedBuffer \<Rightarrow> FixedBuffer" where
  "put_char c b = fb_append [c] b"

definition put_cstr :: "string option \<Rightarrow> FixedBuffer \<Rightarrow> FixedBuffer" where
  "put_cstr str b = (case str of Some s \<Rightarrow> fb_append (c_str s) b | None \<Rightarrow> fb_append ''(null)'' b)"

text \<open>A \<open>void\<close> pointer is printed as the C string it is taken for.\<close>

definition put_void :: "string option \<Rightarrow> FixedBuffer \<Rightarrow> FixedBuffer" where "put_void data b = put_cstr data b"
definition put_ucstr :: "string option \<Rightarrow> FixedBuffer \<Rightarrow> FixedBuffer" where "put_ucstr str b = put_cstr str b"

definition put_string :: "string \<Rightarrow> FixedBuffer \<Rightarrow> FixedBuffer" where
  "put_string str b = fb_append str b"

definition put_buffer :: "FixedBuffer \<Rightarrow> FixedBuffer \<Rightarrow> FixedBuffer" where
  "put_buffer buf b = put_string (fb_toString buf) b"

text \<open>A pointer and a length: the memory at the pointer must have that many bytes.\<close>

definition put_general :: "string \<Rightarrow> nat \<Rightarrow> FixedBuffer \<Rightarrow> FixedBuffer result" where
  "put_general mem len b =
     (if wrap64 (avail b) > len
      then if len \<le> length mem then Inr (fb_append (take len mem) b) else Inl OutOfBounds
      else Inr b)"

section \<open>Logger\<close>

datatype LogLevel = TRACE | DEBUG | INFO | WARN | ERROR | FATAL

fun getLevelName :: "LogLevel \<Rightarrow> string" where
  "getLevelName TRACE = ''TRACE ''"
| "getLevelName DEBUG = ''DEBUG ''"
| "getLevelName INFO = ''INFO  ''"
| "getLevelName WARN = ''WARN  ''"
| "getLevelName ERROR = ''ERROR ''"
| "getLevelName FATAL = ''FATAL ''"

definition initLogLevel :: LogLevel where "initLogLevel = DEBUG"

text \<open>The part of the path behind its last slash.\<close>

definition new_SourceFile :: "string \<Rightarrow> string" where
  "new_SourceFile filename =
     (case find_last_of (c_str filename) (CHR ''/'') of None \<Rightarrow> c_str filename
      | Some i \<Rightarrow> drop (i + 1) (c_str filename))"

record Logger =
  lg_stream :: FixedBuffer
  lg_level :: LogLevel
  lg_line :: int
  lg_basename :: string

text \<open>\<open>formatTime\<close>: 17 of the 19 characters of the time, then the microseconds.\<close>

definition formatTime :: "(int \<Rightarrow> tm) \<Rightarrow> Timestamp \<Rightarrow> FixedBuffer \<Rightarrow> FixedBuffer result" where
  "formatTime localtime now b =
     (let seconds = tdiv now kMicroSecondsPerSecond; microseconds = tmod now kMicroSecondsPerSecond;
          t_time = take 63 (format_tm (localtime seconds)) @ [CHR 0x00];
          buf = take 31 (fmt_0d 6 microseconds @ '' '') @ [CHR 0x00] in
      bind_r (put_general t_time 17 b) (\<lambda>b1. put_general buf 7 b1))"

definition new_Impl :: "(int \<Rightarrow> tm) \<Rightarrow> Timestamp \<Rightarrow> (int \<Rightarrow> string) \<Rightarrow> string \<Rightarrow> LogLevel \<Rightarrow> int \<Rightarrow> string \<Rightarrow> int \<Rightarrow> Logger result" where
  "new_Impl localtime now strerror mem level savedErrno file line =
     bind_r (formatTime localtime now (new_FixedBuffer mem)) (\<lambda>b1.
     bind_r (put_general (getLevelName level) 6 b1) (\<lambda>b2.
       let b3 = (if savedErrno \<noteq> 0
                 then put_cstr (Some '') '') (put_int savedErrno (put_cstr (Some '' (errno='') (put_cstr (Some (strerror savedErrno)) b2)))
                 else b2) in
       Inr \<lparr>lg_stream = b3, lg_level = level, lg_line = line, lg_basename = new_SourceFile file\<rparr>))"

definition new_Logger :: "(int \<Rightarrow> tm) \<Rightarrow> Timestamp \<Rightarrow> (int \<Rightarrow> string) \<Rightarrow> string \<Rightarrow> LogLevel \<Rightarrow> string option \<Rightarrow> string \<Rightarrow> int \<Rightarrow> Logger result" where
  "new_Logger localtime now strerror mem level func file line =
     bind_r (new_Impl localtime now strerror mem level 0 file line) (\<lambda>l.
       Inr (case func of None \<Rightarrow> l
            | Some f \<Rightarrow> l\<lparr>lg_stream := put_char (CHR '' '') (put_cstr (Some f) (lg_stream l))\<rparr>))"

definition finish :: "Logger \<Rightarrow> Logger result" where
  "finish l =
     bind_r (put_general (lg_basename l @ [CHR 0x00]) (length (lg_basename l)) (put_cstr (Some '' - '') (lg_stream l))) (\<lambda>b.
       Inr (l\<lparr>lg_stream := put_char LF (put_int (lg_line l) (put_char (CHR '':'') b))\<rparr>))"

text \<open>The destructor gives the text handed to \<open>g_output\<close> and whether the program is aborted after a flush.\<close>

definition destroy_Logger :: "Logger \<Rightarrow> (string \<times> bool) result" where
  "destroy_Logger l =
     bind_r (finish l) (\<lambda>l'.
       Inr (take (fb_length (lg_stream l')) (fb_data (lg_stream l')), lg_level l' = FATAL))"

text \<open>The macros: which levels are created at all.\<close>

definition log_enabled :: "LogLevel \<Rightarrow> LogLevel \<Rightarrow> bool" where
  "log_enabled g_logLevel level = (case level of
      DEBUG \<Rightarrow> g_logLevel \<in> {TRACE, DEBUG}
    | INFO \<Rightarrow> g_logLevel \<in> {TRACE, DEBUG, INFO}
    | _ \<Rightarrow> True)"

text \<open>The global settings; outputs and flushes are named by numbers, 0 the default one.\<close>

record LogGlobals =
  g_logLevel :: LogLevel
  g_output :: nat
  g_flush :: nat

definition init_LogGlobals :: LogGlobals where
  "init_LogGlobals = \<lparr>g_logLevel = initLogLevel, g_output = 0, g_flush = 0\<rparr>"

definition setLogLevel :: "LogLevel \<Rightarrow> LogGlobals \<Rightarrow> LogGlobals" where "setLogLevel level g = g\<lparr>g_logLevel := level\<rparr>"
definition setOutput :: "nat \<Rightarrow> LogGlobals \<Rightarrow> LogGlobals" where "setOutput out g = g\<lparr>g_output := out\<rparr>"
definition setFlush :: "nat \<Rightarrow> LogGlobals \<Rightarrow> LogGlobals" where "setFlush flush g = g\<lparr>g_flush := flush\<rparr>"

section \<open>Lemmas\<close>

text \<open>The text in a buffer, and a buffer that holds \<open>t\<close> over what was in memory before.\<close>

definition fb_text :: "FixedBuffer \<Rightarrow> string" where
  "fb_text b = take (fb_cur b) (fb_data b)"

definition holds_over :: "string \<Rightarrow> string \<Rightarrow> FixedBuffer \<Rightarrow> bool" where
  "holds_over t mem b \<longleftrightarrow> b = \<lparr>fb_data = t @ drop (length t) mem, fb_cur = length t\<rparr>"

lemma wrap64_avail: "fb_cur b \<le> length (fb_data b) \<Longrightarrow> length (fb_data b) < 2 ^ 64 \<Longrightarrow> wrap64 (avail b) = length (fb_data b) - fb_cur b"
  by (simp add: avail_def wrap64_def)

lemma take_overwrite: "i \<le> length xs \<Longrightarrow> take (i + length ys) (overwrite i ys xs) = take i xs @ ys"
  by (simp add: overwrite_def)

lemma fb_append_text:
  assumes "fb_cur b \<le> length (fb_data b)" "length (fb_data b) < 2 ^ 64"
  shows "fb_text (fb_append s b) = (if fb_cur b + length s < length (fb_data b) then fb_text b @ s else fb_text b)"
    and "length (fb_data (fb_append s b)) = length (fb_data b)"
    and "fb_cur (fb_append s b) \<le> length (fb_data b)"
proof -
  have w: "wrap64 (avail b) = length (fb_data b) - fb_cur b" by (rule wrap64_avail[OF assms])
  then have fits: "wrap64 (avail b) > length s \<longleftrightarrow> fb_cur b + length s < length (fb_data b)" using assms(1) by auto
  show "fb_text (fb_append s b) = (if fb_cur b + length s < length (fb_data b) then fb_text b @ s else fb_text b)"
    using assms(1) by (simp add: fb_append_def fits fb_text_def take_overwrite)
  show "length (fb_data (fb_append s b)) = length (fb_data b)" "fb_cur (fb_append s b) \<le> length (fb_data b)"
    using assms(1) by (simp_all add: fb_append_def fits)
qed

lemma fb_text_new: "fb_text (new_FixedBuffer mem) = []"
  by (simp add: fb_text_def new_FixedBuffer_def)

lemma holds_over_new: "holds_over [] mem (new_FixedBuffer mem)"
  by (simp add: holds_over_def new_FixedBuffer_def)

lemma overwrite_over: "length t \<le> length mem \<Longrightarrow> overwrite (length t) s (t @ drop (length t) mem) = (t @ s) @ drop (length (t @ s)) mem"
  by (simp add: overwrite_def add.commute)

lemma fb_append_over:
  assumes "holds_over t mem b" "length t + length s < length mem" "length mem < 2 ^ 64"
  shows "holds_over (t @ s) mem (fb_append s b)"
proof -
  have "wrap64 (avail b) > length s"
    using assms by (simp add: holds_over_def avail_def wrap64_def)
  then show ?thesis using assms overwrite_over[of t mem s] by (simp add: holds_over_def fb_append_def)
qed

lemma put_general_over:
  assumes "holds_over t mem b" "length t + n < length mem" "length mem < 2 ^ 64" "n \<le> length m"
  shows "\<exists>b'. put_general m n b = Inr b' \<and> holds_over (t @ take n m) mem b'"
proof -
  have "wrap64 (avail b) > n" using assms(1-3) by (simp add: holds_over_def avail_def wrap64_def)
  then show ?thesis using fb_append_over[of t mem b "take n m"] assms by (simp add: put_general_def)
qed

text \<open>\<open>formatInteger\<close> prints in decimal.\<close>

lemma digits_nth: "- 9 \<le> r \<Longrightarrow> r \<le> 9 \<Longrightarrow> digits ! nat (9 + r) = digit_char (nat \<bar>r\<bar>)"
proof -
  assume "- 9 \<le> r" "r \<le> 9"
  then have "r \<in> {-9, -8, -7, -6, -5, -4, -3, -2, -1, 0, 1, 2, 3, 4, 5, 6, 7, 8, 9}" by (simp, presburger)
  then show ?thesis by (elim insertE emptyE) (simp_all add: digits_def digit_char_def char_of_def bit_Suc_0_iff)
qed

lemma tmod_10: "tmod num 10 = sgn num * (\<bar>num\<bar> mod 10)"
proof -
  have "tmod num 10 = sgn num * (\<bar>num\<bar> - 10 * (\<bar>num\<bar> div 10))"
    by (simp add: tmod_def tdiv_def right_diff_distrib mult.left_commute sgn_mult_abs)
  then show ?thesis by (simp add: minus_mult_div_eq_mod)
qed

lemma format_loop_eq: "format_loop num = rev (show_nat (nat \<bar>num\<bar>))"
proof (induction num rule: format_loop.induct)
  case (1 num)
  let ?a = "nat \<bar>num\<bar>"
  have m: "- 9 \<le> tmod num 10" "tmod num 10 \<le> 9" "nat \<bar>tmod num 10\<bar> = ?a mod 10"
    using tmod_10[of num] by (auto simp: sgn_if abs_mult nat_mod_distrib split: if_splits)
  have d: "digits ! nat (9 + tmod num 10) = digit_char (?a mod 10)" using digits_nth[OF m(1,2)] m(3) by simp
  have q: "nat \<bar>tdiv num 10\<bar> = ?a div 10" by (auto simp: tdiv_def abs_mult abs_sgn_eq nat_div_distrib)
  show ?case
  proof (cases "tdiv num 10 = 0")
    case True
    then have "?a div 10 = 0" using q by simp
    then have "?a < 10" by simp
    then show ?thesis using True d by (subst format_loop.simps, subst show_nat.simps) (simp add: Let_def)
  next
    case False
    then have "\<not> ?a < 10" using q by auto
    then show ?thesis using False d 1[OF refl refl False] q
      by (subst format_loop.simps, subst show_nat.simps) (simp add: Let_def)
  qed
qed

lemma format_text: "rev (format_loop num @ (if num < 0 then ''-'' else [])) = show_int num"
  by (simp add: format_loop_eq show_int_def)

lemma length_show_int: "\<bar>num\<bar> < 2 ^ 64 \<Longrightarrow> length (show_int num) \<le> 21"
proof -
  assume "\<bar>num\<bar> < 2 ^ 64"
  then have "nat \<bar>num\<bar> < 10 ^ 20" by (simp add: nat_less_iff)
  from length_show_nat[OF this] show ?thesis by (auto simp: show_int_def split: if_splits)
qed

lemma formatInteger_eq:
  assumes "avail b \<ge> 48"
  shows "formatInteger num b = \<lparr>fb_data = overwrite (fb_cur b) (show_int num @ [CHR 0x00]) (fb_data b), fb_cur = fb_cur b + length (show_int num)\<rparr>"
proof -
  let ?t = "format_loop num @ (if num < 0 then ''-'' else [])"
  have "length ?t = length (show_int num)" using format_text[of num] by (metis length_rev)
  then show ?thesis using assms format_text[of num]
    by (simp add: formatInteger_def kMaxNumericSize_def Let_def fb_add_def)
qed


lemmas show_eval = show_int_def show_nat.simps digit_char_def char_of_def bit_Suc_0_iff format_tm_def fmt_d_def fmt_0d_def pad_left_def
  kMicroSecondsPerSecond_def

text \<open>The last two pieces of a record: the line number's terminator is overwritten by the newline.\<close>

lemma put_line_over:
  assumes b: "holds_over t mem b" and room: "length t + 48 \<le> length mem" "length mem < 2 ^ 64" and n: "\<bar>num\<bar> < 2 ^ 64"
  shows "holds_over (t @ show_int num @ [c]) mem (put_char c (put_int num b))"
proof -
  have av: "avail b \<ge> 48" using b room by (simp add: holds_over_def avail_def)
  let ?b1 = "formatInteger num b"
  have l: "length (show_int num) \<le> 21" by (rule length_show_int[OF n])
  have b1: "fb_data ?b1 = (t @ show_int num @ [CHR 0x00]) @ drop (length (t @ show_int num @ [CHR 0x00])) mem"
      "fb_cur ?b1 = length (t @ show_int num)"
    unfolding formatInteger_eq[OF av] using b overwrite_over[of t mem "show_int num @ [CHR 0x00]"] room by (simp_all add: holds_over_def)
  have "wrap64 (avail ?b1) > 1" using b1 room l by (simp add: avail_def wrap64_def)
  moreover have "overwrite (length (t @ show_int num)) [c] (fb_data ?b1) = (t @ show_int num @ [c]) @ drop (length (t @ show_int num @ [c])) mem"
    by (simp add: b1 overwrite_def)
  ultimately show ?thesis using b1 by (simp add: put_char_def fb_append_def put_int_def holds_over_def)
qed

text \<open>A whole logging statement, from the constructor of \<open>Logger\<close> to its destructor.\<close>

lemma logger_record:
  assumes "length mem = kSmallBuffer" "tm_ok (localtime (tdiv now kMicroSecondsPerSecond))" "0 \<le> now"
    and "\<bar>line\<bar> < 2 ^ 31" "\<forall>f. func = Some f \<longrightarrow> c_str f = f"
    and "rec = take 17 (format_tm (localtime (tdiv now kMicroSecondsPerSecond))) @ fmt_0d 6 (tmod now kMicroSecondsPerSecond) @
        '' '' @ getLevelName level @ (case func of None \<Rightarrow> [] | Some f \<Rightarrow> f @ '' '') @ m @ '' - '' @ new_SourceFile file @ '':''"
    and "length rec + 48 \<le> kSmallBuffer"
  shows "\<exists>l. new_Logger localtime now strerror mem level func file line = Inr l \<and>
    destroy_Logger (l\<lparr>lg_stream := put_string m (lg_stream l)\<rparr>) =
      Inr (rec @ show_int line @ [LF] @ drop (length rec + length (show_int line) + 1) mem, level = FATAL) \<and>
    length (rec @ show_int line @ [LF] @ drop (length rec + length (show_int line) + 1) mem) = 4000"
proof -
  let ?tm = "format_tm (localtime (tdiv now kMicroSecondsPerSecond))" and ?us = "fmt_0d 6 (tmod now kMicroSecondsPerSecond)"
  let ?f = "case func of None \<Rightarrow> [] | Some f \<Rightarrow> f @ '' ''"
  have L: "length ?tm = 19" by (rule length_format_tm[OF assms(2)])
  have u: "length ?us = 6" by (rule length_fmt_0d) (use assms(3) in \<open>simp_all add: kMicroSecondsPerSecond_def\<close>)
  have lv: "length (getLevelName level) = 6" by (cases level) simp_all
  have M: "length mem = 4000" "length mem < 2 ^ 64" using assms(1) by (simp_all add: kSmallBuffer_def)
  have R: "length rec + 48 \<le> 4000" using assms(7) by (simp add: kSmallBuffer_def)
  have T: "take (17 - length ?tm) [CHR 0x00] = []" "take 17 (take 63 ?tm @ [CHR 0x00]) = take 17 ?tm" using L by simp_all
  have U: "take 7 (take 31 (?us @ '' '') @ [CHR 0x00]) = ?us @ '' ''" using u by simp
  obtain b1 where b1: "put_general (take 63 ?tm @ [CHR 0x00]) 17 (new_FixedBuffer mem) = Inr b1" "holds_over (take 17 ?tm) mem b1"
    using put_general_over[OF holds_over_new _ M(2), of 17 "take 63 ?tm @ [CHR 0x00]"] L M(1) T(2) by auto
  obtain b2 where b2: "put_general (take 31 (?us @ '' '') @ [CHR 0x00]) 7 b1 = Inr b2" "holds_over (take 17 ?tm @ ?us @ '' '') mem b2"
    using put_general_over[OF b1(2) _ M(2), of 7 "take 31 (?us @ '' '') @ [CHR 0x00]"] L u M(1) U by auto
  obtain b3 where b3: "put_general (getLevelName level) 6 b2 = Inr b3" "holds_over (take 17 ?tm @ ?us @ '' '' @ getLevelName level) mem b3"
    using put_general_over[OF b2(2) _ M(2), of 6 "getLevelName level"] L u lv M(1) by auto
  define l where "l = \<lparr>lg_stream = (case func of None \<Rightarrow> b3 | Some f \<Rightarrow> put_char (CHR '' '') (put_cstr (Some f) b3)),
      lg_level = level, lg_line = line, lg_basename = new_SourceFile file\<rparr>"
  have new: "new_Logger localtime now strerror mem level func file line = Inr l"
    using b1(1) b2(1) b3(1) by (simp add: new_Logger_def new_Impl_def formatTime_def Let_def l_def split: option.splits)
  have l: "holds_over (take 17 ?tm @ ?us @ '' '' @ getLevelName level @ ?f) mem (lg_stream l)"
  proof (cases func)
    case (Some f)
    have "holds_over ((take 17 ?tm @ ?us @ '' '' @ getLevelName level) @ f) mem (fb_append f b3)"
      by (rule fb_append_over[OF b3(2) _ M(2)]) (use R Some M(1) in \<open>simp add: assms(6)\<close>)
    from fb_append_over[OF this _ M(2), of "'' ''"] show ?thesis
      using R Some M(1) assms(5) by (simp add: assms(6) l_def put_char_def put_cstr_def)
  qed (use b3(2) in \<open>simp add: l_def\<close>)
  have s4: "holds_over ((take 17 ?tm @ ?us @ '' '' @ getLevelName level @ ?f) @ m) mem (put_string m (lg_stream l))"
    unfolding put_string_def by (rule fb_append_over[OF l _ M(2)]) (use R M(1) in \<open>simp add: assms(6)\<close>)
  have s5: "holds_over (((take 17 ?tm @ ?us @ '' '' @ getLevelName level @ ?f) @ m) @ '' - '') mem (put_cstr (Some '' - '') (put_string m (lg_stream l)))"
    unfolding put_cstr_def option.case using fb_append_over[OF s4 _ M(2), of "'' - ''"] R M(1) by (simp add: assms(6) c_str_def)
  obtain b6 where b6: "put_general (new_SourceFile file @ [CHR 0x00]) (length (new_SourceFile file)) (put_cstr (Some '' - '') (put_string m (lg_stream l))) = Inr b6"
      "holds_over ((((take 17 ?tm @ ?us @ '' '' @ getLevelName level @ ?f) @ m) @ '' - '') @ new_SourceFile file) mem b6"
    using put_general_over[OF s5 _ M(2), of "length (new_SourceFile file)" "new_SourceFile file @ [CHR 0x00]"] R M(1) by (auto simp: assms(6))
  have b7: "holds_over rec mem (put_char (CHR '':'') b6)"
    unfolding put_char_def using fb_append_over[OF b6(2) _ M(2), of "'':''"] R M(1) by (simp add: assms(6))
  have n64: "\<bar>line\<bar> < 2 ^ 64" using assms(4) by simp
  have b8: "holds_over (rec @ show_int line @ [LF]) mem (put_char LF (put_int line (put_char (CHR '':'') b6)))"
    by (rule put_line_over[OF b7 _ M(2) n64]) (use R M(1) in simp)
  have "destroy_Logger (l\<lparr>lg_stream := put_string m (lg_stream l)\<rparr>) =
      Inr (rec @ show_int line @ [LF] @ drop (length rec + length (show_int line) + 1) mem, level = FATAL)"
    using b6(1) b8 by (simp add: destroy_Logger_def finish_def l_def holds_over_def fb_length_def)
  moreover have "length (show_int line) \<le> 21" by (rule length_show_int[OF n64])
  ultimately show ?thesis using new R M(1) by simp
qed

section \<open>Properties\<close>

text \<open>
  C20: integers are printed as numbers. For every value of the integer types of the source (less than
  2 to the 64 in size) and any buffer with the 48 bytes of room the code asks for, \<open>formatInteger\<close> with
  its table of mirrored digits, remainders that may be negative and final reversal appends exactly
  the decimal notation, terminates it, and touches no other byte of the array; with less room it
  does nothing.
\<close>

theorem formatInteger_is_decimal:
  assumes "fb_cur b \<le> length (fb_data b)" "\<bar>num\<bar> < 2 ^ 64"
  shows "(avail b \<ge> 48 \<longrightarrow>
      fb_data (formatInteger num b) = fb_text b @ show_int num @ [CHR 0x00] @ drop (fb_cur b + length (show_int num) + 1) (fb_data b) \<and>
      fb_text (formatInteger num b) = fb_text b @ show_int num \<and>
      length (fb_data (formatInteger num b)) = length (fb_data b) \<and> fb_cur (formatInteger num b) < length (fb_data b)) \<and>
    (avail b < 48 \<longrightarrow> formatInteger num b = b)"
proof -
  have "fb_cur b + length (show_int num) + 1 \<le> length (fb_data b)" if "avail b \<ge> 48"
    using that length_show_int[OF assms(2)] assms(1) by (simp add: avail_def)
  then have "fb_data (formatInteger num b) = fb_text b @ show_int num @ [CHR 0x00] @ drop (fb_cur b + length (show_int num) + 1) (fb_data b) \<and>
      fb_text (formatInteger num b) = fb_text b @ show_int num \<and>
      length (fb_data (formatInteger num b)) = length (fb_data b) \<and> fb_cur (formatInteger num b) < length (fb_data b)" if "avail b \<ge> 48"
    using assms(1) that by (simp add: formatInteger_eq[OF that] fb_text_def overwrite_def)
  moreover have "formatInteger num b = b" if "avail b < 48" using that by (simp add: formatInteger_def kMaxNumericSize_def)
  ultimately show ?thesis by blast
qed

theorem formatInteger_is_decimal_witness:
  "fb_text (formatInteger (-2147483648) (new_FixedBuffer (replicate 4000 (CHR ''x'')))) = ''-2147483648''"
proof -
  have "fb_text (formatInteger (-2147483648) (new_FixedBuffer (replicate 4000 (CHR ''x'')))) = show_int (-2147483648)"
    using formatInteger_is_decimal[of "new_FixedBuffer (replicate 4000 (CHR ''x''))" "-2147483648"]
    by (simp add: new_FixedBuffer_def avail_def fb_text_new[unfolded new_FixedBuffer_def])
  also have "\<dots> = ''-2147483648''" by (simp add: show_eval)
  finally show ?thesis .
qed

text \<open>
  A log record. When the message fits, the output of one logging statement is the time to the
  minute, the microseconds, the level, the function (for \<open>LOG_DEBUG\<close>), the message, the file name
  and the line, in this order; the output always has the full 4000 bytes of the buffer, so behind the
  newline comes whatever the memory held before. The program is aborted exactly for \<open>FATAL\<close>.
\<close>

theorem log_record_output:
  assumes "length mem = kSmallBuffer" "tm_ok (localtime (tdiv now kMicroSecondsPerSecond))" "0 \<le> now"
    and "\<bar>line\<bar> < 2 ^ 31" "\<forall>f. func = Some f \<longrightarrow> c_str f = f"
    and "rec = take 17 (format_tm (localtime (tdiv now kMicroSecondsPerSecond))) @ fmt_0d 6 (tmod now kMicroSecondsPerSecond) @
        '' '' @ getLevelName level @ (case func of None \<Rightarrow> [] | Some f \<Rightarrow> f @ '' '') @ m @ '' - '' @ new_SourceFile file @ '':''"
    and "length rec + 48 \<le> kSmallBuffer"
  shows "\<exists>l. new_Logger localtime now strerror mem level func file line = Inr l \<and>
    destroy_Logger (l\<lparr>lg_stream := put_string m (lg_stream l)\<rparr>) =
      Inr (rec @ show_int line @ [LF] @ drop (length rec + length (show_int line) + 1) mem, level = FATAL) \<and>
    length (rec @ show_int line @ [LF] @ drop (length rec + length (show_int line) + 1) mem) = 4000"
  by (rule logger_record[where localtime = localtime and now = now, OF assms])

theorem log_record_output_witness:
  "\<exists>l out. new_Logger (\<lambda>_. \<lparr>tm_year = 122, tm_mon = 7, tm_mday = 26, tm_hour = 16, tm_min = 29, tm_sec = 10\<rparr>) 1661531350773804
       (\<lambda>_. []) (replicate 4000 (CHR ''x'')) INFO None ''src/net/main.cc'' 42 = Inr l \<and>
     destroy_Logger (l\<lparr>lg_stream := put_string ''up'' (lg_stream l)\<rparr>) = Inr (out, False) \<and> length out = 4000 \<and>
     take 53 out = ''2022/08/26 16:29:773804 INFO  up - main.cc:42'' @ [LF] @ replicate 7 (CHR ''x'')"
proof -
  let ?lt = "\<lambda>_ :: int. \<lparr>tm_year = 122, tm_mon = 7, tm_mday = 26, tm_hour = 16, tm_min = 29, tm_sec = 10\<rparr>"
  have tm: "take 17 (format_tm (?lt (tdiv 1661531350773804 kMicroSecondsPerSecond))) = ''2022/08/26 16:29:''"
    and us: "fmt_0d 6 (tmod 1661531350773804 kMicroSecondsPerSecond) = ''773804''"
    and sf: "new_SourceFile ''src/net/main.cc'' = ''main.cc''" and n: "show_int 42 = ''42''"
    by (simp add: show_eval, simp add: show_eval, code_simp, simp add: show_eval)
  have ok: "tm_ok (?lt (tdiv 1661531350773804 kMicroSecondsPerSecond))" by (simp add: tm_ok_def)
  define r where "r = take 17 (format_tm (?lt (tdiv 1661531350773804 kMicroSecondsPerSecond))) @
    fmt_0d 6 (tmod 1661531350773804 kMicroSecondsPerSecond) @ '' '' @ getLevelName INFO @
    (case None of None \<Rightarrow> [] | Some f \<Rightarrow> f @ '' '') @ ''up'' @ '' - '' @ new_SourceFile ''src/net/main.cc'' @ '':''"
  have r: "r = ''2022/08/26 16:29:773804 INFO  up - main.cc:''" by (simp add: r_def tm us sf)
  have "length (replicate 4000 (CHR ''x'')) = kSmallBuffer" "(0 :: int) \<le> 1661531350773804" "\<bar>42 :: int\<bar> < 2 ^ 31"
    "\<forall>f. None = Some f \<longrightarrow> c_str f = f" "length r + 48 \<le> kSmallBuffer" by (simp_all add: kSmallBuffer_def r)
  from log_record_output[OF this(1) ok this(2-4) r_def this(5), of "\<lambda>_. []"]
  show ?thesis by (auto simp: r n)
qed

end
