(* ===== verification/Log_Sink.thy ===== *)
theory Log_Sink
  imports Prelude
begin

text \<open>
  The contract of everything log text is given to: the file, the rolling log file and the
  asynchronous log all take pieces of text and hold, at any time, what they were given, in order.
  Each call has inputs of its own (the clock, results of \<open>fwrite\<close>, memory), named by a value of type
  \<open>'i\<close>, with which it succeeds when they are admissible.
\<close>

fun run_puts :: "('i \<Rightarrow> string \<Rightarrow> 's \<Rightarrow> 's result) \<Rightarrow> ('i \<times> string) list \<Rightarrow> 's \<Rightarrow> 's result" where
  "run_puts put [] s = Inr s"
| "run_puts put ((i, d) # ds) s = bind_r (put i d s) (run_puts put ds)"

locale log_sink =
  fixes invar :: "'s \<Rightarrow> bool"
    and held :: "'s \<Rightarrow> string"
    and admissible :: "'i \<Rightarrow> string \<Rightarrow> bool"
    and put :: "'i \<Rightarrow> string \<Rightarrow> 's \<Rightarrow> 's result"
  assumes put_ok: "invar s \<Longrightarrow> admissible i d \<Longrightarrow> \<exists>s'. put i d s = Inr s'"
    and put_held: "invar s \<Longrightarrow> put i d s = Inr s' \<Longrightarrow> admissible i d \<Longrightarrow> invar s' \<and> held s' = held s @ d"
begin

lemma puts_held:
  assumes "run_puts put ds s = Inr s'" "invar s" "\<forall>(i, d) \<in> set ds. admissible i d"
  shows "invar s' \<and> held s' = held s @ concat (map snd ds)"
  using assms
proof (induction ds arbitrary: s)
  case (Cons x ds)
  obtain i d where x: "x = (i, d)" by fastforce
  with Cons.prems obtain s1 where s1: "put i d s = Inr s1" "run_puts put ds s1 = Inr s'" by (auto simp: bind_r_eq_Inr)
  then show ?case using Cons.IH[OF s1(2)] put_held[OF Cons.prems(2) s1(1)] Cons.prems(3) x by auto
qed simp

lemma puts_ok:
  assumes "invar s" "\<forall>(i, d) \<in> set ds. admissible i d"
  shows "\<exists>s'. run_puts put ds s = Inr s' \<and> invar s' \<and> held s' = held s @ concat (map snd ds)"
proof -
  have "\<exists>s'. run_puts put ds s = Inr s'"
    using assms
  proof (induction ds arbitrary: s)
    case (Cons x ds)
    obtain i d where x: "x = (i, d)" by fastforce
    with Cons.prems obtain s1 where "put i d s = Inr s1" "invar s1" using put_ok[of s i d] put_held[of s i d] by auto
    then show ?case using Cons.IH[of s1] Cons.prems(2) x by auto
  qed simp
  then show ?thesis using puts_held assms by blast
qed

end

end
