(* ===== verification/Async_Log.thy ===== *)
theory Async_Log
  imports Log_Stream Log_Sink
begin

text \<open>
  \<open>src/src/logger/FileUtil.h\<close>, \<open>FileUtil.cc\<close>, \<open>LogFile.h\<close>, \<open>LogFile.cc\<close>, \<open>AsyncLogging.h\<close> and
  \<open>AsyncLogging.cc\<close>. A file is the bytes given to \<open>fwrite_unlocked\<close>, whose results are an input
  list; \<open>time\<close> and \<open>strftime\<close> are inputs as well. The asynchronous log has two threads that share
  buffers under a mutex: appending, collecting the full buffers, and writing and recycling them
  are the steps of a transition relation. The size of the large buffers is a parameter.
\<close>

section \<open>FileUtil\<close>

record FileUtil =
  fu_name :: string
  fu_bytes :: string
  fu_flushed :: nat
  fu_written :: nat

definition new_FileUtil :: "bool \<Rightarrow> string \<Rightarrow> FileUtil result" where
  "new_FileUtil opened name =
     (if opened then Inr \<lparr>fu_name = name, fu_bytes = [], fu_flushed = 0, fu_written = 0\<rparr> else Inl NullPointer)"

text \<open>\<open>fclose\<close> writes out what the stream buffers.\<close>

definition destroy_FileUtil :: "FileUtil \<Rightarrow> FileUtil" where
  "destroy_FileUtil f = f\<lparr>fu_flushed := length (fu_bytes f)\<rparr>"

definition write_file :: "nat \<Rightarrow> string \<Rightarrow> FileUtil \<Rightarrow> FileUtil" where
  "write_file n data f = f\<lparr>fu_bytes := fu_bytes f @ take n data\<rparr>"

text \<open>The loop of \<open>append\<close>: an error is printed and the loop goes on. Out of results, it has not returned.\<close>

fun append_loop :: "nat list \<Rightarrow> string \<Rightarrow> FileUtil \<Rightarrow> FileUtil result" where
  "append_loop ns [] f = Inr f"
| "append_loop [] data f = Inl Diverges"
| "append_loop (n # ns) data f = append_loop ns (drop n data) (write_file n data f)"

definition append_file :: "nat list \<Rightarrow> string \<Rightarrow> FileUtil \<Rightarrow> FileUtil result" where
  "append_file ns data f =
     bind_r (append_loop ns data f) (\<lambda>f'. Inr (f'\<lparr>fu_written := fu_written f' + length data\<rparr>))"

definition flush_file :: "FileUtil \<Rightarrow> FileUtil" where
  "flush_file f = f\<lparr>fu_flushed := length (fu_bytes f)\<rparr>"

section \<open>LogFile\<close>

definition kRollPerSeconds :: int where "kRollPerSeconds = 60 * 60 * 24"

record LogFile =
  lf_basename :: string
  rollSize :: nat
  flushInterval :: int
  checkEveryN :: int
  lf_count :: int
  startOfPeriod :: int
  lastRoll :: int
  lastFlush :: int
  lf_file :: "FileUtil option"
  lf_closed :: "FileUtil list"

text \<open>\<open>stamp\<close> is what \<open>strftime\<close> prints for a time.\<close>

definition getLogFileName :: "(int \<Rightarrow> string) \<Rightarrow> int \<Rightarrow> string \<Rightarrow> string" where
  "getLogFileName stamp now basename = basename @ stamp now @ ''.log''"

text \<open>\<open>rollFile\<close>: the old file, when there is one, is closed by the reset of the pointer.\<close>

definition rollFile :: "(int \<Rightarrow> string) \<Rightarrow> bool \<Rightarrow> int \<Rightarrow> LogFile \<Rightarrow> (bool \<times> LogFile) result" where
  "rollFile stamp opened now l =
     (let filename = getLogFileName stamp now (lf_basename l); start = tdiv now kRollPerSeconds * kRollPerSeconds in
      if now > lastRoll l
      then bind_r (new_FileUtil opened filename) (\<lambda>f.
        Inr (True, l\<lparr>lastRoll := now, lastFlush := now, startOfPeriod := start, lf_file := Some f,
                     lf_closed := lf_closed l @ (case lf_file l of None \<Rightarrow> [] | Some g \<Rightarrow> [destroy_FileUtil g])\<rparr>))
      else Inr (False, l))"

definition new_LogFile :: "(int \<Rightarrow> string) \<Rightarrow> bool \<Rightarrow> int \<Rightarrow> string \<Rightarrow> nat \<Rightarrow> int \<Rightarrow> int \<Rightarrow> LogFile result" where
  "new_LogFile stamp opened now basename roll flushIv every =
     bind_r (rollFile stamp opened now
       \<lparr>lf_basename = basename, rollSize = roll, flushInterval = flushIv, checkEveryN = every, lf_count = 0,
        startOfPeriod = 0, lastRoll = 0, lastFlush = 0, lf_file = None, lf_closed = []\<rparr>) (\<lambda>(_, l). Inr l)"

text \<open>\<open>now\<close> is the time read for the check, \<open>now2\<close> the one \<open>rollFile\<close> reads.\<close>

definition appendInLock :: "(int \<Rightarrow> string) \<Rightarrow> bool \<Rightarrow> int \<Rightarrow> int \<Rightarrow> nat list \<Rightarrow> string \<Rightarrow> LogFile \<Rightarrow> LogFile result" where
  "appendInLock stamp opened now now2 ns data l =
     (case lf_file l of None \<Rightarrow> Inl NullPointer
      | Some f \<Rightarrow> bind_r (append_file ns data f) (\<lambda>f'.
          let l1 = l\<lparr>lf_file := Some f'\<rparr> in
          if fu_written f' > rollSize l1 then bind_r (rollFile stamp opened now2 l1) (\<lambda>(_, l2). Inr l2)
          else let l2 = l1\<lparr>lf_count := lf_count l1 + 1\<rparr> in
            if lf_count l2 \<ge> checkEveryN l2
            then let l3 = l2\<lparr>lf_count := 0\<rparr>; thisPeriod = tdiv now kRollPerSeconds * kRollPerSeconds in
              if thisPeriod \<noteq> startOfPeriod l3 then bind_r (rollFile stamp opened now2 l3) (\<lambda>(_, l4). Inr l4)
              else if now - lastFlush l3 > flushInterval l3
              then Inr (l3\<lparr>lastFlush := now, lf_file := Some (flush_file f')\<rparr>)
              else Inr l3
            else Inr l2))"

definition append_log :: "(int \<Rightarrow> string) \<Rightarrow> bool \<Rightarrow> int \<Rightarrow> int \<Rightarrow> nat list \<Rightarrow> string \<Rightarrow> LogFile \<Rightarrow> LogFile result" where
  "append_log stamp opened now now2 ns data l = appendInLock stamp opened now now2 ns data l"

definition flush_log :: "LogFile \<Rightarrow> LogFile result" where
  "flush_log l = (case lf_file l of None \<Rightarrow> Inl NullPointer | Some f \<Rightarrow> Inr (l\<lparr>lf_file := Some (flush_file f)\<rparr>))"

section \<open>AsyncLogging\<close>

text \<open>
  Where the thread is: at the test of \<open>running_\<close>; past it, before the lock or in \<open>wait_for\<close>; out of the
  locked section; out of the loop.
\<close>

datatype backend_pc = AtLoopHead | Waiting | Collected | Finished

text \<open>The members of the class, then the local variables of \<open>threadFunc\<close>. A null pointer is \<open>None\<close>.\<close>

record AsyncLogging =
  al_flushInterval :: int
  al_basename :: string
  al_rollSize :: nat
  al_running :: bool
  currentBuffer :: "FixedBuffer option"
  nextBuffer :: "FixedBuffer option"
  al_buffers :: "FixedBuffer list"
  newBuffer1 :: "FixedBuffer option"
  newBuffer2 :: "FixedBuffer option"
  buffersToWrite :: "FixedBuffer list"
  al_pc :: backend_pc

definition zeroed_buffer :: "nat \<Rightarrow> FixedBuffer" where
  "zeroed_buffer n = fb_bzero (new_FixedBuffer (replicate n (CHR 0x00)))"

definition new_AsyncLogging :: "string \<Rightarrow> nat \<Rightarrow> int \<Rightarrow> nat \<Rightarrow> AsyncLogging" where
  "new_AsyncLogging basename roll interval n =
     \<lparr>al_flushInterval = interval, al_basename = basename, al_rollSize = roll, al_running = False,
      currentBuffer = Some (zeroed_buffer n), nextBuffer = Some (zeroed_buffer n), al_buffers = [],
      newBuffer1 = None, newBuffer2 = None, buffersToWrite = [], al_pc = AtLoopHead\<rparr>"

text \<open>\<open>start\<close>, with the new thread come to the head of its loop.\<close>

definition start_async :: "nat \<Rightarrow> AsyncLogging \<Rightarrow> AsyncLogging" where
  "start_async n s =
     s\<lparr>al_running := True, newBuffer1 := Some (zeroed_buffer n), newBuffer2 := Some (zeroed_buffer n)\<rparr>"

text \<open>\<open>mem\<close> is the memory of a buffer that has to be allocated.\<close>

definition append_async :: "string \<Rightarrow> string \<Rightarrow> AsyncLogging \<Rightarrow> AsyncLogging result" where
  "append_async mem logline s = (case currentBuffer s of None \<Rightarrow> Inl NullPointer
     | Some b \<Rightarrow>
         if avail b > int (length logline) then Inr (s\<lparr>currentBuffer := Some (fb_append logline b)\<rparr>)
         else let cur = (case nextBuffer s of Some nb \<Rightarrow> nb | None \<Rightarrow> new_FixedBuffer mem) in
           Inr (s\<lparr>al_buffers := al_buffers s @ [b], nextBuffer := None, currentBuffer := Some (fb_append logline cur)\<rparr>))"

definition stop_async :: "AsyncLogging \<Rightarrow> AsyncLogging" where
  "stop_async s = s\<lparr>al_running := False\<rparr>"

definition destroy_AsyncLogging :: "AsyncLogging \<Rightarrow> AsyncLogging" where
  "destroy_AsyncLogging s = (if al_running s then stop_async s else s)"

text \<open>The locked section of the loop; it comes after the wait, however that ended.\<close>

definition collect :: "AsyncLogging \<Rightarrow> AsyncLogging result" where
  "collect s = (case currentBuffer s of None \<Rightarrow> Inl NullPointer
     | Some b \<Rightarrow>
         let s1 = s\<lparr>currentBuffer := newBuffer1 s, newBuffer1 := None,
                    al_buffers := buffersToWrite s, buffersToWrite := al_buffers s @ [b], al_pc := Collected\<rparr> in
         Inr (if nextBuffer s1 = None then s1\<lparr>nextBuffer := newBuffer2 s1, newBuffer2 := None\<rparr> else s1))"

text \<open>What is passed to \<open>output.append\<close>, buffer by buffer.\<close>

definition write_out :: "AsyncLogging \<Rightarrow> string list" where
  "write_out s = map (\<lambda>b. take (fb_length b) (fb_data b)) (buffersToWrite s)"

definition take_back :: "FixedBuffer option \<Rightarrow> FixedBuffer list \<Rightarrow> (FixedBuffer option \<times> FixedBuffer list) result" where
  "take_back nb bs = (case nb of Some b \<Rightarrow> Inr (Some b, bs)
     | None \<Rightarrow> if bs = [] then Inl Undefined else Inr (Some (fb_reset (last bs)), butlast bs))"

definition recycle :: "AsyncLogging \<Rightarrow> AsyncLogging result" where
  "recycle s =
     (let kept = take 2 (buffersToWrite s) in
      bind_r (take_back (newBuffer1 s) kept) (\<lambda>(n1, bs1).
      bind_r (take_back (newBuffer2 s) bs1) (\<lambda>(n2, bs2).
        Inr (s\<lparr>newBuffer1 := n1, newBuffer2 := n2, buffersToWrite := [], al_pc := AtLoopHead\<rparr>))))"

section \<open>Interleavings\<close>

text \<open>
  The test of \<open>running_\<close> and the locked section are two steps: lines may be appended, and \<open>stop\<close> may be
  called, between the two and during the wait.
\<close>

datatype al_event = AlAppend string | AlWait | AlCollect | AlWrite "FixedBuffer list" | AlStop | AlFinish

inductive al_step :: "nat \<Rightarrow> AsyncLogging \<Rightarrow> al_event \<Rightarrow> AsyncLogging \<Rightarrow> bool" for n where
  step_append: "length mem = n \<Longrightarrow> append_async mem line s = Inr s' \<Longrightarrow> al_step n s (AlAppend line) s'"
| step_wait: "al_pc s = AtLoopHead \<Longrightarrow> al_running s \<Longrightarrow> al_step n s AlWait (s\<lparr>al_pc := Waiting\<rparr>)"
| step_collect: "al_pc s = Waiting \<Longrightarrow> collect s = Inr s' \<Longrightarrow> al_step n s AlCollect s'"
| step_write: "al_pc s = Collected \<Longrightarrow> recycle s = Inr s' \<Longrightarrow> al_step n s (AlWrite (buffersToWrite s)) s'"
| step_stop: "al_step n s AlStop (stop_async s)"
| step_finish: "al_pc s = AtLoopHead \<Longrightarrow> \<not> al_running s \<Longrightarrow> al_step n s AlFinish (s\<lparr>al_pc := Finished\<rparr>)"

inductive al_run :: "nat \<Rightarrow> al_event list \<Rightarrow> AsyncLogging \<Rightarrow> bool" for n where
  al_init: "al_run n [] (start_async n (new_AsyncLogging basename roll interval n))"
| al_next: "al_run n es s \<Longrightarrow> al_step n s e s' \<Longrightarrow> al_run n (es @ [e]) s'"

fun appended :: "al_event list \<Rightarrow> string list" where
  "appended [] = []"
| "appended (AlAppend l # es) = l # appended es"
| "appended (_ # es) = appended es"

fun written :: "al_event list \<Rightarrow> FixedBuffer list" where
  "written [] = []"
| "written (AlWrite bs # es) = bs @ written es"
| "written (_ # es) = written es"

section \<open>Lemmas\<close>

lemma appended_append [simp]: "appended (xs @ ys) = appended xs @ appended ys"
  by (induction xs rule: appended.induct) auto

lemma written_append [simp]: "written (xs @ ys) = written xs @ written ys"
  by (induction xs rule: written.induct) auto

text \<open>A file gets the bytes in order, however \<open>fwrite\<close> splits them; results of zero never end the loop.\<close>

lemma append_loop_bytes: "append_loop ns data f = Inr f' \<Longrightarrow> f' = f\<lparr>fu_bytes := fu_bytes f @ data\<rparr>"
proof (induction ns data f rule: append_loop.induct)
  case (3 n ns c cs f)
  then show ?case by (simp add: write_file_def)
qed simp_all

lemma append_loop_total: "length data \<le> sum_list ns \<Longrightarrow> \<exists>f'. append_loop ns data f = Inr f'"
proof (induction ns data f rule: append_loop.induct)
  case (3 n ns c cs f)
  then show ?case by (cases "length (c # cs) \<le> n") auto
qed simp_all

lemma append_file_ok:
  assumes "length data \<le> sum_list ns"
  shows "append_file ns data f = Inr (f\<lparr>fu_bytes := fu_bytes f @ data, fu_written := fu_written f + length data\<rparr>)"
proof -
  obtain f' where "append_loop ns data f = Inr f'" using append_loop_total[OF assms] by blast
  then show ?thesis using append_loop_bytes[of ns data f f'] by (simp add: append_file_def)
qed

interpretation file_sink: log_sink "\<lambda>f. True" fu_bytes "\<lambda>ns d. length d \<le> sum_list ns" append_file
  by unfold_locales (auto simp: append_file_ok)

lemma append_loop_stuck: "data \<noteq> [] \<Longrightarrow> append_loop (replicate k 0) data f = Inl Diverges"
  by (induction k arbitrary: f) (auto simp: write_file_def neq_Nil_conv)

lemma rollFile_bytes:
  "rollFile stamp opened now l = Inr (r, l') \<Longrightarrow> lf_file l = Some f \<Longrightarrow>
    concat (map fu_bytes (lf_closed l')) @ (case lf_file l' of None \<Rightarrow> [] | Some g \<Rightarrow> fu_bytes g) =
    concat (map fu_bytes (lf_closed l)) @ fu_bytes f"
  by (auto simp: rollFile_def Let_def new_FileUtil_def destroy_FileUtil_def split: if_splits)

text \<open>Rolling loses nothing: the files of the log, oldest first, hold everything appended.\<close>

definition lf_bytes :: "LogFile \<Rightarrow> string" where
  "lf_bytes l = concat (map fu_bytes (lf_closed l)) @ (case lf_file l of None \<Rightarrow> [] | Some g \<Rightarrow> fu_bytes g)"

definition flushed :: "FileUtil \<Rightarrow> bool" where
  "flushed f \<longleftrightarrow> fu_flushed f = length (fu_bytes f)"

definition lf_inv :: "LogFile \<Rightarrow> bool" where
  "lf_inv l \<longleftrightarrow> lf_file l \<noteq> None \<and> list_all flushed (lf_closed l)"

lemma rollFile_keeps:
  "rollFile stamp opened now l = Inr (r, l') \<Longrightarrow> lf_inv l \<Longrightarrow> lf_inv l' \<and> lf_bytes l' = lf_bytes l"
  by (auto simp: rollFile_def lf_bytes_def lf_inv_def flushed_def Let_def new_FileUtil_def destroy_FileUtil_def split: if_splits)

lemma rollFile_opens: "\<exists>x. rollFile stamp True now l = Inr x"
  by (auto simp add: rollFile_def Let_def new_FileUtil_def)

lemma append_log_bytes:
  assumes "append_log stamp opened now now2 ns data l = Inr l'" "lf_inv l"
  shows "lf_inv l' \<and> lf_bytes l' = lf_bytes l @ data"
proof -
  obtain f where f: "lf_file l = Some f" using assms(2) by (auto simp: lf_inv_def)
  obtain f' where f': "append_file ns data f = Inr f'" using assms f by (auto simp: append_log_def appendInLock_def bind_r_eq_Inr)
  then have b: "fu_bytes f' = fu_bytes f @ data"
    by (auto simp: append_file_def bind_r_eq_Inr dest: append_loop_bytes)
  have k: "lf_inv m \<and> lf_bytes m = lf_bytes l @ data" if "lf_closed m = lf_closed l" "lf_file m = Some g" "fu_bytes g = fu_bytes f'" for m g
    using assms(2) f b that by (simp add: lf_inv_def lf_bytes_def)
  consider r where "rollFile stamp opened now2 (l\<lparr>lf_file := Some f'\<rparr>) = Inr (r, l')"
    | r where "rollFile stamp opened now2 (l\<lparr>lf_file := Some f', lf_count := 0\<rparr>) = Inr (r, l')"
    | g where "lf_closed l' = lf_closed l" "lf_file l' = Some g" "fu_bytes g = fu_bytes f'"
    using assms(1) f f' by (auto simp: append_log_def appendInLock_def Let_def bind_r_eq_Inr flush_file_def split: if_splits)
  then show ?thesis
  proof cases
    case 1
    then show ?thesis using rollFile_keeps[OF 1] k[of "l\<lparr>lf_file := Some f'\<rparr>" f'] by simp
  next
    case 2
    then show ?thesis using rollFile_keeps[OF 2] k[of "l\<lparr>lf_file := Some f', lf_count := 0\<rparr>" f'] by simp
  qed (rule k)
qed

text \<open>With enough room on the disk and files that open, an append returns.\<close>

lemma append_log_ok:
  assumes "lf_inv l" "length data \<le> sum_list ns"
  shows "\<exists>l'. append_log stamp True now now2 ns data l = Inr l'"
proof -
  obtain f where "lf_file l = Some f" using assms(1) by (auto simp: lf_inv_def)
  moreover obtain R where "rollFile stamp True t m = Inr (R t m)" for t m using rollFile_opens by metis
  ultimately show ?thesis using append_file_ok[OF assms(2), of f]
    by (simp add: append_log_def appendInLock_def Let_def case_prod_beta)
qed

text \<open>The inputs of an append: whether files open, two readings of the clock, the results of \<open>fwrite\<close>.\<close>

definition put_log :: "(int \<Rightarrow> string) \<Rightarrow> bool \<times> int \<times> int \<times> nat list \<Rightarrow> string \<Rightarrow> LogFile \<Rightarrow> LogFile result" where
  "put_log stamp i d l = (case i of (opened, now, now2, ns) \<Rightarrow> append_log stamp opened now now2 ns d l)"

definition log_input_ok :: "bool \<times> int \<times> int \<times> nat list \<Rightarrow> string \<Rightarrow> bool" where
  "log_input_ok i d \<longleftrightarrow> (case i of (opened, now, now2, ns) \<Rightarrow> opened \<and> length d \<le> sum_list ns)"

interpretation logfile_sink: log_sink lf_inv lf_bytes log_input_ok "put_log stamp"
  by unfold_locales (auto simp: put_log_def log_input_ok_def append_log_ok dest: append_log_bytes)

text \<open>The invariant of the two threads' buffers, \<open>n\<close> bytes each.\<close>

definition buf_ok :: "nat \<Rightarrow> FixedBuffer \<Rightarrow> bool" where
  "buf_ok n b \<longleftrightarrow> length (fb_data b) = n \<and> fb_cur b \<le> n"

definition empty_buf :: "nat \<Rightarrow> FixedBuffer \<Rightarrow> bool" where
  "empty_buf n b \<longleftrightarrow> length (fb_data b) = n \<and> fb_cur b = 0"

definition al_inv :: "nat \<Rightarrow> AsyncLogging \<Rightarrow> bool" where
  "al_inv n s \<longleftrightarrow> (\<exists>b. currentBuffer s = Some b \<and> buf_ok n b) \<and>
     list_all (buf_ok n) (al_buffers s) \<and> list_all (buf_ok n) (buffersToWrite s) \<and>
     pred_option (empty_buf n) (nextBuffer s) \<and> pred_option (empty_buf n) (newBuffer1 s) \<and> pred_option (empty_buf n) (newBuffer2 s) \<and>
     (nextBuffer s = None \<longrightarrow> al_buffers s \<noteq> []) \<and>
     (if al_pc s = Collected
      then newBuffer1 s = None \<and> buffersToWrite s \<noteq> [] \<and> (newBuffer2 s = None \<longrightarrow> 2 \<le> length (buffersToWrite s))
      else newBuffer1 s \<noteq> None \<and> newBuffer2 s \<noteq> None \<and> buffersToWrite s = [])"

definition unwritten :: "AsyncLogging \<Rightarrow> string" where
  "unwritten s = concat (map fb_text (buffersToWrite s @ al_buffers s)) @
     (case currentBuffer s of None \<Rightarrow> [] | Some b \<Rightarrow> fb_text b)"

lemma append_buf:
  assumes "buf_ok n b" "n < 2 ^ 31"
  shows "buf_ok n (fb_append line b)"
    and "fb_text (fb_append line b) = (if fb_cur b + length line < n then fb_text b @ line else fb_text b)"
  using fb_append_text[of b line] assms by (auto simp: buf_ok_def)

lemma empty_buf_ok: "empty_buf n b \<Longrightarrow> buf_ok n b \<and> fb_text b = []"
  by (simp add: empty_buf_def buf_ok_def fb_text_def)

lemma append_async_ok:
  assumes inv: "al_inv n s" and n: "0 < n" "n < 2 ^ 31" and mem: "length mem = n"
  shows "\<exists>s'. append_async mem line s = Inr s' \<and> al_inv n s' \<and>
    unwritten s' = unwritten s @ (if length line < n then line else [])"
proof -
  obtain b where b: "currentBuffer s = Some b" "buf_ok n b" using inv by (auto simp: al_inv_def)
  show ?thesis
  proof (cases "avail b > int (length line)")
    case True
    then have "fb_cur b + length line < n" using b(2) by (auto simp: avail_def buf_ok_def)
    then show ?thesis using True b append_buf[OF b(2) n(2), of line] inv
      by (auto simp: append_async_def al_inv_def unwritten_def)
  next
    case False
    define cur where "cur = (case nextBuffer s of Some nb \<Rightarrow> nb | None \<Rightarrow> new_FixedBuffer mem)"
    have "empty_buf n cur" using inv mem by (auto simp: cur_def al_inv_def empty_buf_def new_FixedBuffer_def split: option.splits)
    then have c: "buf_ok n cur" "fb_text cur = []" "fb_cur cur = 0" using empty_buf_ok by (auto simp: empty_buf_def)
    define s' where "s' = s\<lparr>al_buffers := al_buffers s @ [b], nextBuffer := None, currentBuffer := Some (fb_append line cur)\<rparr>"
    have "append_async mem line s = Inr s'" using False b by (simp add: append_async_def s'_def cur_def)
    moreover have "al_inv n s'" using inv b append_buf(1)[OF c(1) n(2)] by (auto simp: al_inv_def s'_def)
    moreover have "unwritten s' = unwritten s @ (if length line < n then line else [])"
      using b append_buf(2)[OF c(1) n(2), of line] c by (simp add: unwritten_def s'_def)
    ultimately show ?thesis by blast
  qed
qed

lemma kLargeBuffer_bounds: "0 < kLargeBuffer" "kLargeBuffer < 2 ^ 31"
  by (simp_all add: kLargeBuffer_def)

interpretation async_sink: log_sink "al_inv kLargeBuffer" unwritten
  "\<lambda>mem line. length mem = kLargeBuffer \<and> length line < kLargeBuffer" append_async
proof (unfold_locales, goal_cases)
  case (1 s i d)
  then show ?case using append_async_ok[OF 1(1) kLargeBuffer_bounds, of i d] by auto
next
  case (2 s i d s')
  then show ?case using append_async_ok[OF 2(1) kLargeBuffer_bounds, of i d] by auto
qed

lemma collect_ok:
  assumes inv: "al_inv n s" and pc: "al_pc s = Waiting"
  shows "\<exists>s'. collect s = Inr s' \<and> al_inv n s' \<and> unwritten s' = unwritten s"
proof -
  obtain b where b: "currentBuffer s = Some b" "buf_ok n b" using inv by (auto simp: al_inv_def)
  obtain n1 n2 where nn: "newBuffer1 s = Some n1" "newBuffer2 s = Some n2" "empty_buf n n1" "empty_buf n n2" "buffersToWrite s = []"
    using inv pc by (auto simp: al_inv_def)
  have "Suc 0 \<le> length (al_buffers s)" if "nextBuffer s = None" using inv that by (auto simp: al_inv_def Suc_le_eq)
  then show ?thesis using b nn inv empty_buf_ok[OF nn(3)]
    by (auto simp: collect_def al_inv_def unwritten_def Let_def)
qed

lemma recycle_ok:
  assumes inv: "al_inv n s" and pc: "al_pc s = Collected"
  shows "\<exists>s'. recycle s = Inr s' \<and> al_inv n s' \<and> concat (map fb_text (buffersToWrite s)) @ unwritten s' = unwritten s"
proof -
  have nn: "newBuffer1 s = None" "buffersToWrite s \<noteq> []" "newBuffer2 s = None \<longrightarrow> 2 \<le> length (buffersToWrite s)"
      "list_all (buf_ok n) (buffersToWrite s)" using inv pc by (auto simp: al_inv_def)
  then obtain c rest where c: "buffersToWrite s = c # rest" by (cases "buffersToWrite s") auto
  have e: "empty_buf n (fb_reset x)" if "buf_ok n x" for x using that by (simp add: empty_buf_def buf_ok_def fb_reset_def)
  show ?thesis
  proof (cases rest)
    case Nil
    then obtain n2 where "newBuffer2 s = Some n2" using nn c by (cases "newBuffer2 s") auto
    then show ?thesis using nn c Nil inv e
      by (auto simp: recycle_def take_back_def al_inv_def unwritten_def)
  next
    case (Cons d ds)
    have "\<exists>s'. recycle s = Inr s' \<and> newBuffer1 s' = Some (fb_reset d) \<and>
      (newBuffer2 s' = newBuffer2 s \<and> newBuffer2 s \<noteq> None \<or> newBuffer2 s' = Some (fb_reset c)) \<and> buffersToWrite s' = [] \<and> al_pc s' = AtLoopHead \<and>
      currentBuffer s' = currentBuffer s \<and> nextBuffer s' = nextBuffer s \<and> al_buffers s' = al_buffers s"
      using nn c Cons by (cases "newBuffer2 s") (simp_all add: recycle_def take_back_def)
    then show ?thesis using nn(4) inv e c Cons unfolding al_inv_def unwritten_def by fastforce
  qed
qed

lemma al_run_inv:
  assumes "al_run n es s" "0 < n" "n < 2 ^ 31"
  shows "al_inv n s \<and> concat (map fb_text (written es)) @ unwritten s = concat (filter (\<lambda>l. length l < n) (appended es))"
  using assms
proof (induction rule: al_run.induct)
  case al_init
  then show ?case
    by (simp add: new_AsyncLogging_def start_async_def al_inv_def unwritten_def zeroed_buffer_def fb_bzero_def new_FixedBuffer_def
        empty_buf_def buf_ok_def fb_text_def)
next
  case (al_next es s e s')
  then have ih: "al_inv n s" "concat (map fb_text (written es)) @ unwritten s = concat (filter (\<lambda>l. length l < n) (appended es))" by auto
  from al_next.hyps(2) show ?case
  proof (cases rule: al_step.cases)
    case (step_append mem line)
    then show ?thesis using append_async_ok[OF ih(1) al_next.prems, of mem line] ih(2) by auto
  next
    case step_wait
    then show ?thesis using ih by (auto simp: al_inv_def unwritten_def)
  next
    case step_collect
    then show ?thesis using collect_ok[OF ih(1)] ih(2) by auto
  next
    case step_write
    then show ?thesis using recycle_ok[OF ih(1)] ih(2) by auto
  next
    case step_stop
    then show ?thesis using ih by (auto simp: stop_async_def al_inv_def unwritten_def)
  next
    case step_finish
    then show ?thesis using ih by (auto simp: al_inv_def unwritten_def)
  qed
qed

section \<open>Properties\<close>

text \<open>
  The asynchronous log. Whatever the interleaving of the threads that log and the thread that
  writes, no operation follows a null pointer or takes a buffer from an empty vector, and the text of
  the buffers written so far followed by the text still in memory is the concatenation, in order, of
  all lines appended that are shorter than a buffer (longer ones are dropped). Each buffer is written
  with its full size, its text first.
\<close>

theorem async_log_exact:
  assumes "al_run n es s" "0 < n" "n < 2 ^ 31"
  shows "concat (map fb_text (written es)) @ unwritten s = concat (filter (\<lambda>l. length l < n) (appended es)) \<and>
    (\<forall>mem line. length mem = n \<longrightarrow> (\<exists>s'. append_async mem line s = Inr s')) \<and>
    (al_pc s = Waiting \<longrightarrow> (\<exists>s'. collect s = Inr s')) \<and> (al_pc s = Collected \<longrightarrow> (\<exists>s'. recycle s = Inr s')) \<and>
    (\<forall>b\<in>set (buffersToWrite s). \<exists>rest. take (fb_length b) (fb_data b) = fb_text b @ rest \<and> length (fb_text b @ rest) = n)"
proof -
  note inv = al_run_inv[OF assms]
  have "\<exists>rest. take (fb_length b) (fb_data b) = fb_text b @ rest \<and> length (fb_text b @ rest) = n" if "b \<in> set (buffersToWrite s)" for b
    using inv that by (intro exI[of _ "drop (fb_cur b) (fb_data b)"]) (auto simp: al_inv_def list_all_iff buf_ok_def fb_length_def fb_text_def)
  then show ?thesis using inv append_async_ok[OF _ assms(2,3)] collect_ok recycle_ok by blast
qed


theorem async_log_exact_witness:
  "\<exists>s. al_run 4 [AlAppend ''abc'', AlAppend ''toolong'', AlAppend ''de'', AlWait, AlStop, AlCollect] s \<and>
     unwritten s = ''abcde'' \<and> (\<exists>s'. recycle s = Inr s')"
proof -
  let ?m = "replicate 4 (CHR ''x'')"
  have step: "\<exists>s'. al_run 4 (es @ [AlAppend l]) s'" if r: "al_run 4 es s" for es s l
  proof -
    have m: "length ?m = 4" by simp
    then obtain s' where "append_async ?m l s = Inr s'" using async_log_exact[OF r] by force
    then have "al_step 4 s (AlAppend l) s'" by (rule step_append[OF m])
    then show ?thesis using al_next[OF r] by blast
  qed
  have pc: "al_pc s = AtLoopHead \<and> al_running s" if "al_run 4 es s" "\<forall>e\<in>set es. \<exists>l. e = AlAppend l" for es s
    using that
  proof (induction rule: al_run.induct)
    case (al_next es s e s')
    then obtain l where "e = AlAppend l" "al_pc s = AtLoopHead" "al_running s" by auto
    with al_next.hyps(2) show ?case
      by (cases rule: al_step.cases) (auto simp: append_async_def Let_def split: option.splits if_splits)
  qed (simp add: new_AsyncLogging_def start_async_def)
  obtain s1 where "al_run 4 [AlAppend ''abc''] s1" using step[OF al_init, of "''abc''"] by auto
  then obtain s2 where "al_run 4 [AlAppend ''abc'', AlAppend ''toolong''] s2" using step[of "[AlAppend ''abc'']" s1 "''toolong''"] by auto
  then obtain s3 where s3: "al_run 4 [AlAppend ''abc'', AlAppend ''toolong'', AlAppend ''de''] s3"
    using step[of "[AlAppend ''abc'', AlAppend ''toolong'']" s2 "''de''"] by auto
  then have p: "al_pc s3 = AtLoopHead" "al_running s3" using pc by auto
  define w where "w = stop_async (s3\<lparr>al_pc := Waiting\<rparr>)"
  have w: "al_run 4 [AlAppend ''abc'', AlAppend ''toolong'', AlAppend ''de'', AlWait, AlStop] w" "al_pc w = Waiting"
    using al_next[OF al_next[OF s3 step_wait[OF p]] step_stop] by (simp_all add: w_def stop_async_def)
  then obtain s4 where "collect w = Inr s4" using async_log_exact[OF w(1)] by auto
  then have s4: "al_run 4 [AlAppend ''abc'', AlAppend ''toolong'', AlAppend ''de'', AlWait, AlStop, AlCollect] s4" "al_pc s4 = Collected"
    using al_next[OF w(1) step_collect[OF w(2)]] by (auto simp: collect_def Let_def split: option.splits if_splits)
  show ?thesis using async_log_exact[OF s4(1)] s4 by (intro exI[of _ s4]) simp
qed

end
