(* ===== verification/Connection_Pool.thy ===== *)
theory Connection_Pool
  imports Prelude "HOL-Library.Multiset"
begin

text \<open>
  \<open>src/src/mysql/MysqlConn.h\<close>, \<open>MysqlConn.cc\<close>, \<open>ConnectionPool.h\<close> and \<open>ConnectionPool.cc\<close>. The MySQL
  client library and the JSON parser are not part of the program: what their functions return is an
  input. Connections of the pool are numbered in the order of their creation; the sections under the
  pool's mutex are the steps of a transition relation, each at a time of the steady clock, in
  nanoseconds.
\<close>

section \<open>MysqlConn\<close>

text \<open>A row points into the result it was fetched from, so it is kept with that result.\<close>

record 'r MysqlConn =
  mc_conn :: bool
  mc_result :: "'r option"
  mc_row :: "('r \<times> string list) option"
  m_alivetime :: int

datatype 'r mysql_call = MysqlClose | MysqlFreeResult 'r

text \<open>\<open>init\<close>: whether \<open>mysql_init\<close> gave a handle; the character set is set on it in any case.\<close>

definition fresh_MysqlConn :: "'r MysqlConn" where
  "fresh_MysqlConn = \<lparr>mc_conn = True, mc_result = None, mc_row = None, m_alivetime = 0\<rparr>"

definition new_MysqlConn :: "bool \<Rightarrow> 'r MysqlConn result" where
  "new_MysqlConn init = (if init then Inr fresh_MysqlConn else Inl NullPointer)"

definition freeResult :: "'r MysqlConn \<Rightarrow> 'r mysql_call list \<times> 'r MysqlConn" where
  "freeResult c = (case mc_result c of None \<Rightarrow> ([], c) | Some r \<Rightarrow> ([MysqlFreeResult r], c\<lparr>mc_result := None\<rparr>))"

definition destroy_MysqlConn :: "'r MysqlConn \<Rightarrow> 'r mysql_call list" where
  "destroy_MysqlConn c = (if mc_conn c then [MysqlClose] else []) @ fst (freeResult c)"

definition connect :: "bool \<Rightarrow> 'r MysqlConn \<Rightarrow> bool" where
  "connect connected c = connected"

text \<open>\<open>rc\<close> is the result of \<open>mysql_query\<close>, 0 on success; \<open>stored\<close> that of \<open>mysql_store_result\<close>.\<close>

definition update_db :: "int \<Rightarrow> 'r MysqlConn \<Rightarrow> bool" where
  "update_db rc c = (if rc \<noteq> 0 then False else True)"

definition query :: "int \<Rightarrow> 'r option \<Rightarrow> 'r MysqlConn \<Rightarrow> 'r mysql_call list \<times> 'r option \<times> 'r MysqlConn" where
  "query rc stored c =
     (let (calls, c1) = freeResult c in
      if rc \<noteq> 0 then (calls, None, c1) else (calls, stored, c1\<lparr>mc_result := stored\<rparr>))"

text \<open>\<open>row\<close> is what \<open>mysql_fetch_row\<close> gives, the bytes of each field.\<close>

definition next_row :: "string list option \<Rightarrow> 'r MysqlConn \<Rightarrow> bool \<times> 'r MysqlConn" where
  "next_row row c =
     (case mc_result c of None \<Rightarrow> (False, c)
      | Some r \<Rightarrow> (row \<noteq> None, c\<lparr>mc_row := map_option (\<lambda>fields. (r, fields)) row\<rparr>))"

text \<open>\<open>rowCount\<close> is what \<open>mysql_num_fields\<close> gives; a row of a result that has been freed is gone with it.\<close>

definition value_at :: "int \<Rightarrow> int \<Rightarrow> 'r MysqlConn \<Rightarrow> string result" where
  "value_at rowCount index c =
     (if mc_result c = None then Inl NullPointer
      else if index \<ge> rowCount \<or> index < 0 then Inr []
      else case mc_row c of None \<Rightarrow> Inl NullPointer
        | Some (r, row) \<Rightarrow> if mc_result c \<noteq> Some r then Inl UseAfterFree
            else if nat index < length row then Inr (row ! nat index) else Inl OutOfBounds)"

text \<open>The three return what the library returned, which is false on success.\<close>

definition transaction :: "bool \<Rightarrow> 'r MysqlConn \<Rightarrow> bool" where "transaction failed c = failed"
definition commit :: "bool \<Rightarrow> 'r MysqlConn \<Rightarrow> bool" where "commit failed c = failed"
definition rollbock :: "bool \<Rightarrow> 'r MysqlConn \<Rightarrow> bool" where "rollbock failed c = failed"

definition refreshAliveTime :: "int \<Rightarrow> 'r MysqlConn \<Rightarrow> 'r MysqlConn" where
  "refreshAliveTime now c = c\<lparr>m_alivetime := now\<rparr>"

definition getAliveTime :: "int \<Rightarrow> 'r MysqlConn \<Rightarrow> int" where
  "getAliveTime now c = tdiv (now - m_alivetime c) 1000000"

section \<open>ConnectionPool\<close>

record conf =
  conf_ip :: string
  conf_userName :: string
  conf_password :: string
  conf_dbName :: string
  conf_port :: nat
  conf_timeout :: int
  conf_minSize :: int
  conf_maxSize :: int
  conf_maxIdleTime :: int

text \<open>A connection in the pool is its number and the object; \<open>cp_created\<close> counts them.\<close>

type_synonym 'r pooled = "nat \<times> 'r MysqlConn"

record 'r ConnectionPool =
  cp_ip :: string
  cp_user :: string
  cp_passwd :: string
  cp_dbName :: string
  cp_port :: nat
  cp_timeout :: int
  minSize :: int
  maxSize :: int
  currentSize :: int
  maxIdleTime :: int
  connectionQueue :: "'r pooled list"
  cp_lent :: "'r pooled list"
  cp_deleted :: "nat list"
  cp_created :: nat

definition parseJsonFile :: "conf \<Rightarrow> 'r ConnectionPool \<Rightarrow> 'r ConnectionPool" where
  "parseJsonFile c p =
     p\<lparr>cp_ip := conf_ip c, cp_user := conf_userName c, cp_passwd := conf_password c, cp_dbName := conf_dbName c,
       cp_port := conf_port c, minSize := conf_minSize c, maxSize := conf_maxSize c, cp_timeout := conf_timeout c,
       maxIdleTime := conf_maxIdleTime c\<rparr>"

text \<open>\<open>mysql_init\<close> is taken to succeed; the result of \<open>connect\<close> is not looked at.\<close>

definition addConnection :: "int \<Rightarrow> 'r ConnectionPool \<Rightarrow> 'r ConnectionPool" where
  "addConnection now p =
     p\<lparr>connectionQueue := connectionQueue p @
         [(cp_created p, refreshAliveTime now fresh_MysqlConn)],
       cp_created := cp_created p + 1, currentSize := currentSize p + 1\<rparr>"

text \<open>The constructor and the producer count a connection that \<open>addConnection\<close> has counted already.\<close>

definition add_counted :: "int \<Rightarrow> 'r ConnectionPool \<Rightarrow> 'r ConnectionPool" where
  "add_counted now p = (let p1 = addConnection now p in p1\<lparr>currentSize := currentSize p1 + 1\<rparr>)"

fun add_connections :: "nat \<Rightarrow> int \<Rightarrow> 'r ConnectionPool \<Rightarrow> 'r ConnectionPool" where
  "add_connections 0 now p = p"
| "add_connections (Suc k) now p = add_connections k now (add_counted now p)"

text \<open>\<open>mem\<close> is what \<open>currentSize_\<close>, which no one initialises, holds.\<close>

definition new_ConnectionPool :: "int \<Rightarrow> conf \<Rightarrow> int \<Rightarrow> 'r ConnectionPool" where
  "new_ConnectionPool mem c now =
     (let p = parseJsonFile c \<lparr>cp_ip = [], cp_user = [], cp_passwd = [], cp_dbName = [], cp_port = 0, cp_timeout = 0,
                              minSize = 0, maxSize = 0, currentSize = mem, maxIdleTime = 0, connectionQueue = [],
                              cp_lent = [], cp_deleted = [], cp_created = 0\<rparr> in
      add_connections (nat (minSize p)) now p)"

text \<open>One turn of the producer, which waits while the queue is not empty.\<close>

definition produceConnection :: "int \<Rightarrow> 'r ConnectionPool \<Rightarrow> 'r ConnectionPool" where
  "produceConnection now p = (if currentSize p < maxSize p then add_counted now p else p)"

text \<open>One turn of the recycler; the size is compared with \<open>minSize_\<close> as an unsigned number.\<close>

function recycle_loop :: "int \<Rightarrow> 'r ConnectionPool \<Rightarrow> 'r ConnectionPool" where
  "recycle_loop now p =
     (if length (connectionQueue p) > wrap64 (minSize p)
      then case connectionQueue p of [] \<Rightarrow> p
        | (i, c) # q \<Rightarrow>
            if getAliveTime now c \<ge> maxIdleTime p
            then recycle_loop now (p\<lparr>connectionQueue := q, cp_deleted := i # cp_deleted p, currentSize := currentSize p - 1\<rparr>)
            else p
      else p)"
  by auto
termination by (relation "measure (\<lambda>(now, p). length (connectionQueue p))") auto

declare recycle_loop.simps [simp del]

definition recycleConnection :: "int \<Rightarrow> 'r ConnectionPool \<Rightarrow> 'r ConnectionPool" where
  "recycleConnection now p = recycle_loop now p"

text \<open>\<open>getConnection\<close> past its wait: \<open>None\<close> while the queue is empty.\<close>

definition getConnection :: "'r ConnectionPool \<Rightarrow> ('r pooled \<times> 'r ConnectionPool) option" where
  "getConnection p = (case connectionQueue p of [] \<Rightarrow> None
     | c # q \<Rightarrow> Some (c, p\<lparr>connectionQueue := q, cp_lent := c # cp_lent p\<rparr>))"

text \<open>The deleter of the shared pointer; the client may have changed the object. Nobody is notified.\<close>

definition release :: "int \<Rightarrow> nat \<Rightarrow> 'r MysqlConn \<Rightarrow> 'r ConnectionPool \<Rightarrow> 'r ConnectionPool" where
  "release now i c p =
     p\<lparr>connectionQueue := connectionQueue p @ [(i, refreshAliveTime now c)], cp_lent := filter (\<lambda>x. fst x \<noteq> i) (cp_lent p)\<rparr>"

definition destroy_ConnectionPool :: "'r ConnectionPool \<Rightarrow> 'r ConnectionPool" where
  "destroy_ConnectionPool p =
     p\<lparr>connectionQueue := [], cp_deleted := rev (map fst (connectionQueue p)) @ cp_deleted p,
       currentSize := currentSize p - int (length (connectionQueue p))\<rparr>"

section \<open>Interleavings\<close>

text \<open>The reachable states with the time of the last step.\<close>

inductive cp_reach :: "int \<Rightarrow> conf \<Rightarrow> int \<Rightarrow> 'r ConnectionPool \<Rightarrow> bool" for mem c where
  cp_init: "cp_reach mem c now (new_ConnectionPool mem c now)"
| cp_produce: "cp_reach mem c t p \<Longrightarrow> t \<le> now \<Longrightarrow> connectionQueue p = [] \<Longrightarrow> cp_reach mem c now (produceConnection now p)"
| cp_recycle: "cp_reach mem c t p \<Longrightarrow> t \<le> now \<Longrightarrow> cp_reach mem c now (recycleConnection now p)"
| cp_get: "cp_reach mem c t p \<Longrightarrow> getConnection p = Some (x, p') \<Longrightarrow> cp_reach mem c t p'"
| cp_release: "cp_reach mem c t p \<Longrightarrow> t \<le> now \<Longrightarrow> i \<in> fst ` set (cp_lent p) \<Longrightarrow> cp_reach mem c now (release now i m p)"

section \<open>Lemmas\<close>

definition cp_inv :: "int \<Rightarrow> conf \<Rightarrow> int \<Rightarrow> 'r ConnectionPool \<Rightarrow> bool" where
  "cp_inv mem c t p \<longleftrightarrow> minSize p = conf_minSize c \<and> maxSize p = conf_maxSize c \<and> maxIdleTime p = conf_maxIdleTime c \<and>
     distinct (map fst (connectionQueue p @ cp_lent p) @ cp_deleted p) \<and>
     set (map fst (connectionQueue p @ cp_lent p) @ cp_deleted p) = {..<cp_created p} \<and>
     currentSize p = mem + int (length (connectionQueue p) + length (cp_lent p)) + int (cp_created p) \<and>
     sorted (map (\<lambda>x. m_alivetime (snd x)) (connectionQueue p)) \<and> (\<forall>x\<in>set (connectionQueue p). m_alivetime (snd x) \<le> t)"

lemma cp_inv_later: "cp_inv mem c t p \<Longrightarrow> t \<le> now \<Longrightarrow> cp_inv mem c now p"
  by (auto simp: cp_inv_def)

lemma add_counted_inv:
  assumes "cp_inv mem c t p" "t \<le> now"
  shows "cp_inv mem c now (add_counted now p)"
proof -
  have "\<forall>x\<in>set (connectionQueue p). m_alivetime (snd x) \<le> now" using assms by (auto simp: cp_inv_def)
  moreover have "cp_created p \<notin> set (map fst (connectionQueue p @ cp_lent p) @ cp_deleted p)" using assms(1) unfolding cp_inv_def by simp
  ultimately show ?thesis using assms(1)
    by (auto simp: cp_inv_def add_counted_def addConnection_def refreshAliveTime_def sorted_append lessThan_Suc)
qed

lemma add_connections_inv: "cp_inv mem c t p \<Longrightarrow> cp_inv mem c t (add_connections k t p)"
  by (induction k t p rule: add_connections.induct) (auto intro: add_counted_inv)

lemma new_ConnectionPool_inv: "cp_inv mem c now (new_ConnectionPool mem c now)"
  unfolding new_ConnectionPool_def Let_def by (rule add_connections_inv) (simp add: cp_inv_def parseJsonFile_def)

text \<open>The recycler: an older connection has been idle for at least as long.\<close>

lemma getAliveTime_antimono:
  "m_alivetime a \<le> m_alivetime b \<Longrightarrow> m_alivetime b \<le> now \<Longrightarrow> getAliveTime now b \<le> getAliveTime now a"
  by (simp add: getAliveTime_def zdiv_mono1)

lemma recycle_loop_inv: "cp_inv mem c t p \<Longrightarrow> t \<le> now \<Longrightarrow> cp_inv mem c now (recycle_loop now p)"
proof (induction now p rule: recycle_loop.induct)
  case (1 now p)
  show ?case
  proof (cases "length (connectionQueue p) > wrap64 (minSize p) \<and> (\<exists>x q. connectionQueue p = x # q \<and> getAliveTime now (snd x) \<ge> maxIdleTime p)")
    case True
    then obtain i m q where q: "connectionQueue p = (i, m) # q" "getAliveTime now m \<ge> maxIdleTime p" by fastforce
    let ?p = "p\<lparr>connectionQueue := q, cp_deleted := i # cp_deleted p, currentSize := currentSize p - 1\<rparr>"
    have "cp_inv mem c t ?p" using "1.prems"(1) q(1) by (auto simp: cp_inv_def)
    then have "cp_inv mem c now (recycle_loop now ?p)" using "1.IH"[OF _ q(1)] q True "1.prems"(2) by auto
    then show ?thesis using True q by (subst recycle_loop.simps) simp
  next
    case False
    then have "recycle_loop now p = p" by (subst recycle_loop.simps) (auto split: list.splits)
    then show ?thesis using cp_inv_later[OF "1.prems"] by simp
  qed
qed

lemma recycle_loop_bounds:
  "cp_inv mem c t p \<Longrightarrow> t \<le> now \<Longrightarrow>
    min (wrap64 (minSize p)) (length (connectionQueue p)) \<le> length (connectionQueue (recycle_loop now p)) \<and>
    (length (connectionQueue (recycle_loop now p)) \<le> wrap64 (minSize p) \<or>
     (\<forall>x\<in>set (connectionQueue (recycle_loop now p)). getAliveTime now (snd x) < maxIdleTime p))"
proof (induction now p rule: recycle_loop.induct)
  case (1 now p)
  show ?case
  proof (cases "length (connectionQueue p) > wrap64 (minSize p)")
    case False
    then show ?thesis by (subst (1 2 3) recycle_loop.simps) auto
  next
    case True
    then obtain i m q where q: "connectionQueue p = (i, m) # q" by (cases "connectionQueue p") auto
    show ?thesis
    proof (cases "getAliveTime now m \<ge> maxIdleTime p")
      case idle: True
      let ?p = "p\<lparr>connectionQueue := q, cp_deleted := i # cp_deleted p, currentSize := currentSize p - 1\<rparr>"
      have inv: "cp_inv mem c t ?p" using "1.prems"(1) q by (auto simp: cp_inv_def)
      have "recycle_loop now p = recycle_loop now ?p" using True q idle by (subst recycle_loop.simps) simp
      then show ?thesis using "1.IH"[OF True q refl idle inv "1.prems"(2)] True q by auto
    next
      case busy: False
      have "m_alivetime m \<le> m_alivetime (snd x) \<and> m_alivetime (snd x) \<le> now" if "x \<in> set (connectionQueue p)" for x
        using "1.prems" q that by (auto simp: cp_inv_def)
      then have "\<forall>x\<in>set (connectionQueue p). getAliveTime now (snd x) < maxIdleTime p"
        using busy getAliveTime_antimono[of m] by force
      moreover have "recycle_loop now p = p" using True q busy by (subst recycle_loop.simps) simp
      ultimately show ?thesis by simp
    qed
  qed
qed

lemma release_inv:
  assumes inv: "cp_inv mem c t p" and t: "t \<le> now" and i: "i \<in> fst ` set (cp_lent p)"
  shows "cp_inv mem c now (release now i m p)"
proof -
  have d: "distinct (map fst (cp_lent p))" using inv by (simp add: cp_inv_def)
  obtain xs x ys where l: "cp_lent p = xs @ x # ys" "fst x = i" using i by (auto dest: split_list)
  have "i \<notin> fst ` set xs" "i \<notin> fst ` set ys" using d unfolding l(1) l(2)[symmetric] by simp_all
  then have "\<forall>z\<in>set xs \<union> set ys. fst z \<noteq> i" by (auto simp: image_iff)
  then have "filter (\<lambda>x. fst x \<noteq> i) xs = xs" "filter (\<lambda>x. fst x \<noteq> i) ys = ys" by (simp_all add: filter_id_conv)
  then have f: "filter (\<lambda>x. fst x \<noteq> i) (cp_lent p) = xs @ ys" using l by simp
  let ?q = "release now i m p"
  have r: "connectionQueue ?q = connectionQueue p @ [(i, refreshAliveTime now m)]" "cp_lent ?q = xs @ ys"
    "cp_deleted ?q = cp_deleted p" "cp_created ?q = cp_created p" "currentSize ?q = currentSize p"
    "minSize ?q = minSize p" "maxSize ?q = maxSize p" "maxIdleTime ?q = maxIdleTime p"
    by (simp_all add: release_def f)
  have "mset (map fst (connectionQueue ?q @ cp_lent ?q) @ cp_deleted ?q) = mset (map fst (connectionQueue p @ cp_lent p) @ cp_deleted p)"
    using l r by simp
  then have "set (map fst (connectionQueue ?q @ cp_lent ?q) @ cp_deleted ?q) = set (map fst (connectionQueue p @ cp_lent p) @ cp_deleted p)"
    "distinct (map fst (connectionQueue ?q @ cp_lent ?q) @ cp_deleted ?q) \<longleftrightarrow> distinct (map fst (connectionQueue p @ cp_lent p) @ cp_deleted p)"
    by (metis mset_eq_setD, metis mset_eq_imp_distinct_iff)
  moreover have "length (connectionQueue ?q) + length (cp_lent ?q) = length (connectionQueue p) + length (cp_lent p)" using l r by simp
  moreover have "\<forall>x\<in>set (connectionQueue p). m_alivetime (snd x) \<le> now" using inv t by (auto simp: cp_inv_def)
  then have "sorted (map (\<lambda>x. m_alivetime (snd x)) (connectionQueue ?q))" "\<forall>x\<in>set (connectionQueue ?q). m_alivetime (snd x) \<le> now"
    using inv unfolding cp_inv_def r by (auto simp: refreshAliveTime_def sorted_append)
  ultimately show ?thesis using inv r unfolding cp_inv_def by metis
qed

lemma cp_reach_inv: "cp_reach mem c t p \<Longrightarrow> cp_inv mem c t p"
proof (induction rule: cp_reach.induct)
  case (cp_init now)
  then show ?case by (rule new_ConnectionPool_inv)
next
  case (cp_produce t p now)
  then show ?case by (auto simp: produceConnection_def intro: add_counted_inv cp_inv_later)
next
  case (cp_recycle t p now)
  then show ?case unfolding recycleConnection_def by (intro recycle_loop_inv)
next
  case (cp_get t p x p')
  then obtain q where q: "connectionQueue p = x # q" "p' = p\<lparr>connectionQueue := q, cp_lent := x # cp_lent p\<rparr>"
    by (auto simp: getConnection_def split: list.splits)
  have "set (map fst (connectionQueue p' @ cp_lent p') @ cp_deleted p') = set (map fst (connectionQueue p @ cp_lent p) @ cp_deleted p)"
    using q by auto
  moreover have "distinct (map fst (connectionQueue p' @ cp_lent p') @ cp_deleted p')"
    using cp_get.IH q unfolding cp_inv_def by auto
  ultimately show ?case using cp_get.IH q unfolding cp_inv_def by simp
next
  case (cp_release t p now i m)
  then show ?case by (intro release_inv)
qed

section \<open>Properties\<close>

text \<open>
  C27: the books of the connection pool. In every state the producer, the recycler and the clients can
  bring it into: every connection ever created is in exactly one place, queued, lent or deleted, so a
  lent connection is never deleted or lent twice; the recycler leaves at least the minimum (when there
  were that many) and, above the minimum, no connection that has been idle too long. But the counter
  \<open>currentSize_\<close> is not the number of connections: it counts every creation twice and a deletion once,
  so once as many connections as the maximum have been created in total, the producer creates no
  more, even when the pool has none left.
\<close>

theorem connection_pool_books:
  assumes "cp_reach mem c t p" "0 \<le> conf_minSize c" "conf_minSize c < 2 ^ 31" "0 \<le> mem" "t \<le> now"
  shows "distinct (map fst (connectionQueue p) @ map fst (cp_lent p) @ cp_deleted p) \<and>
    set (map fst (connectionQueue p) @ map fst (cp_lent p) @ cp_deleted p) = {..<cp_created p} \<and>
    currentSize p = mem + int (length (connectionQueue p)) + int (length (cp_lent p)) + int (cp_created p) \<and>
    (int (cp_created p) \<ge> conf_maxSize c \<longrightarrow> produceConnection now p = p) \<and>
    min (nat (conf_minSize c)) (length (connectionQueue p)) \<le> length (connectionQueue (recycleConnection now p)) \<and>
    (length (connectionQueue (recycleConnection now p)) \<le> nat (conf_minSize c) \<or>
     (\<forall>x\<in>set (connectionQueue (recycleConnection now p)). getAliveTime now (snd x) < conf_maxIdleTime c))"
proof -
  have inv: "cp_inv mem c t p" using cp_reach_inv[OF assms(1)] .
  have m: "wrap64 (minSize p) = nat (conf_minSize c)" "maxIdleTime p = conf_maxIdleTime c"
    using inv assms(2,3) by (simp_all add: cp_inv_def)
  have "distinct (map fst (connectionQueue p) @ map fst (cp_lent p) @ cp_deleted p)"
    "set (map fst (connectionQueue p) @ map fst (cp_lent p) @ cp_deleted p) = {..<cp_created p}"
    "currentSize p = mem + int (length (connectionQueue p)) + int (length (cp_lent p)) + int (cp_created p)"
    "maxSize p = conf_maxSize c"
    using inv unfolding cp_inv_def by simp_all
  then show ?thesis using recycle_loop_bounds[OF inv assms(5)] assms(4) unfolding recycleConnection_def m
    by (simp add: produceConnection_def)
qed


text \<open>A pool of at most two connections whose queue starts with one.\<close>

theorem connection_pool_books_witness:
  "\<exists>p :: nat ConnectionPool. cp_reach 0 \<lparr>conf_ip = [], conf_userName = [], conf_password = [], conf_dbName = [], conf_port = 3306,
       conf_timeout = 1000, conf_minSize = 1, conf_maxSize = 2, conf_maxIdleTime = 5000\<rparr> 0 p \<and>
     currentSize p = 2 \<and> connectionQueue p = [(0, fresh_MysqlConn)] \<and> cp_created p = 1 \<and>
     min 1 (length (connectionQueue p)) \<le> length (connectionQueue (recycleConnection 10000000000 p))"
proof -
  let ?c = "\<lparr>conf_ip = [], conf_userName = [], conf_password = [], conf_dbName = [], conf_port = 3306,
       conf_timeout = 1000, conf_minSize = 1, conf_maxSize = 2, conf_maxIdleTime = 5000\<rparr>"
  let ?p = "new_ConnectionPool 0 ?c 0 :: nat ConnectionPool"
  have r: "cp_reach 0 ?c 0 ?p" by (rule cp_init)
  have "length (connectionQueue ?p) = 1 \<and> currentSize ?p = 2 \<and> connectionQueue ?p = [(0, fresh_MysqlConn)] \<and> cp_created ?p = 1"
    by (simp add: new_ConnectionPool_def parseJsonFile_def add_counted_def addConnection_def refreshAliveTime_def fresh_MysqlConn_def)
  moreover have "min (nat (conf_minSize ?c)) (length (connectionQueue ?p)) \<le> length (connectionQueue (recycleConnection 10000000000 ?p))"
    using connection_pool_books[OF r, of 10000000000] by simp
  ultimately show ?thesis using r by (intro exI[of _ ?p]) simp
qed


end
