(* ===== verification/Conn_Events.thy ===== *)
theory Conn_Events
  imports Tcp_Connection
begin

text \<open>
  A connection under the events of its loop: what \<open>epoll_wait\<close> reports for its descriptor is stored
  in the channel, \<open>Channel::handleEvent\<close> chooses the callbacks, and they are the four handlers the
  constructor of \<open>TcpConnection\<close> binds to the channel. The user's calls from callbacks (\<open>send\<close>,
  \<open>sendFile\<close>, \<open>shutdown\<close>) are events as well; so are the two halves of such a call from another thread:
  what it does at once, and the functor it leaves for the loop. The results of the system calls an event
  makes come with it. Shown here: no event, with any result the system calls can have, leads to a fault
  or out of the connection's invariant.
\<close>

section \<open>Dispatch\<close>

text \<open>The handlers bound to the channel.\<close>

fun conn_callback :: "readv_result \<Rightarrow> write_result \<Rightarrow> callback \<Rightarrow> TcpConnection \<Rightarrow> Poller \<Rightarrow> tc_result" where
  "conn_callback rv wr (ReadCb t) c p = handleRead rv t c p"
| "conn_callback rv wr WriteCb c p = handleWrite wr c p"
| "conn_callback rv wr CloseCb c p = handleClose c p"
| "conn_callback rv wr ErrorCb c p = handleError c p"

fun run_conn_callbacks :: "readv_result \<Rightarrow> write_result \<Rightarrow> callback list \<Rightarrow> TcpConnection \<Rightarrow> Poller \<Rightarrow> tc_result" where
  "run_conn_callbacks rv wr [] c p = Inr (c, p, [])"
| "run_conn_callbacks rv wr (cb # cbs) c p =
     bind_r (conn_callback rv wr cb c p) (\<lambda>(c1, p1, e1).
     bind_r (run_conn_callbacks rv wr cbs c1 p1) (\<lambda>(c2, p2, e2). Inr (c2, p2, e1 @ e2)))"

text \<open>
  An entry of the array \<open>epoll_wait\<close> filled: \<open>fillActiveChannels\<close> stores the events in the channel,
  the loop calls \<open>handleEvent\<close> on it. The connection is alive: the server holds a reference to it.
\<close>

definition channel_event :: "int \<Rightarrow> 32 word \<Rightarrow> readv_result \<Rightarrow> write_result \<Rightarrow> TcpConnection \<Rightarrow> Poller \<Rightarrow> tc_result" where
  "channel_event now re rv wr c p =
     (case heap p (tc_addr c) of None \<Rightarrow> Inl UseAfterFree
      | Some ch \<Rightarrow> run_conn_callbacks rv wr (handleEvent True now (set_revents re ch)) c
                     (p\<lparr>heap := (heap p)(tc_addr c \<mapsto> set_revents re ch)\<rparr>))"

datatype conn_event =
    Reported int "32 word" readv_result write_result
  | UserSend write_result string
  | UserSendFile sendfile_result int nat
  | UserShutdown

fun conn_step :: "conn_event \<Rightarrow> TcpConnection \<Rightarrow> Poller \<Rightarrow> tc_result" where
  "conn_step (Reported now re rv wr) c p = channel_event now re rv wr c p"
| "conn_step (UserSend wr d) c p = bind_r (send_string True wr 0 d c p) (\<lambda>(fs, r). Inr r)"
| "conn_step (UserSendFile sf fd n) c p = bind_r (sendFile True sf fd n c p) (\<lambda>(fs, r). Inr r)"
| "conn_step UserShutdown c p = bind_r (shutdown True c p) (\<lambda>(fs, r). Inr r)"

text \<open>
  What the system calls may return: \<open>readv\<close> fills no more than the ranges it is given, \<open>write\<close> takes no
  more than it is offered, and the vectors stay below their maximal size.
\<close>

fun readv_ok :: "Buffer \<Rightarrow> readv_result \<Rightarrow> bool" where
  "readv_ok b (ReadvOk bs) \<longleftrightarrow> readv_fits b bs \<and> length (buf_data b) + extrabuf_size \<le> vector_max_size"
| "readv_ok b (ReadvErr e) \<longleftrightarrow> True"

fun write_ok :: "nat \<Rightarrow> write_result \<Rightarrow> bool" where
  "write_ok len (WriteOk n) \<longleftrightarrow> n \<le> len"
| "write_ok len (WriteErr e) \<longleftrightarrow> True"

fun event_ok :: "TcpConnection \<Rightarrow> conn_event \<Rightarrow> bool" where
  "event_ok c (Reported now re rv wr) \<longleftrightarrow> readv_ok (tc_in c) rv \<and> write_ok (readableBytes (tc_out c)) wr"
| "event_ok c (UserSend wr d) \<longleftrightarrow> write_ok (length d) wr \<and> length d < 2 ^ 31 \<and>
     writerIndex (tc_out c) + length d \<le> vector_max_size"
| "event_ok c (UserSendFile sf fd n) \<longleftrightarrow> (\<forall>k. sf = SfOk k \<longrightarrow> k \<le> n)"
| "event_ok c UserShutdown \<longleftrightarrow> True"

text \<open>
  With the calls from other threads. \<open>send\<close> only makes a functor, \<open>sendFile\<close> and \<open>shutdown\<close> also set members
  at once; a functor runs in the loop at any later time. A functor with a pointer into the caller's
  string needs that string to be still there (\<open>cross_thread_send\<close>): \<open>mem\<close> is what lives where.
\<close>

datatype any_event =
    InLoop conn_event
  | OtherSendFile int nat
  | OtherShutdown
  | RunQueued "nat \<rightharpoonup> string" write_result sendfile_result conn_functor

fun any_step :: "any_event \<Rightarrow> TcpConnection \<Rightarrow> Poller \<Rightarrow> tc_result" where
  "any_step (InLoop e) c p = conn_step e c p"
| "any_step (OtherSendFile fd n) c p = bind_r (sendFile False (SfOk 0) fd n c p) (\<lambda>(fs, r). Inr r)"
| "any_step OtherShutdown c p = bind_r (shutdown False c p) (\<lambda>(fs, r). Inr r)"
| "any_step (RunQueued mem wr sf f) c p = run_conn_functor mem wr sf f c p"

fun functor_ok :: "(nat \<rightharpoonup> string) \<Rightarrow> TcpConnection \<Rightarrow> write_result \<Rightarrow> sendfile_result \<Rightarrow> conn_functor \<Rightarrow> bool" where
  "functor_ok mem c wr sf (FSendPtr ptr len) \<longleftrightarrow> (case mem ptr of None \<Rightarrow> False | Some s \<Rightarrow> len \<le> length s) \<and>
     write_ok len wr \<and> len < 2 ^ 31 \<and> writerIndex (tc_out c) + len \<le> vector_max_size"
| "functor_ok mem c wr sf (FSendString s) \<longleftrightarrow> write_ok (length s) wr \<and> length s < 2 ^ 31 \<and>
     writerIndex (tc_out c) + length s \<le> vector_max_size"
| "functor_ok mem c wr sf FSendFile \<longleftrightarrow> (\<forall>k. sf = SfOk k \<longrightarrow> k \<le> tc_sendLen c)"
| "functor_ok mem c wr sf FShutdown \<longleftrightarrow> True"

fun any_ok :: "TcpConnection \<Rightarrow> any_event \<Rightarrow> bool" where
  "any_ok c (InLoop e) \<longleftrightarrow> event_ok c e"
| "any_ok c (RunQueued mem wr sf f) \<longleftrightarrow> functor_ok mem c wr sf f"
| "any_ok c e \<longleftrightarrow> True"

section \<open>Lemmas\<close>

lemma conn_inv_simps [simp]:
  "conn_inv (c\<lparr>tc_sendFd := f\<rparr>) p = conn_inv c p" "conn_inv (c\<lparr>tc_sendLen := n\<rparr>) p = conn_inv c p"
  "conn_inv (c\<lparr>tc_sendFd := f, tc_sendLen := n\<rparr>) p = conn_inv c p"
  by (simp_all add: conn_inv_def writing_def)

lemma conn_inv_writing: "conn_inv c p \<Longrightarrow> conn_writing c p = Inr (writing c p)"
  by (simp add: conn_inv_def conn_writing_eq)

lemma conn_inv_in: "conn_inv c p \<Longrightarrow> buffer_inv b \<Longrightarrow> conn_inv (c\<lparr>tc_in := b\<rparr>) p"
  by (simp add: conn_inv_def)

lemma conn_inv_state: "conn_inv c p \<Longrightarrow> tc_state c \<noteq> kDisconnected \<Longrightarrow> conn_inv (setState s c) p"
  by (simp add: conn_inv_def setState_def writing_def)

lemma enable_writing_inv:
  "conn_inv c p \<Longrightarrow> \<exists>p'. enable_writing_if c p = Inr p' \<and> conn_inv c p' \<and> writing c p'"
  using enable_writing_ok[of p c] by (auto simp: conn_inv_def)

text \<open>Storing the reported events changes no registration.\<close>

lemma conn_inv_same: "same_registration p q \<Longrightarrow> conn_inv c p \<Longrightarrow> conn_inv c q"
  using same_registration_inv by (auto simp: conn_inv_def writing_def same_registration_masks)

lemma set_revents_same: "heap p a = Some ch \<Longrightarrow> same_registration p (p\<lparr>heap := (heap p)(a \<mapsto> set_revents re ch)\<rparr>)"
  by (auto simp: same_registration_def set_revents_def)

text \<open>One lemma per handler: it returns, and the invariant holds again.\<close>

lemma handleClose_inv:
  assumes "conn_inv c p"
  shows "\<exists>c' p' es. handleClose c p = Inr (c', p', es) \<and> conn_inv c' p' \<and> tc_state c' = kDisconnected \<and>
    tc_addr c' = tc_addr c \<and> tc_out c' = tc_out c \<and> tc_in c' = tc_in c"
proof -
  obtain p' where "channel_op False DisableAll (tc_addr c) p = Inr p'" "poller_inv p'" "fd_free (tc_addr c) p'"
      "watched_mask (tc_addr c) p' = requested_mask (tc_addr c) p'"
    using ep.apply_ok[of p "tc_addr c" DisableAll] assms by (auto simp: conn_inv_def)
  then show ?thesis using assms by (auto simp: handleClose_def setState_def conn_inv_def)
qed

lemma handleRead_inv:
  assumes "conn_inv c p" "readv_ok (tc_in c) rv"
  shows "\<exists>c' p' es. handleRead rv t c p = Inr (c', p', es) \<and> conn_inv c' p' \<and> tc_addr c' = tc_addr c \<and> tc_out c' = tc_out c"
proof (cases rv)
  case (ReadvErr e)
  then show ?thesis using assms(1) by (simp add: handleRead_def handleError_def readFd.simps)
next
  case (ReadvOk bs)
  then obtain b where b: "readFd rv (tc_in c) = Inr (int (length bs), None, b)" "buffer_inv b"
    using readFd_ok[of "tc_in c" bs] assms by (auto simp: conn_inv_def)
  have i: "conn_inv (c\<lparr>tc_in := b\<rparr>) p" by (rule conn_inv_in[OF assms(1) b(2)])
  then show ?thesis using b(1) handleClose_inv[OF i] by (cases "bs = []") (auto simp: handleRead_def)
qed

lemma handleWrite_inv:
  assumes "conn_inv c p" "write_ok (readableBytes (tc_out c)) wr"
  shows "\<exists>c' p' es. handleWrite wr c p = Inr (c', p', es) \<and> conn_inv c' p'"
proof (cases "writing c p \<and> (\<exists>n. wr = WriteOk n \<and> 0 < n)")
  case True
  then obtain n where n: "wr = WriteOk n" "0 < n" by blast
  have "n \<le> length (content (tc_out c))" using assms n by (simp add: conn_inv_def)
  from handleWrite_writing[OF assms(1) _ n(2) this] True n(1) show ?thesis by blast
next
  case False
  obtain n e w where f: "writeFd wr (tc_out c) = Inr (n, e, w)"
    using assms(1) writeFd_ok[of "tc_out c"] by (cases wr) (auto simp: conn_inv_def)
  show ?thesis
  proof (cases "writing c p")
    case True
    then have "\<not> 0 < n" using f False assms(1) writeFd_ok[of "tc_out c"]
      by (cases wr) (auto simp: conn_inv_def simp del: writeFd.simps(2))
    then show ?thesis using f True conn_inv_writing[OF assms(1)] assms(1) by (simp add: handleWrite_def)
  qed (use conn_inv_writing[OF assms(1)] assms(1) in \<open>simp add: handleWrite_def\<close>)
qed

lemma run_conn_callbacks_append:
  "run_conn_callbacks rv wr xs c p = Inr (c1, p1, e1) \<Longrightarrow> run_conn_callbacks rv wr ys c1 p1 = Inr (c2, p2, e2) \<Longrightarrow>
   run_conn_callbacks rv wr (xs @ ys) c p = Inr (c2, p2, e1 @ e2)"
  by (induction xs arbitrary: c p e1) (auto simp: bind_r_eq_Inr)

lemma run_one_callback:
  "run_conn_callbacks rv wr [cb] c p = conn_callback rv wr cb c p"
  by (cases "conn_callback rv wr cb c p") auto

text \<open>The callbacks of one event, in the order \<open>handleEventWithGuard\<close> makes them.\<close>

lemma channel_event_inv:
  assumes inv: "conn_inv c p" and rv: "readv_ok (tc_in c) rv" and wr: "write_ok (readableBytes (tc_out c)) wr"
  shows "\<exists>c' p' es. channel_event now re rv wr c p = Inr (c', p', es) \<and> conn_inv c' p'"
proof -
  obtain ch where ch: "heap p (tc_addr c) = Some ch" using inv fd_free_heap by (auto simp: conn_inv_def)
  let ?run = "run_conn_callbacks rv wr"
  define q where "q = p\<lparr>heap := (heap p)(tc_addr c \<mapsto> set_revents re ch)\<rparr>"
  have q: "conn_inv c q" unfolding q_def by (rule conn_inv_same[OF set_revents_same[OF ch] inv])
  obtain b1 b2 b3 b4 where cbs: "handleEvent True now (set_revents re ch) =
      (if b1 then [CloseCb] else []) @ (if b2 then [ErrorCb] else []) @ (if b3 then [ReadCb now] else []) @ (if b4 then [WriteCb] else [])"
    by (auto simp: handleEvent_def handleEventWithGuard_def Let_def)
  obtain c1 p1 e1 where 1: "?run (if b1 then [CloseCb] else []) c q = Inr (c1, p1, e1)" "conn_inv c1 p1" "tc_in c1 = tc_in c" "tc_out c1 = tc_out c"
    using handleClose_inv[OF q] q by (cases b1) auto
  have 2: "?run (if b2 then [ErrorCb] else []) c1 p1 = Inr (c1, p1, if b2 then [LogError] else [])" by (simp add: handleError_def)
  obtain c3 p3 e3 where 3: "?run (if b3 then [ReadCb now] else []) c1 p1 = Inr (c3, p3, e3)" "conn_inv c3 p3" "tc_out c3 = tc_out c"
    using handleRead_inv[OF 1(2), of rv now] rv 1 by (cases b3) (auto simp: run_one_callback)
  obtain c4 p4 e4 where 4: "?run (if b4 then [WriteCb] else []) c3 p3 = Inr (c4, p4, e4)" "conn_inv c4 p4"
    using handleWrite_inv[OF 3(2), of wr] wr 3 by (cases b4) (auto simp: run_one_callback)
  have "?run (handleEvent True now (set_revents re ch)) c q = Inr (c4, p4, e1 @ (if b2 then [LogError] else []) @ e3 @ e4)"
    unfolding cbs by (rule run_conn_callbacks_append[OF 1(1) run_conn_callbacks_append[OF 2 run_conn_callbacks_append[OF 3(1) 4(1)]]])
  then show ?thesis using ch 4(2) by (simp add: channel_event_def q_def)
qed

text \<open>The user's calls.\<close>

lemma sendInLoop_inv:
  assumes inv: "conn_inv c p" and wr: "write_ok (length d) wr"
    and len: "length d < 2 ^ 31" "writerIndex (tc_out c) + length d \<le> vector_max_size"
  shows "\<exists>c' p' es. sendInLoop wr d c p = Inr (c', p', es) \<and> conn_inv c' p'"
proof (cases "tc_state c = kDisconnected")
  case True
  then show ?thesis using inv by (simp add: sendInLoop_def)
next
  case open_conn: False
  show ?thesis
  proof (cases "\<exists>e. wr = WriteErr e \<and> (e = EPIPE \<or> e = ECONNRESET) \<and> \<not> writing c p \<and> readableBytes (tc_out c) = 0")
    case True
    then show ?thesis using open_conn conn_inv_writing[OF inv] inv by (auto simp: sendInLoop_def)
  next
    case False
    define wr' where "wr' = (if writing c p \<or> readableBytes (tc_out c) \<noteq> 0 then WriteOk 0 else wr)"
    have "sendInLoop wr d c p = sendInLoop wr' d c p"
      using conn_inv_writing[OF inv] by (auto simp: sendInLoop_def wr'_def)
    moreover have "write_valid wr' (length d)" using False wr by (cases wr) (auto simp: wr'_def)
    ultimately show ?thesis using sendInLoop_ok[OF inv open_conn _ len, of wr'] by auto
  qed
qed

lemma sendFile_inv:
  assumes inv: "conn_inv c p"
  shows "\<exists>c' p' es. sendFileInLoop sf c p = Inr (c', p', es) \<and> conn_inv c' p'"
proof -
  let ?dw = "if \<not> writing c p \<and> readableBytes (tc_out c) = 0
    then (case sf of SfOk n \<Rightarrow> (False, c\<lparr>tc_sendLen := tc_sendLen c - n\<rparr>,
            [SendFile (tc_sendFd c) n] @ (if tc_sendLen c - n = 0 then [CloseFd (tc_sendFd c)] else []))
          | SfErr e \<Rightarrow> (e = EPIPE \<or> e = ECONNRESET, c, if e \<noteq> EWOULDBLOCK then [LogError] else []))
    else (False, c, [])"
  obtain f c1 e1 where dw: "?dw = (f, c1, e1)" by (rule prod_cases3)
  then have i: "conn_inv c1 p" using inv by (auto split: if_splits sendfile_result.splits)
  obtain p' where p': "enable_writing_if c1 p = Inr p'" "conn_inv c1 p'" using enable_writing_inv[OF i] by blast
  have "sendFileInLoop sf c p = (if tc_state c = kDisconnected then Inr (c, p, [LogError])
      else if \<not> f \<and> tc_sendLen c1 > 0 then Inr (c1, p', e1) else Inr (c1, p, e1))"
    using conn_inv_writing[OF inv] dw p'(1) by (simp add: sendFileInLoop_def)
  then show ?thesis using inv i p'(2) by simp
qed

lemma shutdown_inv:
  assumes inv: "conn_inv c p"
  shows "\<exists>c' p' es. shutdown True c p = Inr ([], c', p', es) \<and> conn_inv c' p'"
proof (cases "tc_state c = kConnected")
  case True
  then have "conn_inv (setState kDisconnecting c) p" using conn_inv_state[OF inv] by simp
  then show ?thesis using True conn_inv_writing by (auto simp: shutdown_def shutdownInLoop_def)
qed (use inv in \<open>simp add: shutdown_def\<close>)

lemma conn_step_inv:
  assumes "conn_inv c p" "event_ok c e"
  shows "\<exists>c' p' es. conn_step e c p = Inr (c', p', es) \<and> conn_inv c' p'"
proof (cases e)
  case (Reported now re rv wr)
  then show ?thesis using channel_event_inv[OF assms(1)] assms(2) by simp
next
  case (UserSend wr d)
  then obtain c' p' es where "sendInLoop wr d c p = Inr (c', p', es)" "conn_inv c' p'"
    using sendInLoop_inv[OF assms(1), of d wr] assms(2) by auto
  then show ?thesis using UserSend assms(1) by (simp add: send_string_def)
next
  case (UserSendFile sf fd n)
  have "conn_inv (c\<lparr>tc_sendFd := fd, tc_sendLen := n\<rparr>) p" using assms(1) by simp
  then obtain c' p' es where "sendFileInLoop sf (c\<lparr>tc_sendFd := fd, tc_sendLen := n\<rparr>) p = Inr (c', p', es)" "conn_inv c' p'"
    using sendFile_inv by blast
  then show ?thesis using UserSendFile assms(1) by (simp add: sendFile_def)
next
  case UserShutdown
  then show ?thesis using shutdown_inv[OF assms(1)] by auto
qed

lemma functor_inv:
  assumes "conn_inv c p" "functor_ok mem c wr sf f"
  shows "\<exists>c' p' es. run_conn_functor mem wr sf f c p = Inr (c', p', es) \<and> conn_inv c' p'"
proof (cases f)
  case (FSendPtr ptr len)
  then obtain s where "mem ptr = Some s" "len \<le> length s" using assms(2) by (auto split: option.splits)
  then show ?thesis using FSendPtr assms sendInLoop_inv[OF assms(1), of "take len s" wr] by (auto simp: min_absorb2)
next
  case (FSendString s)
  then show ?thesis using assms sendInLoop_inv[OF assms(1), of s wr] by auto
next
  case FSendFile
  then show ?thesis using sendFile_inv[OF assms(1), of sf] by simp
next
  case FShutdown
  then show ?thesis using assms(1) conn_inv_writing[OF assms(1)] by (simp add: shutdownInLoop_def)
qed

lemma any_step_inv:
  assumes "conn_inv c p" "any_ok c e"
  shows "\<exists>c' p' es. any_step e c p = Inr (c', p', es) \<and> conn_inv c' p'"
proof (cases e)
  case (InLoop e')
  then show ?thesis using conn_step_inv[OF assms(1), of e'] assms(2) by simp
next
  case (OtherSendFile fd n)
  then show ?thesis using assms(1) by (simp add: sendFile_def)
next
  case OtherShutdown
  then show ?thesis using assms(1) conn_inv_state[OF assms(1)] by (simp add: shutdown_def)
next
  case (RunQueued mem wr sf f)
  then show ?thesis using functor_inv[OF assms(1)] assms(2) by simp
qed

section \<open>Reachable connections\<close>

text \<open>A connection from its construction on, under any sequence of events.\<close>

inductive conn_reach :: "TcpConnection \<Rightarrow> Poller \<Rightarrow> bool" where
  conn_established: "poller_inv p \<Longrightarrow> heap p a = None \<Longrightarrow> channels p fd = None \<Longrightarrow>
     new_TcpConnection False nm fd a p = Inr (c0, p0, es0) \<Longrightarrow> connectEstablished c0 p0 = Inr (c, p', es) \<Longrightarrow> conn_reach c p'"
| conn_next: "conn_reach c p \<Longrightarrow> any_ok c e \<Longrightarrow> any_step e c p = Inr (c', p', es) \<Longrightarrow> conn_reach c' p'"

lemma conn_reach_inv: "conn_reach c p \<Longrightarrow> conn_inv c p"
proof (induction rule: conn_reach.induct)
  case (conn_established p a fd nm c0 p0 es0 c p' es)
  then show ?case using established_inv[OF conn_established.hyps(1-4)] by auto
next
  case (conn_next c p e c' p' es)
  then show ?case using any_step_inv[of c p e] by auto
qed

section \<open>Properties\<close>



end
