(* ===== verification/Conn_Frame.thy ===== *)
theory Conn_Frame
  imports Conn_Events
begin

text \<open>
  What the operations of a connection leave alone. Many connections share the poller of a loop; each
  operation of a connection works on its own channel and its own descriptor only, and it reports the
  end of the connection at most once. Both facts are proved here once for every handler and every
  event of \<open>Conn_Events\<close>; \<open>Server_Loops\<close> builds on them.
\<close>

section \<open>Local changes of a poller\<close>

definition owns :: "addr \<Rightarrow> int \<Rightarrow> Poller \<Rightarrow> bool" where
  "owns a fd p \<longleftrightarrow> (\<exists>ch. heap p a = Some ch \<and> ch_fd ch = fd)"

text \<open>From \<open>p\<close> to \<open>q\<close> only the channel at \<open>a\<close> and the registration of \<open>fd\<close> have changed.\<close>

definition local_to :: "addr \<Rightarrow> int \<Rightarrow> Poller \<Rightarrow> Poller \<Rightarrow> bool" where
  "local_to a fd p q \<longleftrightarrow> (\<forall>b. b \<noteq> a \<longrightarrow> heap q b = heap p b) \<and>
     (\<forall>f. f \<noteq> fd \<longrightarrow> channels q f = channels p f \<and> interest q f = interest p f)"

lemma local_refl [simp, intro]: "local_to a fd p p"
  by (simp add: local_to_def)

lemma local_trans: "local_to a fd p q \<Longrightarrow> local_to a fd q r \<Longrightarrow> local_to a fd p r"
  by (simp add: local_to_def)

lemma update_local:
  "update d oper a c p = Inr q \<Longrightarrow> heap q = heap p \<and> channels q = channels p \<and> (\<forall>f. f \<noteq> ch_fd c \<longrightarrow> interest q f = interest p f)"
  by (cases oper) (auto simp: update_def split: option.splits if_splits)

lemma channel_op_local:
  assumes "channel_op d oper a p = Inr q" "owns a fd p"
  shows "local_to a fd p q \<and> owns a fd q \<and> requested_mask a q = mask_op oper (requested_mask a p)"
proof -
  obtain ch where ch: "heap p a = Some ch" "ch_fd ch = fd" using assms(2) by (auto simp: owns_def)
  then show ?thesis using assms(1)
    by (auto simp: channel_op_def updateChannel_def Let_def bind_r_eq_Inr local_to_def owns_def requested_mask_def
        split: if_splits dest!: update_local simp del: mask_op.simps)
qed

lemma removeChannel_local:
  assumes "removeChannel d a p = Inr q" "owns a fd p"
  shows "local_to a fd p q \<and> owns a fd q"
  using assms
  by (auto simp: removeChannel_def Let_def bind_r_eq_Inr local_to_def owns_def split: option.splits if_splits dest!: update_local)

lemma set_channel_local:
  "owns a fd p \<Longrightarrow> ch_fd ch = fd \<Longrightarrow> local_to a fd p (p\<lparr>heap := (heap p)(a \<mapsto> ch)\<rparr>) \<and> owns a fd (p\<lparr>heap := (heap p)(a \<mapsto> ch)\<rparr>)"
  by (auto simp: local_to_def owns_def)

text \<open>The other connections of the loop do not notice.\<close>

lemma local_masks:
  assumes "local_to a fd p q" "owns b f p" "b \<noteq> a" "f \<noteq> fd"
  shows "owns b f q" "requested_mask b q = requested_mask b p" "watched_mask b q = watched_mask b p" "fd_free b q = fd_free b p"
  using assms by (auto simp: local_to_def owns_def requested_mask_def watched_mask_def fd_free_def)

lemma local_conn_inv:
  assumes "conn_inv c p" "local_to a fd p q" "poller_inv q" "owns (tc_addr c) f p" "tc_addr c \<noteq> a" "f \<noteq> fd"
  shows "conn_inv c q"
  using assms local_masks[OF assms(2,4-6)] by (auto simp: conn_inv_def writing_def)

section \<open>Quiet and closing changes of a connection\<close>

text \<open>The effects that tell the user or the server about the connection's beginning or end.\<close>

fun about_life :: "tc_effect \<Rightarrow> bool" where
  "about_life (CallConnection s) = True"
| "about_life CallClose = True"
| "about_life _ = False"

abbreviation life :: "tc_effect list \<Rightarrow> tc_effect list" where
  "life es \<equiv> filter about_life es"

abbreviation reading :: "TcpConnection \<Rightarrow> Poller \<Rightarrow> bool" where
  "reading c p \<equiv> bit (requested_mask (tc_addr c) p) 0"

text \<open>
  A quiet change keeps the connection's phase, except that \<open>shutdown\<close> starts the disconnection; a
  closed connection is not registered again.
\<close>

definition quiet :: "int \<Rightarrow> TcpConnection \<Rightarrow> Poller \<Rightarrow> TcpConnection \<Rightarrow> Poller \<Rightarrow> tc_effect list \<Rightarrow> bool" where
  "quiet fd c p c' p' es \<longleftrightarrow> tc_addr c' = tc_addr c \<and> local_to (tc_addr c) fd p p' \<and> owns (tc_addr c) fd p' \<and> life es = [] \<and>
     (tc_state c' = tc_state c \<or> tc_state c = kConnected \<and> tc_state c' = kDisconnecting) \<and>
     reading c p' = reading c p \<and> (tc_state c = kDisconnected \<and> \<not> writing c p \<longrightarrow> requested_mask (tc_addr c) p' = requested_mask (tc_addr c) p)"

definition closing :: "int \<Rightarrow> TcpConnection \<Rightarrow> Poller \<Rightarrow> TcpConnection \<Rightarrow> Poller \<Rightarrow> tc_effect list \<Rightarrow> bool" where
  "closing fd c p c' p' es \<longleftrightarrow> tc_addr c' = tc_addr c \<and> local_to (tc_addr c) fd p p' \<and> owns (tc_addr c) fd p' \<and>
     life es = [CallConnection kDisconnected, CallClose] \<and> tc_state c' = kDisconnected \<and> requested_mask (tc_addr c) p' = 0"

lemma quiet_id: "owns (tc_addr c) fd p \<Longrightarrow> life es = [] \<Longrightarrow> tc_addr c' = tc_addr c \<Longrightarrow> tc_state c' = tc_state c \<Longrightarrow> quiet fd c p c' p es"
  by (simp add: quiet_def)

lemma quiet_trans:
  assumes "quiet fd c p c1 p1 e1" "quiet fd c1 p1 c2 p2 e2"
  shows "quiet fd c p c2 p2 (e1 @ e2)"
  using assms local_trans[of "tc_addr c" fd p p1 p2] by (auto simp: quiet_def writing_def)

lemma quiet_closing: "quiet fd c p c1 p1 e1 \<Longrightarrow> closing fd c1 p1 c2 p2 e2 \<Longrightarrow> closing fd c p c2 p2 (e1 @ e2)"
  using local_trans[of "tc_addr c" fd p p1 p2] by (auto simp: quiet_def closing_def)

lemma closing_quiet: "closing fd c p c1 p1 e1 \<Longrightarrow> quiet fd c1 p1 c2 p2 e2 \<Longrightarrow> closing fd c p c2 p2 (e1 @ e2)"
  using local_trans[of "tc_addr c" fd p p1 p2] by (auto simp: quiet_def closing_def writing_def)

text \<open>One lemma per operation.\<close>

lemma mask_op_reading [simp]: "bit (mask_op EnableWriting m) 0 = bit m 0" "bit (mask_op DisableWriting m) 0 = bit m 0"
  by (simp_all add: bit_simps kWriteEvent_def mask_bits)

lemma enable_writing_addr: "tc_addr c1 = tc_addr c \<Longrightarrow> enable_writing_if c1 p = enable_writing_if c p"
  unfolding enable_writing_if_def conn_writing_def by (drule sym) (erule subst, rule refl)

lemma enable_writing_quiet:
  assumes "enable_writing_if c p = Inr p'" "owns (tc_addr c) fd p" "tc_state c \<noteq> kDisconnected" "life es = []"
    "tc_addr c' = tc_addr c" "tc_state c' = tc_state c"
  shows "quiet fd c p c' p' es"
proof (cases "p' = p")
  case True
  then show ?thesis using assms by (simp add: quiet_def)
next
  case False
  then have "channel_op False EnableWriting (tc_addr c) p = Inr p'"
    using assms(1) by (auto simp: enable_writing_if_def bind_r_eq_Inr split: if_splits)
  from channel_op_local[OF this assms(2)] show ?thesis using assms by (simp add: quiet_def del: mask_op.simps)
qed

lemma sendInLoop_quiet:
  assumes "sendInLoop wr d c p = Inr (c', p', es)" "owns (tc_addr c) fd p"
  shows "quiet fd c p c' p' es"
proof (cases "tc_state c = kDisconnected")
  case True
  then show ?thesis using assms by (auto simp: sendInLoop_def intro!: quiet_id)
next
  case False
  have l: "life (snd (snd (direct_write wr n b))) = []" for n b by (cases wr) auto
  obtain w where w1: "conn_writing c p = Inr w" using assms(1) False by (auto simp: sendInLoop_def bind_r_eq_Inr)
  obtain n f e1 where w2: "(if \<not> w \<and> readableBytes (tc_out c) = 0
      then direct_write wr (length d) (tc_writeComplete c) else (0, False, [])) = (n, f, e1)" by (rule prod_cases3)
  note w = w1 w2
  have e1: "life e1 = []" using w(2) l[of "length d" "tc_writeComplete c"] by (auto split: if_splits)
  let ?c1 = "c\<lparr>tc_wire := tc_wire c @ take n d\<rparr>"
  have e: "enable_writing_if ?c1 q = enable_writing_if c q" for q by (rule enable_writing_addr) simp
  show ?thesis
  proof (cases "\<not> f \<and> length d - n > 0")
    case True
    let ?e2 = "if readableBytes (tc_out c) + (length d - n) \<ge> tc_highWaterMark c \<and> readableBytes (tc_out c) < tc_highWaterMark c \<and> tc_highWater c
      then [QueueHighWaterMark (readableBytes (tc_out c) + (length d - n))] else []"
    have "bind_r (Buffer_append (drop n d) (tc_out c)) (\<lambda>out. bind_r (enable_writing_if ?c1 p) (\<lambda>p'.
        Inr (?c1\<lparr>tc_out := out\<rparr>, p', e1 @ ?e2))) = Inr (c', p', es)"
      using assms(1) False True by (simp add: sendInLoop_def w Let_def split del: if_split)
    then obtain out where o: "enable_writing_if c p = Inr p'" "c' = ?c1\<lparr>tc_out := out\<rparr>" "es = e1 @ ?e2"
      unfolding e bind_r_eq_Inr by blast
    have "life ?e2 = []" by simp
    then show ?thesis using enable_writing_quiet[OF o(1) assms(2) False, of es c'] o e1 by simp
  next
    case no: False
    then show ?thesis using assms False w e1 by (auto simp: sendInLoop_def intro!: quiet_id)
  qed
qed

lemma sendFileInLoop_quiet:
  assumes "sendFileInLoop sf c p = Inr (c', p', es)" "owns (tc_addr c) fd p"
  shows "quiet fd c p c' p' es"
proof (cases "tc_state c = kDisconnected")
  case True
  then show ?thesis using assms by (auto simp: sendFileInLoop_def intro!: quiet_id)
next
  case False
  let ?dw = "\<lambda>w. if \<not> w \<and> readableBytes (tc_out c) = 0
    then (case sf of SfOk n \<Rightarrow> (False, c\<lparr>tc_sendLen := tc_sendLen c - n\<rparr>,
            [SendFile (tc_sendFd c) n] @ (if tc_sendLen c - n = 0 then [CloseFd (tc_sendFd c)] else []))
          | SfErr e \<Rightarrow> (e = EPIPE \<or> e = ECONNRESET, c, if e \<noteq> EWOULDBLOCK then [LogError] else []))
    else (False, c, [])"
  obtain w where w: "conn_writing c p = Inr w" using assms(1) False by (auto simp: sendFileInLoop_def bind_r_eq_Inr)
  obtain f c1 e1 where d: "?dw w = (f, c1, e1)" by (rule prod_cases3)
  then have c1: "life e1 = []" "tc_addr c1 = tc_addr c" "tc_state c1 = tc_state c" by (auto split: if_splits sendfile_result.splits)
  then have e: "enable_writing_if c1 p = enable_writing_if c p" by (intro enable_writing_addr)
  have "(if \<not> f \<and> tc_sendLen c1 > 0 then bind_r (enable_writing_if c1 p) (\<lambda>p'. Inr (c1, p', e1)) else Inr (c1, p, e1)) = Inr (c', p', es)"
    using assms(1) False w d by (simp add: sendFileInLoop_def)
  then have "c' = c1 \<and> es = e1 \<and> (enable_writing_if c p = Inr p' \<or> p' = p)"
    unfolding e[symmetric] by (auto simp: bind_r_eq_Inr split: if_splits)
  then show ?thesis using c1 assms(2) False by (auto intro: enable_writing_quiet quiet_id)
qed

lemma handleWrite_quiet:
  assumes "handleWrite wr c p = Inr (c', p', es)" "owns (tc_addr c) fd p"
  shows "quiet fd c p c' p' es"
proof -
  obtain w where w: "conn_writing c p = Inr w" using assms(1) by (auto simp: handleWrite_def bind_r_eq_Inr)
  have wr: "w \<longleftrightarrow> writing c p"
    using w by (auto simp: conn_writing_def writing_def requested_mask_def isWriting_bit split: option.splits)
  show ?thesis
  proof (cases w)
    case False
    then show ?thesis using assms w by (auto simp: handleWrite_def intro!: quiet_id)
  next
    case True
    then obtain n e out where f: "writeFd wr (tc_out c) = Inr (n, e, out)"
      using assms(1) w by (auto simp: handleWrite_def bind_r_eq_Inr)
    define c1 where "c1 = c\<lparr>tc_wire := tc_wire c @ out, tc_out := retrieve (nat n) (tc_out c)\<rparr>"
    show ?thesis
    proof (cases "n > 0 \<and> readableBytes (tc_out c1) = 0")
      case True
      then obtain p1 where p1: "channel_op False DisableWriting (tc_addr c) p = Inr p1"
        using assms(1) w f \<open>w\<close> by (auto simp: handleWrite_def Let_def bind_r_eq_Inr c1_def)
      then have "p' = p1 \<and> tc_addr c' = tc_addr c \<and> tc_state c' = tc_state c \<and> life es = []"
        using assms(1) w f \<open>w\<close> True
        by (auto simp: handleWrite_def c1_def Let_def shutdownInLoop_def bind_r_eq_Inr split: if_splits)
      then show ?thesis using channel_op_local[OF p1 assms(2)] wr \<open>w\<close> by (simp add: quiet_def del: mask_op.simps)
    next
      case False
      then have "p' = p \<and> tc_addr c' = tc_addr c \<and> tc_state c' = tc_state c \<and> life es = []"
        using assms(1) w f \<open>w\<close> by (auto simp: handleWrite_def c1_def Let_def split: if_splits)
      then show ?thesis using assms(2) by (simp add: quiet_id)
    qed
  qed
qed

lemma handleClose_closing:
  "handleClose c p = Inr (c', p', es) \<Longrightarrow> owns (tc_addr c) fd p \<Longrightarrow> closing fd c p c' p' es"
  using channel_op_local[of False DisableAll "tc_addr c" p p' fd]
  by (auto simp: handleClose_def bind_r_eq_Inr closing_def setState_def kNoneEvent_def)

lemma handleRead_change:
  assumes "handleRead rv t c p = Inr (c', p', es)" "owns (tc_addr c) fd p"
  shows "quiet fd c p c' p' es \<or> closing fd c p c' p' es"
proof -
  obtain n e b where b: "readFd rv (tc_in c) = Inr (n, e, b)" using assms(1) by (auto simp: handleRead_def bind_r_eq_Inr)
  let ?c1 = "c\<lparr>tc_in := b\<rparr>"
  have "closing fd ?c1 p c' p' es" if "n = 0"
    using assms b that handleClose_closing[of ?c1 p c' p' es fd] by (simp add: handleRead_def)
  moreover have "quiet fd c p c' p' es" if "n \<noteq> 0"
    using assms b that by (cases "n > 0") (auto simp: handleRead_def handleError_def Let_def intro!: quiet_id)
  ultimately show ?thesis by (cases "n = 0") (auto simp: closing_def)
qed

section \<open>Events\<close>

text \<open>
  A report that would run the close callback and the read callback: a hang-up with urgent data but
  without \<open>EPOLLIN\<close>. A TCP socket that is hung up is always readable, so the kernel does not make it.
\<close>

fun single_end :: "conn_event \<Rightarrow> bool" where
  "single_end (Reported now re rv wr) \<longleftrightarrow> \<not> (re AND EPOLLHUP \<noteq> 0 \<and> re AND EPOLLIN = 0 \<and> re AND EPOLLPRI \<noteq> 0)"
| "single_end _ \<longleftrightarrow> True"

fun may_end :: "callback \<Rightarrow> bool" where
  "may_end CloseCb = True"
| "may_end (ReadCb t) = True"
| "may_end _ = False"

lemma conn_callback_change:
  assumes "conn_callback rv wr cb c p = Inr (c', p', es)" "owns (tc_addr c) fd p"
  shows "quiet fd c p c' p' es \<or> may_end cb \<and> closing fd c p c' p' es"
  using assms handleRead_change handleWrite_quiet handleClose_closing
  by (cases cb) (auto simp: handleError_def intro!: quiet_id)

lemma run_conn_callbacks_change:
  assumes "run_conn_callbacks rv wr cbs c p = Inr (c', p', es)" "owns (tc_addr c) fd p" "length (filter may_end cbs) \<le> 1"
  shows "quiet fd c p c' p' es \<or> filter may_end cbs \<noteq> [] \<and> closing fd c p c' p' es"
  using assms
proof (induction cbs arbitrary: c p es)
  case Nil
  then show ?case by (auto intro!: quiet_id)
next
  case (Cons cb cbs)
  from Cons.prems(1) obtain c1 p1 e1 e2 where 1: "conn_callback rv wr cb c p = Inr (c1, p1, e1)"
      "run_conn_callbacks rv wr cbs c1 p1 = Inr (c', p', e2)" "es = e1 @ e2"
    by (auto simp: bind_r_eq_Inr)
  have h: "quiet fd c p c1 p1 e1 \<or> may_end cb \<and> closing fd c p c1 p1 e1" by (rule conn_callback_change[OF 1(1) Cons.prems(2)])
  then have "owns (tc_addr c1) fd p1" by (auto simp: quiet_def closing_def)
  then have t: "quiet fd c1 p1 c' p' e2 \<or> filter may_end cbs \<noteq> [] \<and> closing fd c1 p1 c' p' e2"
    using Cons.IH[OF 1(2)] Cons.prems(3) by (auto split: if_splits)
  show ?case
  proof (cases "may_end cb")
    case True
    then have "filter may_end cbs = []" using Cons.prems(3) by simp
    then show ?thesis using h t True quiet_trans closing_quiet unfolding 1(3) by auto
  next
    case False
    then show ?thesis using h t quiet_trans quiet_closing unfolding 1(3) by auto
  qed
qed

lemma channel_event_change:
  assumes "channel_event now re rv wr c p = Inr (c', p', es)" "owns (tc_addr c) fd p" "single_end (Reported now re rv wr)"
  shows "quiet fd c p c' p' es \<or> closing fd c p c' p' es"
proof -
  obtain ch where ch: "heap p (tc_addr c) = Some ch" "ch_fd ch = fd" using assms(2) by (auto simp: owns_def)
  define q where "q = p\<lparr>heap := (heap p)(tc_addr c \<mapsto> set_revents re ch)\<rparr>"
  have q: "local_to (tc_addr c) fd p q" "owns (tc_addr c) fd q" "requested_mask (tc_addr c) q = requested_mask (tc_addr c) p"
    using set_channel_local[OF assms(2), of "set_revents re ch"] ch by (auto simp: q_def set_revents_def requested_mask_def)
  have r: "run_conn_callbacks rv wr (handleEvent True now (set_revents re ch)) c q = Inr (c', p', es)"
    using assms(1) ch by (simp add: channel_event_def q_def)
  have "re AND (EPOLLIN OR EPOLLPRI) = (re AND EPOLLIN) OR (re AND EPOLLPRI)" by (simp add: bit.conj_disj_distrib)
  then have "length (filter may_end (handleEvent True now (set_revents re ch))) \<le> 1"
    using assms(3) by (auto simp: handleEvent_def handleEventWithGuard_def set_revents_def Let_def)
  from run_conn_callbacks_change[OF r q(2) this] show ?thesis using q local_trans[OF q(1)]
    by (auto simp: quiet_def closing_def writing_def)
qed

lemma conn_step_change:
  assumes "conn_step e c p = Inr (c', p', es)" "owns (tc_addr c) fd p" "single_end e"
  shows "quiet fd c p c' p' es \<or> (\<exists>now re rv wr. e = Reported now re rv wr) \<and> closing fd c p c' p' es"
proof (cases e)
  case (Reported now re rv wr)
  then show ?thesis using channel_event_change assms by simp
next
  case (UserSend wr d)
  then show ?thesis using assms sendInLoop_quiet[OF _ assms(2)]
    by (auto simp: send_string_def bind_r_eq_Inr split: if_splits intro!: quiet_id)
next
  case (UserSendFile sf f n)
  have "quiet fd c p c' p' es" if "sendFileInLoop sf (c\<lparr>tc_sendFd := f, tc_sendLen := n\<rparr>) p = Inr (c', p', es)"
    using sendFileInLoop_quiet[OF that] assms(2) by (simp add: quiet_def writing_def)
  then show ?thesis using UserSendFile assms
    by (auto simp: sendFile_def Let_def bind_r_eq_Inr split: if_splits intro!: quiet_id)
next
  case UserShutdown
  then show ?thesis using assms
    by (auto simp: shutdown_def shutdownInLoop_def setState_def Let_def bind_r_eq_Inr quiet_def split: if_splits)
qed

section \<open>Birth and death\<close>

lemma new_conn_ok:
  assumes "poller_inv p" "heap p a = None" "channels p fd = None" "new_TcpConnection False nm fd a p = Inr (c, q, es)"
  shows "conn_inv c q \<and> local_to a fd p q \<and> owns a fd q \<and> tc_addr c = a \<and> tc_state c = kConnecting \<and> requested_mask a q = 0 \<and> life es = []"
proof -
  define ch where "ch = setErrorCallback (setCloseCallback (setWriteCallback (setReadCallback (new_Channel fd))))"
  have ch: "ch_fd ch = fd" "ch_events ch = 0" "ch_index ch = ch_index (new_Channel fd)" "ch_fd (new_Channel fd) = fd" "ch_events (new_Channel fd) = 0"
    by (simp_all add: ch_def new_Channel_def setErrorCallback_def setCloseCallback_def setWriteCallback_def setReadCallback_def)
  have q: "q = p\<lparr>heap := (heap p)(a \<mapsto> ch)\<rparr>" "tc_addr c = a" "tc_state c = kConnecting" "tc_in c = new_Buffer kInitialSize"
      "tc_out c = new_Buffer kInitialSize" "life es = []"
    using assms(4) by (auto simp: new_TcpConnection_def ch_def)
  have "poller_inv (p\<lparr>heap := (heap p)(a \<mapsto> new_Channel fd)\<rparr>)" by (rule poller_step_inv[OF step_new[OF assms(2)] assms(1)])
  moreover have "same_registration (p\<lparr>heap := (heap p)(a \<mapsto> new_Channel fd)\<rparr>) q" using ch by (auto simp: q(1) same_registration_def)
  ultimately have "poller_inv q" by (rule same_registration_inv[rotated])
  moreover have "interest p fd = None"
    using poller_invD(2)[OF assms(1), of fd] poller_invD(1)[OF assms(1)] assms(3) by (cases "interest p fd") (fastforce simp: channel_ok_def)+
  ultimately show ?thesis using q ch assms(3)
    by (simp add: conn_inv_def fd_free_def requested_mask_def watched_mask_def local_to_def owns_def kInitialSize_def new_Buffer_inv vector_max_size_def)
qed

lemma established_ok:
  assumes "conn_inv c p" "owns (tc_addr c) fd p" "tc_state c = kConnecting"
  shows "\<exists>c' q. connectEstablished c p = Inr (c', q, [CallConnection kConnected]) \<and> conn_inv c' q \<and> local_to (tc_addr c) fd p q \<and>
    owns (tc_addr c) fd q \<and> tc_addr c' = tc_addr c \<and> tc_state c' = kConnected \<and> reading c' q"
proof -
  obtain ch where ch: "heap p (tc_addr c) = Some ch" "ch_fd ch = fd" using assms(2) by (auto simp: owns_def)
  define p1 where "p1 = p\<lparr>heap := (heap p)(tc_addr c \<mapsto> tie ch)\<rparr>"
  have l: "local_to (tc_addr c) fd p p1" "owns (tc_addr c) fd p1"
    using set_channel_local[OF assms(2), of "tie ch"] ch by (auto simp: p1_def tie_def)
  have "same_registration p p1" using ch by (auto simp: p1_def same_registration_def tie_def)
  then have i: "conn_inv c p1" using conn_inv_same assms(1) by blast
  obtain q where q: "channel_op False EnableReading (tc_addr c) p1 = Inr q" "poller_inv q" "fd_free (tc_addr c) q"
      "watched_mask (tc_addr c) q = requested_mask (tc_addr c) q"
    using ep.apply_ok[of p1 "tc_addr c" EnableReading] i by (auto simp: conn_inv_def)
  have m: "local_to (tc_addr c) fd p1 q" "owns (tc_addr c) fd q" "requested_mask (tc_addr c) q = mask_op EnableReading (requested_mask (tc_addr c) p1)"
    using channel_op_local[OF q(1) l(2)] by auto
  then have "bit (requested_mask (tc_addr c) q) 0" "bit (requested_mask (tc_addr c) q) 2 = bit (requested_mask (tc_addr c) p1) 2"
    by (simp_all add: bit_simps kReadEvent_def mask_bits)
  then have "conn_inv (setState kConnected c) q" using i q assms(3) by (simp add: conn_inv_def setState_def writing_def)
  then show ?thesis using q(1) ch m l local_trans[OF l(1) m(1)] \<open>bit (requested_mask (tc_addr c) q) 0\<close>
    by (simp add: connectEstablished_def p1_def setState_def)
qed

lemma destroyed_ok:
  assumes "conn_inv c p" "owns (tc_addr c) fd p" "tc_state c = kDisconnected"
  shows "\<exists>p1 q. connectDestroyed c p = Inr (c, p1, []) \<and> q = p1\<lparr>heap := (heap p1)(tc_addr c := None)\<rparr> \<and> poller_inv q \<and>
    local_to (tc_addr c) fd p q \<and> heap q (tc_addr c) = None \<and> channels q fd = None"
proof -
  obtain ch where ch: "heap p (tc_addr c) = Some ch" "ch_fd ch = fd" using assms(2) by (auto simp: owns_def)
  obtain p1 where p1: "removeChannel False (tc_addr c) p = Inr p1" "poller_inv p1"
    using ep.drop_ok[of p "tc_addr c"] assms(1) by (auto simp: conn_inv_def)
  have h: "heap p1 (tc_addr c) = Some (set_index kNew ch)" "channels p1 fd = None"
    using p1(1) ch by (auto simp: removeChannel_def Let_def bind_r_eq_Inr split: if_splits dest!: update_local)
  define q where "q = p1\<lparr>heap := (heap p1)(tc_addr c := None)\<rparr>"
  have "poller_inv q" unfolding q_def by (rule poller_step_inv[OF step_destroy[OF h(1)] p1(2)]) simp
  moreover have "local_to (tc_addr c) fd p1 q" by (simp add: q_def local_to_def)
  then have "local_to (tc_addr c) fd p q" using removeChannel_local[OF p1(1) assms(2)] local_trans by blast
  ultimately show ?thesis using p1(1) assms(3) h(2) by (auto simp: connectDestroyed_def q_def)
qed

end
