(* ===== verification/Server_Loops.thy ===== *)
theory Server_Loops
  imports Conn_Frame Tcp_Server
begin

text \<open>
  The server with its loops: what \<open>TcpServer\<close> passes to \<open>runInLoop\<close> and \<open>queueInLoop\<close> is queued and run
  here, so that a connection can be followed from \<open>accept\<close> over its establishment in an I/O loop, its
  events, its removal from the table in the base loop, to its destruction back in the I/O loop.
  Every loop has its poller and its queue of functors; the threads of the loops interleave at the
  granularity of functors and events. Descriptors and addresses are reused once they are free.
\<close>

section \<open>State\<close>

text \<open>
  The functors hold the connection by its name; the names of all connections of a server are
  different. \<open>sl_conns\<close> are the objects that exist, \<open>sl_history\<close> the effects of each connection so far.
\<close>

datatype server_functor = Establish string | RemoveConn string | Destroy string

record server_loops =
  sl_server :: TcpServer
  sl_queues :: "nat \<Rightarrow> server_functor list"
  sl_pollers :: "nat \<Rightarrow> Poller"
  sl_conns :: "string \<rightharpoonup> conn_obj \<times> TcpConnection"
  sl_history :: "string \<Rightarrow> tc_effect list"

abbreviation base_loop :: "server_loops \<Rightarrow> nat" where
  "base_loop s \<equiv> ts_loop (sl_server s)"

section \<open>Operations\<close>

definition queue_in_loop :: "nat \<Rightarrow> server_functor \<Rightarrow> server_loops \<Rightarrow> server_loops" where
  "queue_in_loop l f s = s\<lparr>sl_queues := (sl_queues s)(l := sl_queues s l @ [f])\<rparr>"

text \<open>An operation of a connection on the poller of its loop.\<close>

definition set_conn :: "string \<Rightarrow> conn_obj \<Rightarrow> TcpConnection \<Rightarrow> Poller \<Rightarrow> tc_effect list \<Rightarrow> server_loops \<Rightarrow> server_loops" where
  "set_conn n co c p es s =
     s\<lparr>sl_conns := (sl_conns s)(n \<mapsto> (co, c)), sl_pollers := (sl_pollers s)(co_loop co := p),
       sl_history := (sl_history s)(n := sl_history s n @ es)\<rparr>"

definition with_conn :: "(TcpConnection \<Rightarrow> Poller \<Rightarrow> tc_result) \<Rightarrow> string \<Rightarrow> server_loops \<Rightarrow> (server_loops \<times> tc_effect list) result" where
  "with_conn f n s =
     (case sl_conns s n of None \<Rightarrow> Inl UseAfterFree
      | Some (co, c) \<Rightarrow> bind_r (f c (sl_pollers s (co_loop co))) (\<lambda>(c', p', es). Inr (set_conn n co c' p' es s, es)))"

definition establish :: "string \<Rightarrow> server_loops \<Rightarrow> server_loops result" where
  "establish n s = bind_r (with_conn connectEstablished n s) (\<lambda>(s', es). Inr s')"

text \<open>
  \<open>TcpServer::newConnection\<close> in the base loop: the object is built and its establishment is run at once
  when its loop is the base loop, else queued. \<open>a\<close> is the address of the new channel.
\<close>

definition accept_conn :: "InetAddress option \<Rightarrow> int \<Rightarrow> InetAddress \<Rightarrow> addr \<Rightarrow> server_loops \<Rightarrow> server_loops result" where
  "accept_conn sockname fd peer a s =
     bind_r (newConnection sockname fd peer (sl_server s)) (\<lambda>(effects, srv).
       case effects of
         [RunEstablished l co] \<Rightarrow>
           bind_r (new_TcpConnection False (co_name co) fd a (sl_pollers s l)) (\<lambda>(c, p, es).
             let s1 = set_conn (co_name co) co c p es (s\<lparr>sl_server := srv\<rparr>) in
             if l = base_loop s then establish (co_name co) s1 else Inr (queue_in_loop l (Establish (co_name co)) s1))
       | _ \<Rightarrow> Inl Undefined)"

text \<open>\<open>removeConnectionInLoop\<close>: the table forgets the connection, its destruction is always queued.\<close>

definition remove_conn :: "string \<Rightarrow> server_loops \<Rightarrow> server_loops result" where
  "remove_conn n s =
     (case sl_conns s n of None \<Rightarrow> Inl UseAfterFree
      | Some (co, c) \<Rightarrow> Inr (queue_in_loop (co_loop co) (Destroy n) (s\<lparr>sl_server := snd (removeConnectionInLoop co (sl_server s))\<rparr>)))"

text \<open>\<open>removeConnection\<close>, the close callback of a connection, called in the loop of the connection.\<close>

definition remove_request :: "string \<Rightarrow> server_loops \<Rightarrow> server_loops result" where
  "remove_request n s =
     (case sl_conns s n of None \<Rightarrow> Inl UseAfterFree
      | Some (co, c) \<Rightarrow> if co_loop co = base_loop s then remove_conn n s else Inr (queue_in_loop (base_loop s) (RemoveConn n) s))"

text \<open>
  \<open>connectDestroyed\<close>; the functor holds the last reference, so the connection goes with it: its channel
  is freed and its descriptor closed.
\<close>

definition destroy_conn :: "string \<Rightarrow> server_loops \<Rightarrow> server_loops result" where
  "destroy_conn n s =
     bind_r (with_conn connectDestroyed n s) (\<lambda>(s1, es).
       case sl_conns s1 n of None \<Rightarrow> Inl UseAfterFree
       | Some (co, c) \<Rightarrow>
           let p = sl_pollers s1 (co_loop co) in
           Inr (s1\<lparr>sl_conns := (sl_conns s1)(n := None),
                   sl_pollers := (sl_pollers s1)(co_loop co := p\<lparr>heap := (heap p)(tc_addr c := None)\<rparr>)\<rparr>))"

text \<open>An event of a connection, and the close callbacks it makes.\<close>

fun run_closes :: "nat \<Rightarrow> string \<Rightarrow> server_loops \<Rightarrow> server_loops result" where
  "run_closes 0 n s = Inr s"
| "run_closes (Suc k) n s = bind_r (remove_request n s) (run_closes k n)"

definition event_in_loop :: "string \<Rightarrow> conn_event \<Rightarrow> server_loops \<Rightarrow> server_loops result" where
  "event_in_loop n e s =
     bind_r (with_conn (conn_step e) n s) (\<lambda>(s1, es). run_closes (count_list es CallClose) n s1)"

text \<open>A loop runs the functor at the head of its queue.\<close>

fun run_server_functor :: "server_functor \<Rightarrow> server_loops \<Rightarrow> server_loops result" where
  "run_server_functor (Establish n) s = establish n s"
| "run_server_functor (RemoveConn n) s = remove_conn n s"
| "run_server_functor (Destroy n) s = destroy_conn n s"

definition run_head :: "nat \<Rightarrow> server_loops \<Rightarrow> server_loops result" where
  "run_head l s =
     (case sl_queues s l of [] \<Rightarrow> Inr s
      | f # fs \<Rightarrow> run_server_functor f (s\<lparr>sl_queues := (sl_queues s)(l := fs)\<rparr>))"

section \<open>Interleavings\<close>

text \<open>
  \<open>P0\<close> are the pollers before the first connection, with the channels of the loops themselves. The
  kernel gives \<open>accept\<close> a descriptor that is not open, the allocator an address that is not in use.
  Events are reported for registered descriptors only; the user calls a connection's operations once
  the connection callback has given it out.
\<close>

definition unused :: "(nat \<Rightarrow> Poller) \<Rightarrow> int \<Rightarrow> addr \<Rightarrow> server_loops \<Rightarrow> bool" where
  "unused P0 fd a s \<longleftrightarrow> (\<forall>l. channels (P0 l) fd = None \<and> heap (P0 l) a = None) \<and>
     (\<forall>n co c. sl_conns s n = Some (co, c) \<longrightarrow> co_fd co \<noteq> fd \<and> tc_addr c \<noteq> a)"

fun event_possible :: "TcpConnection \<Rightarrow> Poller \<Rightarrow> conn_event \<Rightarrow> bool" where
  "event_possible c p (Reported now re rv wr) \<longleftrightarrow> watched_mask (tc_addr c) p \<noteq> 0"
| "event_possible c p e \<longleftrightarrow> tc_state c \<noteq> kConnecting"

inductive sl_reach :: "(nat \<Rightarrow> Poller) \<Rightarrow> server_loops \<Rightarrow> bool" for P0 where
  sl_start: "new_TcpServer False base (new_InetAddress port ip) name opt lfd bf ch p = Inr (s0, calls, p') \<Longrightarrow>
     srv = snd (start new_loop cb (setThreadNum k s0)) \<Longrightarrow> (\<And>l. poller_inv (P0 l)) \<Longrightarrow>
     sl_reach P0 \<lparr>sl_server = srv, sl_queues = \<lambda>_. [], sl_pollers = P0, sl_conns = Map.empty, sl_history = \<lambda>_. []\<rparr>"
| sl_accept: "sl_reach P0 s \<Longrightarrow> nextConnId (sl_server s) < 2 ^ 31 - 1 \<Longrightarrow> unused P0 fd a s \<Longrightarrow>
     accept_conn sn fd peer a s = Inr s' \<Longrightarrow> sl_reach P0 s'"
| sl_run: "sl_reach P0 s \<Longrightarrow> run_head l s = Inr s' \<Longrightarrow> sl_reach P0 s'"
| sl_event: "sl_reach P0 s \<Longrightarrow> sl_conns s n = Some (co, c) \<Longrightarrow> event_ok c e \<Longrightarrow> single_end e \<Longrightarrow>
     event_possible c (sl_pollers s (co_loop co)) e \<Longrightarrow> event_in_loop n e s = Inr s' \<Longrightarrow> sl_reach P0 s'"

section \<open>Invariant\<close>

text \<open>The phases of a connection, by its state, the functors that wait for it and what it has reported.\<close>

definition pending :: "server_loops \<Rightarrow> string \<Rightarrow> conn_obj \<Rightarrow> nat \<times> nat \<times> nat" where
  "pending s n co = (count_list (sl_queues s (co_loop co)) (Establish n), count_list (sl_queues s (base_loop s)) (RemoveConn n),
     count_list (sl_queues s (co_loop co)) (Destroy n))"

definition phase_ok :: "server_loops \<Rightarrow> string \<Rightarrow> conn_obj \<Rightarrow> TcpConnection \<Rightarrow> bool" where
  "phase_ok s n co c \<longleftrightarrow>
     (let h = life (sl_history s n); listed = (connections (sl_server s) n = Some co);
          r = requested_mask (tc_addr c) (sl_pollers s (co_loop co)) in
      case tc_state c of
        kConnecting \<Rightarrow> pending s n co = (1, 0, 0) \<and> listed \<and> h = [] \<and> r = 0
      | kDisconnected \<Rightarrow> (pending s n co = (0, 1, 0) \<and> listed \<or> pending s n co = (0, 0, 1) \<and> connections (sl_server s) n = None) \<and>
          h = [CallConnection kConnected, CallConnection kDisconnected, CallClose] \<and> r = 0
      | _ \<Rightarrow> pending s n co = (0, 0, 0) \<and> listed \<and> h = [CallConnection kConnected] \<and> bit r 0)"

definition named_before :: "TcpServer \<Rightarrow> string \<Rightarrow> bool" where
  "named_before srv n \<longleftrightarrow> (\<exists>i. 0 < i \<and> i < nextConnId srv \<and> n = conn_name (srv\<lparr>nextConnId := i\<rparr>))"

definition conn_ok :: "server_loops \<Rightarrow> string \<Rightarrow> conn_obj \<Rightarrow> TcpConnection \<Rightarrow> bool" where
  "conn_ok s n co c \<longleftrightarrow> conn_inv c (sl_pollers s (co_loop co)) \<and> owns (tc_addr c) (co_fd co) (sl_pollers s (co_loop co)) \<and> phase_ok s n co c"

fun target :: "server_functor \<Rightarrow> string" where
  "target (Establish n) = n"
| "target (RemoveConn n) = n"
| "target (Destroy n) = n"

fun home :: "nat \<Rightarrow> conn_obj \<Rightarrow> server_functor \<Rightarrow> nat" where
  "home base co (RemoveConn n) = base"
| "home base co f = co_loop co"

text \<open>What holds of the server, the queues and the pollers, whatever the phases are.\<close>

definition sl_core :: "(nat \<Rightarrow> Poller) \<Rightarrow> server_loops \<Rightarrow> bool" where
  "sl_core P0 s \<longleftrightarrow> server_inv (sl_server s) \<and> (\<forall>l. poller_inv (sl_pollers s l)) \<and>
     (\<forall>n co c. sl_conns s n = Some (co, c) \<longrightarrow> co_name co = n \<and> named_before (sl_server s) n \<and>
        (\<forall>l. channels (P0 l) (co_fd co) = None \<and> heap (P0 l) (tc_addr c) = None)) \<and>
     (\<forall>m n co c co' c'. sl_conns s m = Some (co, c) \<longrightarrow> sl_conns s n = Some (co', c') \<longrightarrow> m \<noteq> n \<longrightarrow>
        co_fd co \<noteq> co_fd co' \<and> tc_addr c \<noteq> tc_addr c') \<and>
     (\<forall>l fd. (\<forall>n co c. sl_conns s n = Some (co, c) \<longrightarrow> co_loop co = l \<longrightarrow> co_fd co \<noteq> fd) \<longrightarrow>
        channels (sl_pollers s l) fd = channels (P0 l) fd) \<and>
     (\<forall>l a. (\<forall>n co c. sl_conns s n = Some (co, c) \<longrightarrow> co_loop co = l \<longrightarrow> tc_addr c \<noteq> a) \<longrightarrow>
        heap (sl_pollers s l) a = heap (P0 l) a) \<and>
     (\<forall>l f. f \<in> set (sl_queues s l) \<longrightarrow> (\<exists>co c. sl_conns s (target f) = Some (co, c) \<and> l = home (base_loop s) co f)) \<and>
     (\<forall>n co. connections (sl_server s) n = Some co \<longrightarrow> (\<exists>c. sl_conns s n = Some (co, c))) \<and>
     (\<forall>n. sl_conns s n = None \<longrightarrow> (life (sl_history s n) = [] \<or>
        life (sl_history s n) = [CallConnection kConnected, CallConnection kDisconnected, CallClose] \<and> named_before (sl_server s) n))"

text \<open>The invariant, with the connections of \<open>X\<close> in the middle of a change.\<close>

definition sl_inv :: "string set \<Rightarrow> (nat \<Rightarrow> Poller) \<Rightarrow> server_loops \<Rightarrow> bool" where
  "sl_inv X P0 s \<longleftrightarrow> sl_core P0 s \<and> (\<forall>n co c. n \<notin> X \<longrightarrow> sl_conns s n = Some (co, c) \<longrightarrow> conn_ok s n co c)"

section \<open>Lemmas: one change at a time\<close>

lemma sl_invD:
  assumes "sl_inv X P0 s"
  shows "sl_core P0 s" "n \<notin> X \<Longrightarrow> sl_conns s n = Some (co, c) \<Longrightarrow> conn_ok s n co c"
  using assms by (auto simp: sl_inv_def)

lemma sl_inv_finish: "sl_inv (insert n X) P0 s \<Longrightarrow> (\<And>co c. sl_conns s n = Some (co, c) \<Longrightarrow> conn_ok s n co c) \<Longrightarrow> sl_inv X P0 s"
  unfolding sl_inv_def by (metis insert_iff)

lemma sl_inv_widen: "sl_inv X P0 s \<Longrightarrow> sl_inv (insert n X) P0 s"
  by (auto simp: sl_inv_def)

lemma sl_coreD:
  assumes "sl_core P0 s"
  shows "server_inv (sl_server s)" "poller_inv (sl_pollers s l)"
    "sl_conns s n = Some (co, c) \<Longrightarrow> co_name co = n \<and> named_before (sl_server s) n"
    "sl_conns s n = Some (co, c) \<Longrightarrow> channels (P0 l) (co_fd co) = None \<and> heap (P0 l) (tc_addr c) = None"
    "sl_conns s n = Some (co, c) \<Longrightarrow> sl_conns s m = Some (co', c') \<Longrightarrow> n \<noteq> m \<Longrightarrow> co_fd co \<noteq> co_fd co' \<and> tc_addr c \<noteq> tc_addr c'"
    "(\<And>n co c. sl_conns s n = Some (co, c) \<Longrightarrow> co_loop co = l \<Longrightarrow> co_fd co \<noteq> fd) \<Longrightarrow> channels (sl_pollers s l) fd = channels (P0 l) fd"
    "(\<And>n co c. sl_conns s n = Some (co, c) \<Longrightarrow> co_loop co = l \<Longrightarrow> tc_addr c \<noteq> a) \<Longrightarrow> heap (sl_pollers s l) a = heap (P0 l) a"
    "f \<in> set (sl_queues s l) \<Longrightarrow> \<exists>co c. sl_conns s (target f) = Some (co, c) \<and> l = home (base_loop s) co f"
    "connections (sl_server s) n = Some co \<Longrightarrow> \<exists>c. sl_conns s n = Some (co, c)"
    "sl_conns s n = None \<Longrightarrow> life (sl_history s n) = [] \<or>
        life (sl_history s n) = [CallConnection kConnected, CallConnection kDisconnected, CallClose] \<and> named_before (sl_server s) n"
  using assms unfolding sl_core_def by blast+

text \<open>Building the core of a new state; the parts are given one by one.\<close>

lemma sl_coreI:
  assumes "server_inv (sl_server s)" "\<And>l. poller_inv (sl_pollers s l)"
    "\<And>n co c. sl_conns s n = Some (co, c) \<Longrightarrow> co_name co = n \<and> named_before (sl_server s) n"
    "\<And>n co c l. sl_conns s n = Some (co, c) \<Longrightarrow> channels (P0 l) (co_fd co) = None \<and> heap (P0 l) (tc_addr c) = None"
    "\<And>m n co c co' c'. sl_conns s n = Some (co, c) \<Longrightarrow> sl_conns s m = Some (co', c') \<Longrightarrow> n \<noteq> m \<Longrightarrow> co_fd co \<noteq> co_fd co' \<and> tc_addr c \<noteq> tc_addr c'"
    "\<And>l fd. (\<And>n co c. sl_conns s n = Some (co, c) \<Longrightarrow> co_loop co = l \<Longrightarrow> co_fd co \<noteq> fd) \<Longrightarrow> channels (sl_pollers s l) fd = channels (P0 l) fd"
    "\<And>l a. (\<And>n co c. sl_conns s n = Some (co, c) \<Longrightarrow> co_loop co = l \<Longrightarrow> tc_addr c \<noteq> a) \<Longrightarrow> heap (sl_pollers s l) a = heap (P0 l) a"
    "\<And>l f. f \<in> set (sl_queues s l) \<Longrightarrow> \<exists>co c. sl_conns s (target f) = Some (co, c) \<and> l = home (base_loop s) co f"
    "\<And>n co. connections (sl_server s) n = Some co \<Longrightarrow> \<exists>c. sl_conns s n = Some (co, c)"
    "\<And>n. sl_conns s n = None \<Longrightarrow> life (sl_history s n) = [] \<or>
        life (sl_history s n) = [CallConnection kConnected, CallConnection kDisconnected, CallClose] \<and> named_before (sl_server s) n"
  shows "sl_core P0 s"
  unfolding sl_core_def
  by (intro conjI allI impI) (rule assms(10), assumption | blast intro: assms(1,2,6-9) assms(3)[THEN conjunct1] assms(3)[THEN conjunct2]
      assms(4)[THEN conjunct1] assms(4)[THEN conjunct2] dest: assms(5))+

lemma set_conn_sel [simp]:
  "sl_server (set_conn n co c p es s) = sl_server s" "sl_queues (set_conn n co c p es s) = sl_queues s"
  "sl_pollers (set_conn n co c p es s) = (sl_pollers s)(co_loop co := p)"
  "sl_conns (set_conn n co c p es s) = (sl_conns s)(n \<mapsto> (co, c))"
  "sl_history (set_conn n co c p es s) = (sl_history s)(n := sl_history s n @ es)"
  by (simp_all add: set_conn_def)

lemma queue_in_loop_sel [simp]:
  "sl_server (queue_in_loop l f s) = sl_server s" "sl_queues (queue_in_loop l f s) = (sl_queues s)(l := sl_queues s l @ [f])"
  "sl_pollers (queue_in_loop l f s) = sl_pollers s" "sl_conns (queue_in_loop l f s) = sl_conns s" "sl_history (queue_in_loop l f s) = sl_history s"
  by (simp_all add: queue_in_loop_def)

text \<open>The phase of a connection only depends on what is its own.\<close>

lemma conn_ok_cong:
  assumes "conn_ok s m co c" "ts_loop (sl_server s') = ts_loop (sl_server s)"
    and "conn_inv c (sl_pollers s' (co_loop co))" "owns (tc_addr c) (co_fd co) (sl_pollers s' (co_loop co))"
      "requested_mask (tc_addr c) (sl_pollers s' (co_loop co)) = requested_mask (tc_addr c) (sl_pollers s (co_loop co))"
    and "\<And>l f. target f = m \<Longrightarrow> count_list (sl_queues s' l) f = count_list (sl_queues s l) f"
      "sl_history s' m = sl_history s m" "connections (sl_server s') m = connections (sl_server s) m"
  shows "conn_ok s' m co c"
  using assms(1-5,7,8) assms(6)[of "Establish m"] assms(6)[of "RemoveConn m"] assms(6)[of "Destroy m"]
  by (cases "tc_state c") (simp_all add: conn_ok_def phase_ok_def pending_def Let_def)

lemma set_conn_inv:
  assumes inv: "sl_inv X P0 s" "sl_conns s n = Some (co, c)"
    and op: "tc_addr c' = tc_addr c" "local_to (tc_addr c) (co_fd co) (sl_pollers s (co_loop co)) p'" "poller_inv p'"
  shows "sl_inv (insert n X) P0 (set_conn n co c' p' es s)"
proof -
  note core = sl_invD(1)[OF inv(1)]
  let ?s = "set_conn n co c' p' es s"
  have conns: "\<exists>c1. sl_conns s m = Some (co1, c1) \<and> tc_addr c1 = tc_addr c2" if "sl_conns ?s m = Some (co1, c2)" for m co1 c2
    using that inv(2) op(1) by (auto split: if_splits)
  have "sl_core P0 ?s"
  proof (rule sl_coreI)
    show "channels (sl_pollers ?s l) fd = channels (P0 l) fd"
      if u: "\<And>m co1 c1. sl_conns ?s m = Some (co1, c1) \<Longrightarrow> co_loop co1 = l \<Longrightarrow> co_fd co1 \<noteq> fd" for l fd
    proof -
      have "co_fd co1 \<noteq> fd" if "sl_conns s m = Some (co1, c1)" "co_loop co1 = l" for m co1 c1
        using u[of m co1 c1] u[of n co c'] that inv(2) by (cases "m = n") auto
      then have "channels (sl_pollers s l) fd = channels (P0 l) fd" using sl_coreD(6)[OF core] by blast
      moreover have "l = co_loop co \<Longrightarrow> fd \<noteq> co_fd co" using u[of n co c'] by auto
      ultimately show ?thesis using op(2) by (auto simp: local_to_def)
    qed
    show "heap (sl_pollers ?s l) a = heap (P0 l) a"
      if u: "\<And>m co1 c1. sl_conns ?s m = Some (co1, c1) \<Longrightarrow> co_loop co1 = l \<Longrightarrow> tc_addr c1 \<noteq> a" for l a
    proof -
      have "tc_addr c1 \<noteq> a" if "sl_conns s m = Some (co1, c1)" "co_loop co1 = l" for m co1 c1
        using u[of m co1 c1] u[of n co c'] that inv(2) op(1) by (cases "m = n") auto
      then have "heap (sl_pollers s l) a = heap (P0 l) a" using sl_coreD(7)[OF core] by blast
      moreover have "l = co_loop co \<Longrightarrow> a \<noteq> tc_addr c" using u[of n co c'] op(1) by auto
      ultimately show ?thesis using op(2) by (auto simp: local_to_def)
    qed
    show "\<exists>co1 c1. sl_conns ?s (target f) = Some (co1, c1) \<and> l = home (base_loop ?s) co1 f" if "f \<in> set (sl_queues ?s l)" for l f
      using sl_coreD(8)[OF core] that inv(2) by fastforce
    show "\<exists>c1. sl_conns ?s m = Some (co1, c1)" if "connections (sl_server ?s) m = Some co1" for m co1
      using sl_coreD(9)[OF core] that inv(2) by fastforce
    show "co_name co1 = m \<and> named_before (sl_server ?s) m" if "sl_conns ?s m = Some (co1, c1)" for m co1 c1
      using conns[OF that] sl_coreD(3)[OF core] by auto
    show "channels (P0 l) (co_fd co1) = None \<and> heap (P0 l) (tc_addr c1) = None" if "sl_conns ?s m = Some (co1, c1)" for m co1 c1 l
      using conns[OF that] sl_coreD(4)[OF core] by metis
    show "co_fd co1 \<noteq> co_fd co2 \<and> tc_addr c1 \<noteq> tc_addr c2"
      if "sl_conns ?s m = Some (co1, c1)" "sl_conns ?s m' = Some (co2, c2)" "m \<noteq> m'" for m m' co1 c1 co2 c2
      using conns[OF that(1)] conns[OF that(2)] sl_coreD(5)[OF core _ _ that(3)] by metis
  qed (use sl_coreD(1,2,10)[OF core] op(3) in \<open>auto split: if_splits\<close>)
  moreover have "conn_ok ?s m co1 c1" if m: "m \<notin> insert n X" "sl_conns ?s m = Some (co1, c1)" for m co1 c1
  proof -
    have s: "sl_conns s m = Some (co1, c1)" "conn_ok s m co1 c1" using m sl_invD(2)[OF inv(1)] by auto
    then have i: "conn_inv c1 (sl_pollers s (co_loop co1))" "owns (tc_addr c1) (co_fd co1) (sl_pollers s (co_loop co1))" by (simp_all add: conn_ok_def)
    have d: "co_fd co1 \<noteq> co_fd co" "tc_addr c1 \<noteq> tc_addr c" using sl_coreD(5)[OF core s(1) inv(2)] m(1) by auto
    show ?thesis
    proof (rule conn_ok_cong[OF s(2)])
      show "conn_inv c1 (sl_pollers ?s (co_loop co1))"
        using local_conn_inv[OF _ op(2,3), of c1 "co_fd co1"] i d by (cases "co_loop co1 = co_loop co") auto
      show "owns (tc_addr c1) (co_fd co1) (sl_pollers ?s (co_loop co1))"
        "requested_mask (tc_addr c1) (sl_pollers ?s (co_loop co1)) = requested_mask (tc_addr c1) (sl_pollers s (co_loop co1))"
        using local_masks[OF op(2), of "tc_addr c1" "co_fd co1"] i d by (cases "co_loop co1 = co_loop co"; simp)+
    qed (use m in auto)
  qed
  ultimately show ?thesis by (simp add: sl_inv_def)
qed

text \<open>Changes that keep connections and pollers: the queues, and the entry of one connection in the table.\<close>

lemma sl_core_same:
  assumes "sl_core P0 s" "sl_conns s' = sl_conns s" "sl_pollers s' = sl_pollers s" "sl_history s' = sl_history s"
    and "server_inv (sl_server s')" "ts_loop (sl_server s') = ts_loop (sl_server s)"
      "\<And>n. named_before (sl_server s') n = named_before (sl_server s) n"
      "\<And>n co. connections (sl_server s') n = Some co \<Longrightarrow> connections (sl_server s) n = Some co"
    and "\<And>l f. f \<in> set (sl_queues s' l) \<Longrightarrow> \<exists>co c. sl_conns s (target f) = Some (co, c) \<and> l = home (base_loop s) co f"
  shows "sl_core P0 s'"
  using sl_coreD[OF assms(1)] assms(5,8,9) unfolding assms(2-4)[symmetric] assms(6,7)[symmetric]
  by (intro sl_coreI) simp_all

lemma queue_inv:
  assumes "sl_inv X P0 s" "sl_conns s (target f) = Some (co, c)" "l = home (base_loop s) co f" "target f \<in> X"
  shows "sl_inv X P0 (queue_in_loop l f s)"
proof -
  note core = sl_invD(1)[OF assms(1)]
  have "sl_core P0 (queue_in_loop l f s)"
    by (rule sl_core_same[OF core]) (use sl_coreD(1,8)[OF core] assms(2,3) in \<open>auto split: if_splits\<close>)
  moreover have "conn_ok (queue_in_loop l f s) m co1 c1" if m: "m \<notin> X" "sl_conns s m = Some (co1, c1)" for m co1 c1
    by (rule conn_ok_cong[OF sl_invD(2)[OF assms(1) m]])
      (use sl_invD(2)[OF assms(1) m] m(1) assms(4) in \<open>auto simp: conn_ok_def count_list_append\<close>)
  ultimately show ?thesis by (simp add: sl_inv_def)
qed

lemma pop_inv:
  assumes "sl_inv X P0 s" "sl_queues s l = f # fs"
  shows "sl_inv (insert (target f) X) P0 (s\<lparr>sl_queues := (sl_queues s)(l := fs)\<rparr>)"
proof -
  note core = sl_invD(1)[OF assms(1)]
  let ?s = "s\<lparr>sl_queues := (sl_queues s)(l := fs)\<rparr>"
  have "\<exists>co c. sl_conns s (target g) = Some (co, c) \<and> k = home (base_loop s) co g" if "g \<in> set (sl_queues ?s k)" for k g
    using sl_coreD(8)[OF core, of g k] that assms(2) by (auto split: if_splits)
  then have "sl_core P0 ?s" by (intro sl_core_same[OF core]) (use sl_coreD(1)[OF core] in auto)
  moreover have "conn_ok ?s m co1 c1" if m: "m \<notin> insert (target f) X" "sl_conns s m = Some (co1, c1)" for m co1 c1
    by (rule conn_ok_cong[OF sl_invD(2)[OF assms(1) _ m(2)]])
      (use sl_invD(2)[OF assms(1) _ m(2)] m(1) assms(2) in \<open>auto simp: conn_ok_def\<close>)
  ultimately show ?thesis by (simp add: sl_inv_def)
qed

lemma unlist_server:
  "ts_loop (snd (removeConnectionInLoop co srv)) = ts_loop srv"
  "named_before (snd (removeConnectionInLoop co srv)) n = named_before srv n"
  "connections (snd (removeConnectionInLoop co srv)) = (connections srv)(co_name co := None)"
  by (simp_all add: removeConnectionInLoop_def named_before_def conn_name_def)

lemma unlist_inv:
  assumes "sl_inv X P0 s" "sl_conns s n = Some (co, c)" "n \<in> X"
  shows "sl_inv X P0 (s\<lparr>sl_server := snd (removeConnectionInLoop co (sl_server s))\<rparr>)"
proof -
  note core = sl_invD(1)[OF assms(1)]
  let ?s = "s\<lparr>sl_server := snd (removeConnectionInLoop co (sl_server s))\<rparr>"
  have "co_name co = n" using sl_coreD(3)[OF core assms(2)] by simp
  have "sl_core P0 ?s"
    by (rule sl_core_same[OF core])
      (use sl_coreD(8)[OF core] removeConnectionInLoop_inv[OF sl_coreD(1)[OF core]] in \<open>auto simp: unlist_server split: if_splits\<close>)
  moreover have "conn_ok ?s m co1 c1" if m: "m \<notin> X" "sl_conns s m = Some (co1, c1)" for m co1 c1
    by (rule conn_ok_cong[OF sl_invD(2)[OF assms(1) m]])
      (use sl_invD(2)[OF assms(1) m] m(1) assms(3) \<open>co_name co = n\<close> in \<open>auto simp: conn_ok_def unlist_server\<close>)
  ultimately show ?thesis by (simp add: sl_inv_def)
qed

section \<open>Lemmas: the operations\<close>

lemma named_co: "sl_inv X P0 s \<Longrightarrow> sl_conns s n = Some (co, c) \<Longrightarrow> co_name co = n"
  using sl_coreD(3)[OF sl_invD(1)] by blast

text \<open>Each functor runs in the state that is left when it has been taken from its queue.\<close>

lemma establish_ok:
  assumes inv: "sl_inv {n} P0 s" "sl_conns s n = Some (co, c)" "conn_inv c (sl_pollers s (co_loop co))"
      "owns (tc_addr c) (co_fd co) (sl_pollers s (co_loop co))"
    and ph: "tc_state c = kConnecting" "pending s n co = (0, 0, 0)" "connections (sl_server s) n = Some co" "life (sl_history s n) = []"
  shows "\<exists>s'. establish n s = Inr s' \<and> sl_inv {} P0 s'"
proof -
  obtain c' q where e: "connectEstablished c (sl_pollers s (co_loop co)) = Inr (c', q, [CallConnection kConnected])" "conn_inv c' q"
      "local_to (tc_addr c) (co_fd co) (sl_pollers s (co_loop co)) q" "owns (tc_addr c) (co_fd co) q" "tc_addr c' = tc_addr c"
      "tc_state c' = kConnected" "reading c' q"
    using established_ok[OF inv(3,4) ph(1)] by blast
  let ?s = "set_conn n co c' q [CallConnection kConnected] s"
  have "sl_inv {n} P0 ?s" using set_conn_inv[OF inv(1,2) e(5,3)] e(2) by (simp add: conn_inv_def)
  then have "sl_inv {} P0 ?s"
    by (rule sl_inv_finish) (use e ph in \<open>auto simp: conn_ok_def phase_ok_def pending_def\<close>)
  then show ?thesis using inv(2) e(1) by (simp add: establish_def with_conn_def)
qed

text \<open>A connection that has reported its end and waits for nothing is taken out of the table next.\<close>

definition ended :: "server_loops \<Rightarrow> string \<Rightarrow> conn_obj \<Rightarrow> TcpConnection \<Rightarrow> bool" where
  "ended s n co c \<longleftrightarrow> conn_inv c (sl_pollers s (co_loop co)) \<and> owns (tc_addr c) (co_fd co) (sl_pollers s (co_loop co)) \<and>
     tc_state c = kDisconnected \<and> pending s n co = (0, 0, 0) \<and> requested_mask (tc_addr c) (sl_pollers s (co_loop co)) = 0 \<and>
     life (sl_history s n) = [CallConnection kConnected, CallConnection kDisconnected, CallClose]"

lemma remove_conn_ok:
  assumes inv: "sl_inv {n} P0 s" "sl_conns s n = Some (co, c)" and e: "ended s n co c"
  shows "\<exists>s'. remove_conn n s = Inr s' \<and> sl_inv {} P0 s'"
proof -
  define s1 where "s1 = s\<lparr>sl_server := snd (removeConnectionInLoop co (sl_server s))\<rparr>"
  have 1: "sl_inv {n} P0 s1" using unlist_inv[OF inv] by (simp add: s1_def)
  have sel: "sl_conns s1 = sl_conns s" "sl_queues s1 = sl_queues s" "sl_pollers s1 = sl_pollers s" "sl_history s1 = sl_history s"
      "base_loop s1 = base_loop s" "connections (sl_server s1) n = None"
    using named_co[OF inv] by (simp_all add: s1_def unlist_server)
  have "sl_inv {n} P0 (queue_in_loop (co_loop co) (Destroy n) s1)" using queue_inv[OF 1, of "Destroy n" co c] inv(2) sel by simp
  then have "sl_inv {} P0 (queue_in_loop (co_loop co) (Destroy n) s1)"
    by (rule sl_inv_finish) (use e inv(2) sel in \<open>auto simp: ended_def conn_ok_def phase_ok_def pending_def count_list_append\<close>)
  then show ?thesis using inv(2) by (simp add: remove_conn_def s1_def)
qed

lemma remove_request_ok:
  assumes inv: "sl_inv {n} P0 s" "sl_conns s n = Some (co, c)" and e: "ended s n co c" "connections (sl_server s) n = Some co"
  shows "\<exists>s'. remove_request n s = Inr s' \<and> sl_inv {} P0 s'"
proof (cases "co_loop co = base_loop s")
  case True
  then show ?thesis using remove_conn_ok[OF inv e(1)] inv(2) by (simp add: remove_request_def)
next
  case False
  have "sl_inv {n} P0 (queue_in_loop (base_loop s) (RemoveConn n) s)" using queue_inv[OF inv(1), of "RemoveConn n" co c] inv(2) by simp
  then have "sl_inv {} P0 (queue_in_loop (base_loop s) (RemoveConn n) s)"
    by (rule sl_inv_finish) (use e inv(2) False in \<open>auto simp: ended_def conn_ok_def phase_ok_def pending_def count_list_append\<close>)
  then show ?thesis using inv(2) False by (simp add: remove_request_def)
qed

lemma event_in_loop_ok:
  assumes inv: "sl_inv {} P0 s" "sl_conns s n = Some (co, c)"
    and e: "event_ok c e" "single_end e" "event_possible c (sl_pollers s (co_loop co)) e"
  shows "\<exists>s'. event_in_loop n e s = Inr s' \<and> sl_inv {} P0 s'"
proof -
  let ?p = "sl_pollers s (co_loop co)"
  have ok: "conn_inv c ?p" "owns (tc_addr c) (co_fd co) ?p" "phase_ok s n co c" using sl_invD(2)[OF inv(1) _ inv(2)] by (auto simp: conn_ok_def)
  obtain c' p' es where st: "conn_step e c ?p = Inr (c', p', es)" "conn_inv c' p'" using conn_step_inv[OF ok(1) e(1)] by blast
  let ?s = "set_conn n co c' p' es s"
  have w: "with_conn (conn_step e) n s = Inr (?s, es)" using inv(2) st(1) by (simp add: with_conn_def)
  have ch: "quiet (co_fd co) c ?p c' p' es \<or> (\<exists>now re rv wr. e = Reported now re rv wr) \<and> closing (co_fd co) c ?p c' p' es" by (rule conn_step_change[OF st(1) ok(2) e(2)])
  then have loc: "tc_addr c' = tc_addr c" "local_to (tc_addr c) (co_fd co) ?p p'" "owns (tc_addr c) (co_fd co) p'" by (auto simp: quiet_def closing_def)
  have 1: "sl_inv {n} P0 ?s" using set_conn_inv[OF inv loc(1,2)] st(2) by (simp add: conn_inv_def)
  have cl: "count_list es CallClose = count_list (life es) CallClose" by (induction es) auto
  have nw: "requested_mask (tc_addr c) ?p = 0 \<Longrightarrow> \<not> writing c ?p" "watched_mask (tc_addr c) ?p = requested_mask (tc_addr c) ?p"
    using ok(1) by (simp_all add: writing_def conn_inv_def)
  have nc: "tc_state c \<noteq> kConnecting" using e(3) ok(3) nw(2) by (cases e) (auto simp: phase_ok_def)
  from ch show ?thesis
  proof
    assume q: "quiet (co_fd co) c ?p c' p' es"
    have "conn_ok ?s n co c'" using q ok(3) st(2) loc nw(1) nc
      by (cases "tc_state c") (auto simp: quiet_def conn_ok_def phase_ok_def pending_def)
    then have "sl_inv {} P0 ?s" by (intro sl_inv_finish[OF 1]) simp
    moreover have "count_list es CallClose = 0" using q by (simp add: cl quiet_def)
    ultimately show ?thesis using w by (simp add: event_in_loop_def)
  next
    assume "(\<exists>now re rv wr. e = Reported now re rv wr) \<and> closing (co_fd co) c ?p c' p' es"
    then have q: "closing (co_fd co) c ?p c' p' es" "tc_state c \<noteq> kDisconnected"
      using e(3) ok(3) nw(2) by (auto simp: phase_ok_def)
    then have "ended ?s n co c'" "connections (sl_server ?s) n = Some co" using ok(3) st(2) loc nc
      by (cases "tc_state c"; simp add: closing_def ended_def phase_ok_def pending_def)+
    moreover have "count_list es CallClose = 1" using q(1) by (simp add: cl closing_def)
    ultimately show ?thesis using remove_request_ok[OF 1, of co c'] w by (auto simp: event_in_loop_def)
  qed
qed

lemma destroy_conn_ok:
  assumes inv: "sl_inv {n} P0 s" "sl_conns s n = Some (co, c)" and e: "ended s n co c" "connections (sl_server s) n = None"
  shows "\<exists>s'. destroy_conn n s = Inr s' \<and> sl_inv {} P0 s'"
proof -
  note core = sl_invD(1)[OF inv(1)]
  let ?l = "co_loop co" and ?p = "sl_pollers s (co_loop co)"
  obtain p1 q where d: "connectDestroyed c ?p = Inr (c, p1, [])" "q = p1\<lparr>heap := (heap p1)(tc_addr c := None)\<rparr>" "poller_inv q"
      "local_to (tc_addr c) (co_fd co) ?p q" "heap q (tc_addr c) = None" "channels q (co_fd co) = None"
    using destroyed_ok[of c ?p "co_fd co"] e(1) by (auto simp: ended_def)
  define s1 where "s1 = s\<lparr>sl_conns := (sl_conns s)(n := None), sl_pollers := (sl_pollers s)(?l := q)\<rparr>"
  have r: "destroy_conn n s = Inr s1"
    using inv(2) d(1,2) by (simp add: destroy_conn_def with_conn_def set_conn_def s1_def)
  have sel: "sl_server s1 = sl_server s" "sl_queues s1 = sl_queues s" "sl_history s1 = sl_history s"
      "sl_conns s1 = (sl_conns s)(n := None)" "sl_pollers s1 = (sl_pollers s)(?l := q)" by (simp_all add: s1_def)
  note P0 = sl_coreD(4)[OF core inv(2)]
  have "sl_core P0 s1"
  proof (rule sl_coreI)
    show "channels (sl_pollers s1 l) fd = channels (P0 l) fd"
      if u: "\<And>m co1 c1. sl_conns s1 m = Some (co1, c1) \<Longrightarrow> co_loop co1 = l \<Longrightarrow> co_fd co1 \<noteq> fd" for l fd
    proof (cases "l = ?l \<and> fd = co_fd co")
      case True
      then show ?thesis using d(6) P0 by (simp add: sel)
    next
      case False
      then have "co_fd co1 \<noteq> fd" if "sl_conns s m = Some (co1, c1)" "co_loop co1 = l" for m co1 c1
        using u[of m co1 c1] that inv(2) by (cases "m = n") (auto simp: sel)
      then have "channels (sl_pollers s l) fd = channels (P0 l) fd" using sl_coreD(6)[OF core] by blast
      then show ?thesis using False d(4) by (auto simp: sel local_to_def)
    qed
    show "heap (sl_pollers s1 l) a = heap (P0 l) a"
      if u: "\<And>m co1 c1. sl_conns s1 m = Some (co1, c1) \<Longrightarrow> co_loop co1 = l \<Longrightarrow> tc_addr c1 \<noteq> a" for l a
    proof (cases "l = ?l \<and> a = tc_addr c")
      case True
      then show ?thesis using d(5) P0 by (simp add: sel)
    next
      case False
      then have "tc_addr c1 \<noteq> a" if "sl_conns s m = Some (co1, c1)" "co_loop co1 = l" for m co1 c1
        using u[of m co1 c1] that inv(2) by (cases "m = n") (auto simp: sel)
      then have "heap (sl_pollers s l) a = heap (P0 l) a" using sl_coreD(7)[OF core] by blast
      then show ?thesis using False d(4) by (auto simp: sel local_to_def)
    qed
    show "\<exists>co1 c1. sl_conns s1 (target f) = Some (co1, c1) \<and> l = home (base_loop s1) co1 f" if f: "f \<in> set (sl_queues s1 l)" for l f
    proof -
      obtain co1 c1 where t: "sl_conns s (target f) = Some (co1, c1)" "l = home (base_loop s) co1 f"
        using sl_coreD(8)[OF core, of f l] f by (auto simp: sel)
      have "count_list (sl_queues s l) f \<noteq> 0" using f by (simp add: sel count_list_0_iff)
      then have "target f \<noteq> n" using t inv(2) e(1) by (cases f) (auto simp: ended_def pending_def)
      then show ?thesis using t by (auto simp: sel)
    qed
    show "\<exists>c1. sl_conns s1 m = Some (co1, c1)" if "connections (sl_server s1) m = Some co1" for m co1
      using sl_coreD(9)[OF core, of m co1] that e(2) by (auto simp: sel)
    show "life (sl_history s1 m) = [] \<or> life (sl_history s1 m) = [CallConnection kConnected, CallConnection kDisconnected, CallClose] \<and>
        named_before (sl_server s1) m" if "sl_conns s1 m = None" for m
      using sl_coreD(10)[OF core, of m] sl_coreD(3)[OF core inv(2)] e(1) that by (cases "m = n") (auto simp: sel ended_def)
  qed (use sl_coreD(1,2,3,4,5)[OF core] d(3) in \<open>auto simp: sel split: if_splits\<close>)
  moreover have "conn_ok s1 m co1 c1" if m: "sl_conns s1 m = Some (co1, c1)" for m co1 c1
  proof -
    have s: "m \<noteq> n" "sl_conns s m = Some (co1, c1)" "conn_ok s m co1 c1" using m sl_invD(2)[OF inv(1)] by (auto simp: sel split: if_splits)
    then have i: "conn_inv c1 (sl_pollers s (co_loop co1))" "owns (tc_addr c1) (co_fd co1) (sl_pollers s (co_loop co1))" by (simp_all add: conn_ok_def)
    have "co_fd co1 \<noteq> co_fd co" "tc_addr c1 \<noteq> tc_addr c" using sl_coreD(5)[OF core s(2) inv(2) s(1)] by auto
    then have "conn_inv c1 (sl_pollers s1 (co_loop co1)) \<and> owns (tc_addr c1) (co_fd co1) (sl_pollers s1 (co_loop co1)) \<and>
        requested_mask (tc_addr c1) (sl_pollers s1 (co_loop co1)) = requested_mask (tc_addr c1) (sl_pollers s (co_loop co1))"
      using local_conn_inv[OF _ d(4,3), of c1 "co_fd co1"] local_masks[OF d(4), of "tc_addr c1" "co_fd co1"] i
      by (cases "co_loop co1 = ?l") (auto simp: sel)
    then show ?thesis using conn_ok_cong[OF s(3), of s1] by (simp add: sel)
  qed
  ultimately show ?thesis using r by (auto simp: sl_inv_def)
qed

lemma run_head_ok:
  assumes inv: "sl_inv {} P0 s" shows "\<exists>s'. run_head l s = Inr s' \<and> sl_inv {} P0 s'"
proof (cases "sl_queues s l")
  case Nil
  then show ?thesis using inv by (simp add: run_head_def)
next
  case (Cons f fs)
  let ?s = "s\<lparr>sl_queues := (sl_queues s)(l := fs)\<rparr>" and ?n = "target f"
  obtain co c where c: "sl_conns s ?n = Some (co, c)" "l = home (base_loop s) co f"
    using sl_coreD(8)[OF sl_invD(1)[OF inv], of f l] Cons by auto
  have ok: "conn_ok s ?n co c" using sl_invD(2)[OF inv _ c(1)] by simp
  have i: "sl_inv {?n} P0 ?s" "sl_conns ?s ?n = Some (co, c)" using pop_inv[OF inv Cons] c by auto
  show ?thesis
  proof (cases f)
    case (Establish n)
    have "tc_state c = kConnecting" "pending ?s n co = (0, 0, 0)"
      using ok Cons c(2) Establish by (cases "tc_state c"; auto simp: conn_ok_def phase_ok_def pending_def split: if_splits)+
    then show ?thesis using establish_ok[of n P0 ?s co c] i ok Cons Establish by (simp add: run_head_def conn_ok_def phase_ok_def)
  next
    case (RemoveConn n)
    have "tc_state c = kDisconnected" "pending ?s n co = (0, 0, 0)"
      using ok Cons c(2) RemoveConn by (cases "tc_state c"; auto simp: conn_ok_def phase_ok_def pending_def split: if_splits)+
    then have "ended ?s n co c" using ok RemoveConn by (simp add: ended_def conn_ok_def phase_ok_def)
    then show ?thesis using remove_conn_ok[of n P0 ?s co c] i Cons RemoveConn by (simp add: run_head_def)
  next
    case (Destroy n)
    have "tc_state c = kDisconnected" "pending ?s n co = (0, 0, 0)" "connections (sl_server s) n = None"
      using ok Cons c(2) Destroy by (cases "tc_state c"; auto simp: conn_ok_def phase_ok_def pending_def split: if_splits)+
    then have "ended ?s n co c" "connections (sl_server ?s) n = None" using ok Destroy by (simp_all add: ended_def conn_ok_def phase_ok_def)
    then show ?thesis using destroy_conn_ok[of n P0 ?s co c] i Cons Destroy by (simp add: run_head_def)
  qed
qed

text \<open>A new connection: its name, its descriptor and its channel are new.\<close>

lemma conn_name_unused: "server_inv srv \<Longrightarrow> \<not> named_before srv (conn_name srv)"
proof
  assume inv: "server_inv srv" and "named_before srv (conn_name srv)"
  then obtain i where i: "0 < i" "i < nextConnId srv" "conn_name srv = conn_name (srv\<lparr>nextConnId := i\<rparr>)" by (auto simp: named_before_def)
  then have "nextConnId srv = nextConnId (srv\<lparr>nextConnId := i\<rparr>)" using inv by (intro conn_name_inj) (auto simp: server_inv_def)
  with i(2) show False by simp
qed

lemma newConnection_frame:
  assumes "newConnection sn fd peer srv = Inr (es, srv')"
  shows "ts_loop srv' = ts_loop srv" "0 < nextConnId srv \<Longrightarrow> named_before srv' n \<longleftrightarrow> named_before srv n \<or> n = conn_name srv"
proof -
  have f: "ts_loop srv' = ts_loop srv" "ts_name srv' = ts_name srv" "ipPort srv' = ipPort srv" "nextConnId srv' = nextConnId srv + 1"
    using assms by (auto simp: newConnection_def Let_def bind_r_eq_Inr split: prod.splits if_splits)
  then show "ts_loop srv' = ts_loop srv" by simp
  have nm: "conn_name (srv'\<lparr>nextConnId := i\<rparr>) = conn_name (srv\<lparr>nextConnId := i\<rparr>)" for i by (rule conn_name_cong) (use f in simp_all)
  assume "0 < nextConnId srv"
  then show "named_before srv' n \<longleftrightarrow> named_before srv n \<or> n = conn_name srv"
    unfolding named_before_def nm f(4) using zless_add1_eq by (auto simp: conn_name_def)
qed

lemma birth_inv:
  assumes inv: "sl_inv {} P0 s" and u: "unused P0 fd a s"
    and srv: "newConnection sn fd peer (sl_server s) = Inr (es, srv)" "server_inv srv" "co_name co = conn_name (sl_server s)" "co_fd co = fd"
      "connections srv = (connections (sl_server s))(conn_name (sl_server s) \<mapsto> co)"
    and new: "new_TcpConnection False (co_name co) fd a (sl_pollers s (co_loop co)) = Inr (c, p, es2)"
  shows "sl_inv {co_name co} P0 (set_conn (co_name co) co c p es2 (s\<lparr>sl_server := srv\<rparr>)) \<and> conn_inv c p \<and> owns (tc_addr c) fd p \<and>
    tc_state c = kConnecting \<and> requested_mask (tc_addr c) p = 0 \<and> life es2 = [] \<and> life (sl_history s (co_name co)) = [] \<and>
    (\<forall>l f. target f = co_name co \<longrightarrow> count_list (sl_queues s l) f = 0)"
proof -
  note core = sl_invD(1)[OF inv]
  let ?n = "co_name co" and ?l = "co_loop co"
  let ?s = "set_conn ?n co c p es2 (s\<lparr>sl_server := srv\<rparr>)"
  have si: "server_inv (sl_server s)" using sl_coreD(1)[OF core] .
  have un: "\<not> named_before (sl_server s) ?n" using conn_name_unused[OF si] srv(3) by simp
  then have none: "sl_conns s ?n = None" using sl_coreD(3)[OF core] by (cases "sl_conns s ?n") fastforce+
  have hist: "life (sl_history s ?n) = []" using sl_coreD(10)[OF core none] un by auto
  have q0: "count_list (sl_queues s l) f = 0" if "target f = ?n" for l f
    using sl_coreD(8)[OF core, of f l] none that by (cases "f \<in> set (sl_queues s l)") (auto simp: count_list_0_iff)
  have nb: "named_before srv m \<longleftrightarrow> named_before (sl_server s) m \<or> m = ?n" for m
    using newConnection_frame(2)[OF srv(1)] si srv(3) by (simp add: server_inv_def)
  have fresh: "channels (sl_pollers s ?l) fd = None" "heap (sl_pollers s ?l) a = None"
    using sl_coreD(6)[OF core, of ?l fd] sl_coreD(7)[OF core, of ?l a] u unfolding unused_def by metis+
  note b = new_conn_ok[OF sl_coreD(2)[OF core] fresh(2,1) new]
  then have bd: "conn_inv c p" "local_to a fd (sl_pollers s ?l) p" "owns a fd p" "tc_addr c = a" "tc_state c = kConnecting"
      "requested_mask a p = 0" "life es2 = []" "poller_inv p" by (auto simp: conn_inv_def)
  have old: "co_fd co1 \<noteq> fd \<and> tc_addr c1 \<noteq> a" if "sl_conns s m = Some (co1, c1)" for m co1 c1 using u that by (auto simp: unused_def)
  have "sl_core P0 ?s"
  proof (rule sl_coreI)
    show "channels (sl_pollers ?s l) f = channels (P0 l) f"
      if v: "\<And>m co1 c1. sl_conns ?s m = Some (co1, c1) \<Longrightarrow> co_loop co1 = l \<Longrightarrow> co_fd co1 \<noteq> f" for l f
    proof -
      have "co_fd co1 \<noteq> f" if "sl_conns s m = Some (co1, c1)" "co_loop co1 = l" for m co1 c1
        using v[of m co1 c1] that none by (cases "m = ?n") auto
      then have "channels (sl_pollers s l) f = channels (P0 l) f" using sl_coreD(6)[OF core] by blast
      moreover have "l = ?l \<Longrightarrow> f \<noteq> fd" using v[of ?n co c] srv(4) by auto
      ultimately show ?thesis using bd(2) by (auto simp: local_to_def)
    qed
    show "heap (sl_pollers ?s l) b = heap (P0 l) b"
      if v: "\<And>m co1 c1. sl_conns ?s m = Some (co1, c1) \<Longrightarrow> co_loop co1 = l \<Longrightarrow> tc_addr c1 \<noteq> b" for l b
    proof -
      have "tc_addr c1 \<noteq> b" if "sl_conns s m = Some (co1, c1)" "co_loop co1 = l" for m co1 c1
        using v[of m co1 c1] that none by (cases "m = ?n") auto
      then have "heap (sl_pollers s l) b = heap (P0 l) b" using sl_coreD(7)[OF core] by blast
      moreover have "l = ?l \<Longrightarrow> b \<noteq> a" using v[of ?n co c] bd(4) by auto
      ultimately show ?thesis using bd(2) by (auto simp: local_to_def)
    qed
    show "\<exists>co1 c1. sl_conns ?s (target f) = Some (co1, c1) \<and> l = home (base_loop ?s) co1 f" if "f \<in> set (sl_queues ?s l)" for l f
      using sl_coreD(8)[OF core, of f l] that none newConnection_frame(1)[OF srv(1)] by auto
    show "\<exists>c1. sl_conns ?s m = Some (co1, c1)" if "connections (sl_server ?s) m = Some co1" for m co1
      using sl_coreD(9)[OF core, of m co1] that srv(3,5) by (auto split: if_splits)
    show "co_fd co1 \<noteq> co_fd co2 \<and> tc_addr c1 \<noteq> tc_addr c2"
      if "sl_conns ?s m = Some (co1, c1)" "sl_conns ?s m' = Some (co2, c2)" "m \<noteq> m'" for m m' co1 c1 co2 c2
      using that old[of m co1 c1] old[of m' co2 c2] sl_coreD(5)[OF core _ _ that(3)] srv(4) bd(4) by (cases "m = ?n"; cases "m' = ?n") auto
    show "channels (P0 l) (co_fd co1) = None \<and> heap (P0 l) (tc_addr c1) = None" if "sl_conns ?s m = Some (co1, c1)" for m co1 c1 l
      using that sl_coreD(4)[OF core, of m co1 c1 l] u srv(4) bd(4) by (cases "m = ?n") (auto simp: unused_def)
    show "co_name co1 = m \<and> named_before (sl_server ?s) m" if "sl_conns ?s m = Some (co1, c1)" for m co1 c1
      using that sl_coreD(3)[OF core, of m co1 c1] nb by (cases "m = ?n") auto
    show "life (sl_history ?s m) = [] \<or> life (sl_history ?s m) = [CallConnection kConnected, CallConnection kDisconnected, CallClose] \<and>
        named_before (sl_server ?s) m" if "sl_conns ?s m = None" for m
      using sl_coreD(10)[OF core, of m] that nb by (cases "m = ?n") auto
  qed (use srv(2) sl_coreD(2)[OF core] bd(8) in auto)
  moreover have "conn_ok ?s m co1 c1" if m: "m \<notin> {?n}" "sl_conns ?s m = Some (co1, c1)" for m co1 c1
  proof -
    have s: "sl_conns s m = Some (co1, c1)" "conn_ok s m co1 c1" using m sl_invD(2)[OF inv] by auto
    then have i: "conn_inv c1 (sl_pollers s (co_loop co1))" "owns (tc_addr c1) (co_fd co1) (sl_pollers s (co_loop co1))" by (simp_all add: conn_ok_def)
    have "conn_inv c1 (sl_pollers ?s (co_loop co1)) \<and> owns (tc_addr c1) (co_fd co1) (sl_pollers ?s (co_loop co1)) \<and>
        requested_mask (tc_addr c1) (sl_pollers ?s (co_loop co1)) = requested_mask (tc_addr c1) (sl_pollers s (co_loop co1))"
      using local_conn_inv[OF _ bd(2,8), of c1 "co_fd co1"] local_masks[OF bd(2), of "tc_addr c1" "co_fd co1"] i old[OF s(1)]
      by (cases "co_loop co1 = ?l") auto
    then show ?thesis using conn_ok_cong[OF s(2), of ?s] m(1) newConnection_frame(1)[OF srv(1)] srv(3,5) by simp
  qed
  ultimately show ?thesis using bd hist q0 by (simp add: sl_inv_def)
qed

lemma accept_conn_ok:
  assumes inv: "sl_inv {} P0 s" and u: "unused P0 fd a s" and n: "nextConnId (sl_server s) < 2 ^ 31 - 1"
  shows "\<exists>s'. accept_conn sn fd peer a s = Inr s' \<and> sl_inv {} P0 s'"
proof -
  have si: "server_inv (sl_server s)" using sl_coreD(1)[OF sl_invD(1)[OF inv]] .
  obtain co srv where c: "newConnection sn fd peer (sl_server s) = Inr ([RunEstablished (co_loop co) co], srv)" "co_name co = conn_name (sl_server s)"
      "co_fd co = fd" "server_inv srv" "connections srv = (connections (sl_server s))(conn_name (sl_server s) \<mapsto> co)"
    using newConnection_inv[OF si n] by blast
  obtain t p es where t: "new_TcpConnection False (co_name co) fd a (sl_pollers s (co_loop co)) = Inr (t, p, es)"
    by (simp add: new_TcpConnection_def)
  let ?n = "co_name co"
  let ?s = "set_conn ?n co t p es (s\<lparr>sl_server := srv\<rparr>)"
  note b = birth_inv[OF inv u c(1,4,2,3,5) t]
  have lp: "ts_loop srv = base_loop s" by (rule newConnection_frame(1)[OF c(1)])
  have k: "sl_inv {?n} P0 ?s" "sl_conns ?s ?n = Some (co, t)" "pending ?s ?n co = (0, 0, 0)" "connections (sl_server ?s) ?n = Some co"
      "life (sl_history ?s ?n) = []"
    using b c(2,5) lp by (auto simp: pending_def)
  show ?thesis
  proof (cases "co_loop co = base_loop s")
    case True
    then show ?thesis using establish_ok[OF k(1,2) _ _ _ k(3-5)] b c(1,3) t by (simp add: accept_conn_def)
  next
    case False
    have "sl_inv {?n} P0 (queue_in_loop (co_loop co) (Establish ?n) ?s)" using queue_inv[OF k(1), of "Establish ?n" co t] by simp
    then have "sl_inv {} P0 (queue_in_loop (co_loop co) (Establish ?n) ?s)"
      by (rule sl_inv_finish) (use b k c(3) lp in \<open>auto simp: conn_ok_def phase_ok_def pending_def count_list_append\<close>)
    then show ?thesis using False c(1) t by (simp add: accept_conn_def)
  qed
qed

lemma sl_reach_inv: "sl_reach P0 s \<Longrightarrow> sl_inv {} P0 s"
proof (induction rule: sl_reach.induct)
  case (sl_start base port ip name opt lfd bf ch p s0 calls p' srv new_loop cb k)
  have "server_inv srv" using new_TcpServer_inv(1)[OF sl_start(1)] sl_start(2) by simp
  moreover have "connections srv = Map.empty"
    using sl_start(1,2) by (auto simp: new_TcpServer_def bind_r_eq_Inr start_def setThreadNum_def Let_def)
  ultimately show ?case using sl_start(3) by (auto simp: sl_inv_def intro!: sl_coreI)
next
  case (sl_accept s fd a sn peer s')
  then show ?case using accept_conn_ok[OF sl_accept.IH sl_accept.hyps(3,2), of sn peer] by auto
next
  case (sl_run s l s')
  then show ?case using run_head_ok[OF sl_run.IH, of l] by auto
next
  case (sl_event s n co c e s')
  then show ?case using event_in_loop_ok[OF sl_event.IH sl_event.hyps(2-5)] by auto
qed

section \<open>Draining\<close>

text \<open>Runs of the functors that are queued: \<open>drains k s s'\<close> when \<open>k\<close> of them lead from \<open>s\<close> to \<open>s'\<close>.\<close>

inductive drains :: "nat \<Rightarrow> server_loops \<Rightarrow> server_loops \<Rightarrow> bool" where
  drains_0: "drains 0 s s"
| drains_Suc: "sl_queues s l \<noteq> [] \<Longrightarrow> run_head l s = Inr s1 \<Longrightarrow> drains k s1 s2 \<Longrightarrow> drains (Suc k) s s2"

definition alive :: "server_loops \<Rightarrow> string \<Rightarrow> bool" where
  "alive s n \<longleftrightarrow> (\<exists>co c. sl_conns s n = Some (co, c) \<and> tc_state c \<noteq> kDisconnected)"

text \<open>The work a queued functor still causes.\<close>

fun work :: "server_functor \<Rightarrow> nat" where
  "work (RemoveConn n) = 2"
| "work _ = 1"

definition workload :: "nat set \<Rightarrow> server_loops \<Rightarrow> nat" where
  "workload L s = (\<Sum>l\<in>L. sum_list (map work (sl_queues s l)))"

definition loops_of :: "server_loops \<Rightarrow> nat set" where
  "loops_of s = insert (base_loop s) {co_loop co | co n c. sl_conns s n = Some (co, c)}"

lemma sum_upd: "finite L \<Longrightarrow> l \<in> L \<Longrightarrow> (\<Sum>x\<in>L. (f(l := v)) x) + f l = (\<Sum>x\<in>L. f x) + (v :: nat)"
proof -
  assume L: "finite L" "l \<in> L"
  have "(\<Sum>x\<in>L - {l}. (f(l := v)) x) = (\<Sum>x\<in>L - {l}. f x)" by (rule sum.cong) auto
  then show ?thesis using sum.remove[OF L, of "f(l := v)"] sum.remove[OF L, of f] by simp
qed

lemma workload_upd:
  assumes "finite L" "l \<in> L" "sl_queues s' = (sl_queues s)(l := q)"
  shows "workload L s' + sum_list (map work (sl_queues s l)) = workload L s + sum_list (map work q)"
proof -
  let ?w = "\<lambda>x. sum_list (map work (sl_queues s x))"
  have "workload L s' = (\<Sum>x\<in>L. (?w(l := sum_list (map work q))) x)"
    unfolding workload_def by (rule sum.cong) (use assms(3) in auto)
  then show ?thesis using sum_upd[OF assms(1,2), of ?w "sum_list (map work q)"] by (simp only: workload_def)
qed

lemma queues_in_loops: "sl_core P0 s \<Longrightarrow> sl_queues s l \<noteq> [] \<Longrightarrow> l \<in> loops_of s"
proof -
  assume core: "sl_core P0 s" and ne: "sl_queues s l \<noteq> []"
  then obtain f where f: "f \<in> set (sl_queues s l)" by (cases "sl_queues s l") auto
  from sl_coreD(8)[OF core f] show "l \<in> loops_of s" by (cases f) (auto simp: loops_of_def)
qed

text \<open>What one run does: it keeps the connections that are not closed and takes work away.\<close>

lemma run_head_effect:
  assumes inv: "sl_inv {} P0 s" and q: "sl_queues s l = f # fs" and r: "run_head l s = Inr s'"
  shows "(\<forall>n. alive s' n \<longleftrightarrow> alive s n) \<and> dom (sl_conns s') \<subseteq> dom (sl_conns s) \<and> loops_of s' \<subseteq> loops_of s \<and>
    (\<forall>L. finite L \<longrightarrow> loops_of s \<subseteq> L \<longrightarrow> workload L s' < workload L s)"
proof -
  let ?s = "s\<lparr>sl_queues := (sl_queues s)(l := fs)\<rparr>"
  obtain co c where c: "sl_conns s (target f) = Some (co, c)" "l = home (base_loop s) co f"
    using sl_coreD(8)[OF sl_invD(1)[OF inv], of f l] q by auto
  have ok: "conn_ok s (target f) co c" using sl_invD(2)[OF inv _ c(1)] by simp
  have lL: "l \<in> loops_of s" "co_loop co \<in> loops_of s"
    using queues_in_loops[OF sl_invD(1)[OF inv], of l] q c(1) by (auto simp: loops_of_def)
  have pop: "workload L ?s < workload L s" if "finite L" "loops_of s \<subseteq> L" for L
  proof -
    have "workload L ?s + sum_list (map work (f # fs)) = workload L s + sum_list (map work fs)"
      using workload_upd[of L l ?s s fs] that lL(1) q by auto
    then show ?thesis by (cases f) auto
  qed
  have rf: "run_server_functor f ?s = Inr s'" using r q by (simp add: run_head_def)
  show ?thesis
  proof (cases f)
    case (Establish n)
    then have "tc_state c = kConnecting" using ok q c(2)
      by (cases "tc_state c"; auto simp: conn_ok_def phase_ok_def pending_def split: if_splits)+
    moreover obtain c' p' es where "s' = set_conn n co c' p' es ?s" "tc_state c' = kConnected"
      using rf c(1) Establish by (auto simp: establish_def with_conn_def connectEstablished_def setState_def bind_r_eq_Inr split: option.splits)
    ultimately show ?thesis using c(1) Establish pop
      by (auto simp: alive_def loops_of_def workload_def split: if_splits)
  next
    case (RemoveConn n)
    then have s': "s' = queue_in_loop (co_loop co) (Destroy n) (?s\<lparr>sl_server := snd (removeConnectionInLoop co (sl_server s))\<rparr>)"
      using rf c(1) by (simp add: remove_conn_def)
    then have "alive s' m = alive s m" "sl_conns s' = sl_conns s" "loops_of s' = loops_of s" for m
      by (simp_all add: alive_def loops_of_def unlist_server)
    moreover have "workload L s' < workload L s" if L: "finite L" "loops_of s \<subseteq> L" for L
    proof -
      have "workload L s' + sum_list (map work (sl_queues ?s (co_loop co))) =
          workload L ?s + sum_list (map work (sl_queues ?s (co_loop co) @ [Destroy n]))"
        by (rule workload_upd) (use L lL(2) s' in auto)
      moreover have "workload L ?s + sum_list (map work (f # fs)) = workload L s + sum_list (map work fs)"
        using workload_upd[of L l ?s s fs] L lL(1) q by auto
      ultimately show ?thesis using RemoveConn by simp
    qed
    ultimately show ?thesis by auto
  next
    case (Destroy n)
    then have d: "tc_state c = kDisconnected" using ok q c(2)
      by (cases "tc_state c"; auto simp: conn_ok_def phase_ok_def pending_def split: if_splits)+
    have "sl_queues s' = sl_queues ?s \<and> sl_conns s' = (sl_conns s)(n := None) \<and> sl_server s' = sl_server s"
      using rf c(1) Destroy by (auto simp: destroy_conn_def with_conn_def Let_def bind_r_eq_Inr)
    then have "alive s' m = alive s m" "dom (sl_conns s') \<subseteq> dom (sl_conns s)" "loops_of s' \<subseteq> loops_of s" "workload L s' = workload L ?s" for m L
      using d c(1) Destroy by (auto simp: alive_def loops_of_def workload_def split: if_splits)
    then show ?thesis using pop by simp
  qed
qed

lemma drain_effect:
  assumes "drains k s s'" "sl_inv {} P0 s"
  shows "sl_inv {} P0 s' \<and> (\<forall>n. alive s' n \<longleftrightarrow> alive s n) \<and> loops_of s' \<subseteq> loops_of s \<and>
    (\<forall>L. finite L \<longrightarrow> loops_of s \<subseteq> L \<longrightarrow> k + workload L s' \<le> workload L s)"
  using assms
proof (induction rule: drains.induct)
  case (drains_Suc s l s1 k s2)
  obtain f fs where q: "sl_queues s l = f # fs" using drains_Suc.hyps(1) by (cases "sl_queues s l") auto
  note e = run_head_effect[OF drains_Suc.prems q drains_Suc.hyps(2)]
  have "sl_inv {} P0 s1" using run_head_ok[OF drains_Suc.prems, of l] drains_Suc.hyps(2) by auto
  note IH = drains_Suc.IH[OF this]
  have "Suc k + workload L s2 \<le> workload L s" if "finite L" "loops_of s \<subseteq> L" for L
  proof -
    have "workload L s1 < workload L s" "loops_of s1 \<subseteq> L" using e that by auto
    moreover have "k + workload L s2 \<le> workload L s1" using IH that(1) calculation(2) by blast
    ultimately show ?thesis by simp
  qed
  moreover have "\<forall>n. alive s2 n \<longleftrightarrow> alive s n" using e IH by presburger
  moreover have "loops_of s2 \<subseteq> loops_of s" using e IH by (meson subset_trans)
  ultimately show ?case using IH by presburger
qed simp

lemma finite_loops_of: "sl_core P0 s \<Longrightarrow> finite (loops_of s)"
proof -
  assume core: "sl_core P0 s"
  let ?N = "(\<lambda>i. conn_name ((sl_server s)\<lparr>nextConnId := i\<rparr>)) ` {0<..<nextConnId (sl_server s)}"
  have "dom (sl_conns s) \<subseteq> ?N" using sl_coreD(3)[OF core] by (force simp: named_before_def)
  then have "finite (dom (sl_conns s))" by (rule finite_subset) simp
  then have "finite ((\<lambda>n. co_loop (fst (the (sl_conns s n)))) ` dom (sl_conns s))" by simp
  moreover have "loops_of s \<subseteq> insert (base_loop s) ((\<lambda>n. co_loop (fst (the (sl_conns s n)))) ` dom (sl_conns s))"
    by (force simp: loops_of_def)
  ultimately show ?thesis using finite_subset by blast
qed

lemma drain_exists: "sl_inv {} P0 s \<Longrightarrow> \<exists>k s'. drains k s s' \<and> (\<forall>l. sl_queues s' l = [])"
proof (induction "workload (loops_of s) s" arbitrary: s rule: less_induct)
  case less
  show ?case
  proof (cases "\<forall>l. sl_queues s l = []")
    case False
    then obtain l f fs where q: "sl_queues s l = f # fs" by (meson neq_Nil_conv)
    obtain s1 where s1: "run_head l s = Inr s1" "sl_inv {} P0 s1" using run_head_ok[OF less.prems, of l] by auto
    note fin = finite_loops_of[OF sl_invD(1)[OF less.prems]]
    have e: "workload (loops_of s) s1 < workload (loops_of s) s" "loops_of s1 \<subseteq> loops_of s"
      using run_head_effect[OF less.prems q s1(1)] fin by auto
    have "workload (loops_of s1) s1 \<le> workload (loops_of s) s1"
      unfolding workload_def by (rule sum_mono2[OF fin e(2)]) simp
    then obtain k s' where "drains k s1 s'" "\<forall>l. sl_queues s' l = []" using less.hyps[OF _ s1(2)] e(1) by auto
    then show ?thesis using drains_Suc[of s l s1 k s'] q s1(1) by auto
  qed (use drains_0 in blast)
qed

text \<open>With no functor waiting, what exists is listed and open, and what is gone has reported its end.\<close>

lemma settled:
  assumes inv: "sl_inv {} P0 s" and q: "\<And>l. sl_queues s l = []"
  shows "sl_conns s n = Some (co, c) \<Longrightarrow> connections (sl_server s) n = Some co \<and> (tc_state c = kConnected \<or> tc_state c = kDisconnecting) \<and>
      bit (watched_mask (tc_addr c) (sl_pollers s (co_loop co))) 0 \<and> life (sl_history s n) = [CallConnection kConnected]"
    and "alive s n \<longleftrightarrow> sl_conns s n \<noteq> None" "dom (connections (sl_server s)) = dom (sl_conns s)"
proof -
  have 1: "connections (sl_server s) n = Some co \<and> (tc_state c = kConnected \<or> tc_state c = kDisconnecting) \<and>
      bit (watched_mask (tc_addr c) (sl_pollers s (co_loop co))) 0 \<and> life (sl_history s n) = [CallConnection kConnected]"
    if c: "sl_conns s n = Some (co, c)" for n co c
  proof -
    have "phase_ok s n co c" "pending s n co = (0, 0, 0)" "conn_inv c (sl_pollers s (co_loop co))"
      using sl_invD(2)[OF inv _ c] q by (auto simp: conn_ok_def pending_def)
    then show ?thesis by (cases "tc_state c") (auto simp: phase_ok_def conn_inv_def)
  qed
  then show "sl_conns s n = Some (co, c) \<Longrightarrow> connections (sl_server s) n = Some co \<and> (tc_state c = kConnected \<or> tc_state c = kDisconnecting) \<and>
      bit (watched_mask (tc_addr c) (sl_pollers s (co_loop co))) 0 \<and> life (sl_history s n) = [CallConnection kConnected]" by blast
  show "alive s n \<longleftrightarrow> sl_conns s n \<noteq> None" using 1[of n] by (auto simp: alive_def)
  show "dom (connections (sl_server s)) = dom (sl_conns s)" using 1 sl_coreD(9)[OF sl_invD(1)[OF inv]] by fastforce
qed

lemma life_prefix: "sl_inv {} P0 s \<Longrightarrow> \<exists>k. life (sl_history s n) = take k [CallConnection kConnected, CallConnection kDisconnected, CallClose]"
proof -
  assume inv: "sl_inv {} P0 s"
  have "life (sl_history s n) \<in> {[], [CallConnection kConnected], [CallConnection kConnected, CallConnection kDisconnected, CallClose]}"
  proof (cases "sl_conns s n")
    case None
    then show ?thesis using sl_coreD(10)[OF sl_invD(1)[OF inv] None] by auto
  next
    case (Some x)
    obtain co c where x: "x = (co, c)" by fastforce
    have "phase_ok s n co c" using sl_invD(2)[OF inv, of n co c] Some x by (simp add: conn_ok_def)
    then show ?thesis by (cases "tc_state c") (auto simp: phase_ok_def)
  qed
  then show ?thesis by (auto intro: exI[of _ 0] exI[of _ 1] exI[of _ 3])
qed

section \<open>Properties\<close>

text \<open>C5: however the threads of the loops interleave accepting connections, running functors, reporting events and user calls, every connection that exists is in exactly one phase, with its state, the functors that wait for it, its entry in the table of the server, its callbacks so far and its registration in agreement; the callbacks of any connection ever accepted are a prefix of: connected, disconnected, close; and no functor, event or accept that can come next fails, so no assertion is violated and no freed connection is used.\<close>

theorem connection_lifecycle:
  assumes "sl_reach P0 s"
  shows "(\<forall>n co c. sl_conns s n = Some (co, c) \<longrightarrow> co_name co = n \<and> conn_inv c (sl_pollers s (co_loop co)) \<and> phase_ok s n co c) \<and>
    (\<forall>n. \<exists>k. life (sl_history s n) = take k [CallConnection kConnected, CallConnection kDisconnected, CallClose]) \<and>
    (\<forall>l. \<exists>s'. run_head l s = Inr s') \<and>
    (\<forall>n co c e. sl_conns s n = Some (co, c) \<longrightarrow> event_ok c e \<longrightarrow> single_end e \<longrightarrow> event_possible c (sl_pollers s (co_loop co)) e \<longrightarrow>
       (\<exists>s'. event_in_loop n e s = Inr s')) \<and>
    (\<forall>sn fd peer a. nextConnId (sl_server s) < 2 ^ 31 - 1 \<longrightarrow> unused P0 fd a s \<longrightarrow> (\<exists>s'. accept_conn sn fd peer a s = Inr s'))"
proof -
  note inv = sl_reach_inv[OF assms]
  have "co_name co = n \<and> conn_inv c (sl_pollers s (co_loop co)) \<and> phase_ok s n co c" if "sl_conns s n = Some (co, c)" for n co c
    using named_co[OF inv that] sl_invD(2)[OF inv _ that] by (simp add: conn_ok_def)
  moreover have "\<exists>s'. run_head l s = Inr s'" for l using run_head_ok[OF inv, of l] by auto
  moreover have "\<exists>s'. event_in_loop n e s = Inr s'" if "sl_conns s n = Some (co, c)" "event_ok c e" "single_end e"
      "event_possible c (sl_pollers s (co_loop co)) e" for n co c e
    using event_in_loop_ok[OF inv that] by auto
  moreover have "\<exists>s'. accept_conn sn fd peer a s = Inr s'" if "nextConnId (sl_server s) < 2 ^ 31 - 1" "unused P0 fd a s" for sn fd peer a
    using accept_conn_ok[OF inv that(2,1)] by auto
  ultimately show ?thesis using life_prefix[OF inv] by (intro conjI allI impI) (assumption | metis)+
qed

text \<open>A server with one pool thread that has accepted a connection: its establishment waits in loop 11.\<close>

lemma one_accepted:
  "\<exists>P0 s. sl_reach P0 s \<and> sl_queues s 11 = [Establish ''http-0.0.0.0:8080#1''] \<and> alive s ''http-0.0.0.0:8080#1''"
proof -
  let ?n = "''http-0.0.0.0:8080#1''"
  obtain q where q: "new_EPollPoller 5 = Inr q" "channels q = Map.empty" "heap q = Map.empty" by (simp add: new_EPollPoller_def)
  have qi: "poller_inv q" by (rule poller_reach_inv[OF reach_init[OF q(1)]])
  have d: "show_nat 8080 = ''8080''" "show_nat 1 = ''1''" by (simp_all add: show_nat.simps digit_char_def char_of_def bit_0)
  then obtain s0 calls p' where s0: "new_TcpServer False 1 (new_InetAddress 8080 ''127.0.0.1'') ''http'' kNoReusePort 3 False 70 q = Inr (s0, calls, p')"
    and f: "ts_loop s0 = 1" "ipPort s0 = ''0.0.0.0:8080''" "ts_name s0 = ''http''" "threadPool s0 = new_EventLoopThreadPool 1 ''http''"
      "nextConnId s0 = 1" "started s0 = 0"
    using toIpPort_new[of 8080] by (simp add: new_TcpServer_def new_Acceptor_def createNonblocking_def bindAddress_def)
  let ?srv = "snd (start (\<lambda>i. 11 + i) False (setThreadNum 1 s0))"
  let ?s = "\<lparr>sl_server = ?srv, sl_queues = \<lambda>_. [], sl_pollers = \<lambda>_. q, sl_conns = Map.empty, sl_history = \<lambda>_. []\<rparr>"
  have r: "sl_reach (\<lambda>_. q) ?s" by (rule sl_start[OF s0 refl]) (rule qi)
  have g: "nextConnId ?srv = 1" "ts_loop ?srv = 1" "conn_name ?srv = ?n" "fst (getNextLoop (threadPool ?srv)) = Inr 11"
    using f d(2) by (simp_all add: start_def setThreadNum_def conn_name_def show_int_def start_pool_def setThreadNum_pool_def new_EventLoopThreadPool_def getNextLoop_def)
  obtain co srv where co: "newConnection None 7 (new_InetAddress 9 ''a'') ?srv = Inr ([RunEstablished 11 co], srv)" "co_name co = ?n" "co_loop co = 11"
    using g by (simp add: newConnection_def Let_def case_prod_unfold)
  obtain t p es where t: "new_TcpConnection False ?n 7 80 q = Inr (t, p, es)" "tc_state t = kConnecting"
    by (simp add: new_TcpConnection_def)
  let ?s' = "queue_in_loop 11 (Establish ?n) (set_conn ?n co t p es (?s\<lparr>sl_server := srv\<rparr>))"
  have "accept_conn None 7 (new_InetAddress 9 ''a'') 80 ?s = Inr ?s'" using co t g(2) by (simp add: accept_conn_def Let_def)
  then have "sl_reach (\<lambda>_. q) ?s'" by (rule sl_accept[OF r, rotated 2]) (use g(1) q in \<open>auto simp: unused_def\<close>)
  moreover have "sl_queues ?s' 11 = [Establish ?n]" "alive ?s' ?n" using t by (simp_all add: alive_def)
  ultimately show ?thesis by blast
qed

theorem connection_lifecycle_witness:
  "\<exists>P0 s co c s'. sl_reach P0 s \<and> sl_conns s ''http-0.0.0.0:8080#1'' = Some (co, c) \<and> phase_ok s ''http-0.0.0.0:8080#1'' co c \<and>
     sl_queues s 11 = [Establish ''http-0.0.0.0:8080#1''] \<and> run_head 11 s = Inr s'"
proof -
  obtain P0 s where s: "sl_reach P0 s" "sl_queues s 11 = [Establish ''http-0.0.0.0:8080#1'']" "alive s ''http-0.0.0.0:8080#1''"
    using one_accepted by blast
  obtain co c where c: "sl_conns s ''http-0.0.0.0:8080#1'' = Some (co, c)" using s(3) by (auto simp: alive_def)
  note p = connection_lifecycle[OF s(1)]
  obtain s' where "run_head 11 s = Inr s'" using p by meson
  then show ?thesis using s c p by meson
qed

text \<open>C6: once nothing new happens, the queues of the loops run empty after a bounded number of functors, in whatever order the loops take them; then exactly the connections that were not closed are left, all of them listed in the table, open and watched for reading, and the pollers hold nothing of the others.\<close>

theorem connections_drain:
  assumes "sl_reach P0 s"
  shows "\<exists>N. \<forall>k s1. drains k s s1 \<longrightarrow> k \<le> N \<and> (\<exists>j s2. drains j s1 s2 \<and> (\<forall>l. sl_queues s2 l = [])) \<and>
    ((\<forall>l. sl_queues s1 l = []) \<longrightarrow>
       (\<forall>n. sl_conns s1 n \<noteq> None \<longleftrightarrow> alive s n) \<and> dom (connections (sl_server s1)) = dom (sl_conns s1) \<and>
       (\<forall>n co c. sl_conns s1 n = Some (co, c) \<longrightarrow> (tc_state c = kConnected \<or> tc_state c = kDisconnecting) \<and>
          bit (watched_mask (tc_addr c) (sl_pollers s1 (co_loop co))) 0) \<and>
       (\<forall>l fd. (\<forall>n co c. sl_conns s1 n = Some (co, c) \<longrightarrow> co_loop co = l \<longrightarrow> co_fd co \<noteq> fd) \<longrightarrow>
          channels (sl_pollers s1 l) fd = channels (P0 l) fd))"
proof (rule exI[of _ "workload (loops_of s) s"], intro allI impI conjI)
  note inv = sl_reach_inv[OF assms]
  fix k s1 assume d: "drains k s s1"
  note e = drain_effect[OF d inv]
  then have inv1: "sl_inv {} P0 s1" by blast
  show "k \<le> workload (loops_of s) s" using e finite_loops_of[OF sl_invD(1)[OF inv]] by (meson add_leD1 order_refl)
  show "\<exists>j s2. drains j s1 s2 \<and> (\<forall>l. sl_queues s2 l = [])" by (rule drain_exists[OF inv1])
  assume "\<forall>l. sl_queues s1 l = []"
  then have q: "sl_queues s1 l = []" for l by blast
  show "sl_conns s1 n \<noteq> None \<longleftrightarrow> alive s n" for n using settled(2)[OF inv1 q] e by blast
  show "dom (connections (sl_server s1)) = dom (sl_conns s1)" by (rule settled(3)[OF inv1 q])
  show "tc_state c = kConnected \<or> tc_state c = kDisconnecting" "bit (watched_mask (tc_addr c) (sl_pollers s1 (co_loop co))) 0"
    if "sl_conns s1 n = Some (co, c)" for n co c using settled(1)[OF inv1 q that] by blast+
  show "channels (sl_pollers s1 l) fd = channels (P0 l) fd"
    if "\<forall>n co c. sl_conns s1 n = Some (co, c) \<longrightarrow> co_loop co = l \<longrightarrow> co_fd co \<noteq> fd" for l fd
    using sl_coreD(6)[OF sl_invD(1)[OF inv1]] that by blast
qed

theorem connections_drain_witness:
  "\<exists>P0 s s2. sl_reach P0 s \<and> sl_queues s 11 = [Establish ''http-0.0.0.0:8080#1''] \<and> alive s ''http-0.0.0.0:8080#1'' \<and>
     (\<forall>l. sl_queues s2 l = []) \<and> (\<exists>k. drains k s s2) \<and> sl_conns s2 ''http-0.0.0.0:8080#1'' \<noteq> None"
proof -
  obtain P0 s where s: "sl_reach P0 s" "sl_queues s 11 = [Establish ''http-0.0.0.0:8080#1'']" "alive s ''http-0.0.0.0:8080#1''"
    using one_accepted by blast
  obtain N where N: "\<forall>k s1. drains k s s1 \<longrightarrow> (\<exists>j s2. drains j s1 s2 \<and> (\<forall>l. sl_queues s2 l = [])) \<and>
      ((\<forall>l. sl_queues s1 l = []) \<longrightarrow> (\<forall>n. sl_conns s1 n \<noteq> None \<longleftrightarrow> alive s n))" using connections_drain[OF s(1)] by meson
  then obtain k s2 where d: "drains k s s2" "\<forall>l. sl_queues s2 l = []" using drains_0 by meson
  moreover have "sl_conns s2 ''http-0.0.0.0:8080#1'' \<noteq> None" using N d s(3) by meson
  ultimately show ?thesis using s by blast
qed

end
