(* ===== verification/Echo_Server.thy ===== *)
theory Echo_Server
  imports Conn_Events Tcp_Server
begin

text \<open>
  \<open>src/example/echoServer.cc\<close> (and \<open>echoServerAsync.cc\<close>, which differs in its logging only): the server
  that sends every message back. It does not ask for threads, so its callbacks run in the thread of
  the base loop. The connection is followed from the event \<open>epoll_wait\<close> reports over
  \<open>TcpConnection::handleRead\<close> to the callback and the \<open>send\<close> it makes.
\<close>

section \<open>EchoServer\<close>

record EchoServer =
  es_loop :: nat
  es_server :: TcpServer

definition new_EchoServer :: "bool \<Rightarrow> nat \<Rightarrow> InetAddress \<Rightarrow> string \<Rightarrow> int \<Rightarrow> bool \<Rightarrow> addr \<Rightarrow> Poller \<Rightarrow>
    (EchoServer \<times> sock_call list \<times> Poller) result" where
  "new_EchoServer loop_null lp listenAddr name fd bind_failed ch p =
     bind_r (new_TcpServer loop_null lp listenAddr name kNoReusePort fd bind_failed ch p) (\<lambda>(s, calls, p').
       Inr (\<lparr>es_loop = lp, es_server = s\<rparr>, calls, p'))"

definition start_echo :: "(nat \<Rightarrow> nat) \<Rightarrow> bool \<Rightarrow> EchoServer \<Rightarrow> server_effect list \<times> EchoServer" where
  "start_echo new_loop has_cb s =
     (let (es, srv) = start new_loop has_cb (es_server s) in (es, s\<lparr>es_server := srv\<rparr>))"

definition onConnection_echo :: "InetAddress \<Rightarrow> TcpConnection \<Rightarrow> string result" where
  "onConnection_echo peer c =
     bind_r (toIpPort peer) (\<lambda>a. Inr ((if connected c then ''Connection UP : '' else ''Connection DOWN : '') @ a))"

definition onMessage_echo :: "write_result \<Rightarrow> TcpConnection \<Rightarrow> Poller \<Rightarrow> tc_result" where
  "onMessage_echo wr c p =
     bind_r (retrieveAllAsString (tc_in c)) (\<lambda>(msg, buf).
     bind_r (send_string True wr 0 msg (c\<lparr>tc_in := buf\<rparr>) p) (\<lambda>(fs, r). Inr r))"

text \<open>
  A readable event: the handlers, then the callback where \<open>handleRead\<close> calls it, as the last thing it
  does. \<open>wr\<close> is the result of the \<open>write\<close> the callback makes.
\<close>

definition echo_readable :: "int \<Rightarrow> string \<Rightarrow> write_result \<Rightarrow> TcpConnection \<Rightarrow> Poller \<Rightarrow> tc_result" where
  "echo_readable now bs wr c p =
     bind_r (channel_event now EPOLLIN (ReadvOk bs) wr c p) (\<lambda>(c1, p1, e1).
       if CallMessage now \<in> set e1
       then bind_r (onMessage_echo wr c1 p1) (\<lambda>(c2, p2, e2). Inr (c2, p2, e1 @ e2))
       else Inr (c1, p1, e1))"

definition echo_writable :: "int \<Rightarrow> nat \<Rightarrow> TcpConnection \<Rightarrow> Poller \<Rightarrow> tc_result" where
  "echo_writable now n c p = channel_event now EPOLLOUT (ReadvErr EWOULDBLOCK) (WriteOk n) c p"

section \<open>The specification\<close>

text \<open>
  An echo service as its client sees it: bytes received are pending until they are sent back, in
  order. It makes no difference how they are cut into reads and writes.
\<close>

record echo_spec =
  sp_received :: string
  sp_sent :: string

definition spec_receive :: "string \<Rightarrow> echo_spec \<Rightarrow> echo_spec" where
  "spec_receive bs s = s\<lparr>sp_received := sp_received s @ bs\<rparr>"

definition spec_pending :: "echo_spec \<Rightarrow> string" where
  "spec_pending s = drop (length (sp_sent s)) (sp_received s)"

definition spec_send :: "nat \<Rightarrow> echo_spec \<Rightarrow> echo_spec" where
  "spec_send n s = s\<lparr>sp_sent := sp_sent s @ take n (spec_pending s)\<rparr>"

definition echo_abs :: "TcpConnection \<Rightarrow> echo_spec" where
  "echo_abs c = \<lparr>sp_received = stream c, sp_sent = tc_wire c\<rparr>"

text \<open>
  The runs of the service: reads of at least one byte, whose answer the kernel takes as far as it
  wants, and writability events, reported because they are asked for. The list is what the client
  has sent.
\<close>

inductive echo_run :: "string \<Rightarrow> TcpConnection \<Rightarrow> Poller \<Rightarrow> bool" where
  echo_start: "poller_inv p \<Longrightarrow> heap p a = None \<Longrightarrow> channels p fd = None \<Longrightarrow>
     new_TcpConnection False nm fd a p = Inr (c0, p0, es0) \<Longrightarrow> connectEstablished c0 p0 = Inr (c, p', es) \<Longrightarrow> echo_run [] c p'"
| echo_read: "echo_run r c p \<Longrightarrow> bs \<noteq> [] \<Longrightarrow> readv_ok (tc_in c) (ReadvOk bs) \<Longrightarrow> write_valid wr (length bs) \<Longrightarrow>
     length bs < 2 ^ 31 \<Longrightarrow> writerIndex (tc_out c) + length bs \<le> vector_max_size \<Longrightarrow>
     echo_readable now bs wr c p = Inr (c', p', es) \<Longrightarrow> echo_run (r @ bs) c' p'"
| echo_write: "echo_run r c p \<Longrightarrow> 0 < n \<Longrightarrow> n \<le> length (content (tc_out c)) \<Longrightarrow>
     echo_writable now n c p = Inr (c', p', es) \<Longrightarrow> echo_run r c' p'"

section \<open>Lemmas\<close>

text \<open>The callbacks of the channel stay set, whatever is registered with it.\<close>

definition wired :: "addr \<Rightarrow> Poller \<Rightarrow> bool" where
  "wired a p \<longleftrightarrow> (\<exists>ch. heap p a = Some ch \<and> has_readCb ch \<and> has_writeCb ch)"

lemma apply_op_callbacks [simp]:
  "has_readCb (apply_op oper ch) = has_readCb ch" "has_writeCb (apply_op oper ch) = has_writeCb ch"
  by (cases oper; simp)+

lemma set_index_callbacks [simp]: "has_readCb (set_index i ch) = has_readCb ch" "has_writeCb (set_index i ch) = has_writeCb ch"
  by (simp_all add: set_index_def)

lemma wired_other [simp]: "wired a (p\<lparr>interest := m\<rparr>) = wired a p" "wired a (p\<lparr>channels := k\<rparr>) = wired a p"
  by (simp_all add: wired_def)

lemma wired_upd [simp]: "wired a (p\<lparr>heap := h(a \<mapsto> ch)\<rparr>) \<longleftrightarrow> has_readCb ch \<and> has_writeCb ch"
  by (simp add: wired_def)

lemma update_wired: "update d oper a ch p = Inr p' \<Longrightarrow> wired b p \<Longrightarrow> wired b p' \<and> heap p' = heap p"
  by (auto simp: update_def split: option.splits if_splits)

lemma channel_op_wired:
  assumes "wired a p" "channel_op d oper a p = Inr p'"
  shows "wired a p'"
proof -
  obtain ch where ch: "heap p a = Some ch" "has_readCb ch" "has_writeCb ch" using assms(1) by (auto simp: wired_def)
  then show ?thesis using assms
    by (auto simp: channel_op_def updateChannel_def Let_def bind_r_eq_Inr split: if_splits
        dest!: update_wired)
qed

lemma enable_writing_wired:
  "conn_inv c p \<Longrightarrow> wired (tc_addr c) p \<Longrightarrow> enable_writing_if c p = Inr p' \<Longrightarrow> wired (tc_addr c) p'"
  by (auto simp: enable_writing_if_def conn_inv_writing split: if_splits intro: channel_op_wired)

lemma sendInLoop_frame:
  assumes "sendInLoop wr d c p = Inr (c', p', es)" "conn_inv c p" "wired (tc_addr c) p"
  shows "wired (tc_addr c') p' \<and> tc_in c' = tc_in c \<and> (\<exists>w. tc_wire c' = tc_wire c @ w)"
proof -
  have e: "wired (tc_addr c) q" if "enable_writing_if (c\<lparr>tc_wire := w\<rparr>) p = Inr q" for w q
    using enable_writing_wired[of "c\<lparr>tc_wire := w\<rparr>" p q] assms(2,3) that by simp
  show ?thesis using assms e enable_writing_wired[OF assms(2,3)]
    by (auto simp: sendInLoop_def conn_inv_writing Let_def bind_r_eq_Inr split: if_splits prod.splits)
qed

lemma handleWrite_frame:
  assumes "handleWrite wr c p = Inr (c', p', es)" "conn_inv c p" "wired (tc_addr c) p"
  shows "wired (tc_addr c') p' \<and> tc_in c' = tc_in c"
  using assms channel_op_wired[OF assms(3)]
  by (auto simp: handleWrite_def conn_inv_writing Let_def bind_r_eq_Inr shutdownInLoop_def split: if_splits prod.splits)

text \<open>The events the two kinds of reports lead to.\<close>

lemma handleEvent_in: "has_readCb ch \<Longrightarrow> handleEvent True now (set_revents EPOLLIN ch) = [ReadCb now]"
  by (simp add: handleEvent_def handleEventWithGuard_def set_revents_def epoll_masks)

lemma handleEvent_out: "has_writeCb ch \<Longrightarrow> handleEvent True now (set_revents EPOLLOUT ch) = [WriteCb]"
  by (simp add: handleEvent_def handleEventWithGuard_def set_revents_def epoll_masks)

lemma wired_event:
  assumes "conn_inv c p" "wired (tc_addr c) p"
  shows "\<exists>q. conn_inv c q \<and> wired (tc_addr c) q \<and>
    channel_event now EPOLLIN rv wr c p = handleRead rv now c q" "\<exists>q. conn_inv c q \<and> wired (tc_addr c) q \<and>
    channel_event now EPOLLOUT rv wr c p = handleWrite wr c q"
proof -
  obtain ch where ch: "heap p (tc_addr c) = Some ch" "has_readCb ch" "has_writeCb ch" using assms(2) by (auto simp: wired_def)
  define q where "q re = p\<lparr>heap := (heap p)(tc_addr c \<mapsto> set_revents re ch)\<rparr>" for re
  have q: "conn_inv c (q re)" "wired (tc_addr c) (q re)" for re
    using conn_inv_same[OF set_revents_same[OF ch(1)] assms(1)] ch by (auto simp: q_def wired_def set_revents_def)
  have "channel_event now EPOLLIN rv wr c p = handleRead rv now c (q EPOLLIN)"
    "channel_event now EPOLLOUT rv wr c p = handleWrite wr c (q EPOLLOUT)"
    using ch by (simp_all add: channel_event_def q_def handleEvent_in handleEvent_out run_one_callback
        del: run_conn_callbacks.simps)
  then show "\<exists>q. conn_inv c q \<and> wired (tc_addr c) q \<and> channel_event now EPOLLIN rv wr c p = handleRead rv now c q"
    "\<exists>q. conn_inv c q \<and> wired (tc_addr c) q \<and> channel_event now EPOLLOUT rv wr c p = handleWrite wr c q"
    using q by blast+
qed

definition echo_inv :: "string \<Rightarrow> TcpConnection \<Rightarrow> Poller \<Rightarrow> bool" where
  "echo_inv r c p \<longleftrightarrow> conn_inv c p \<and> wired (tc_addr c) p \<and> tc_state c = kConnected \<and> stream c = r \<and> content (tc_in c) = []"

text \<open>A message is answered: progress and preservation of the two kinds of events.\<close>

lemma retrieveAllAsString_ok:
  "buffer_inv b \<Longrightarrow> \<exists>b'. retrieveAllAsString b = Inr (content b, b') \<and> buffer_inv b' \<and> content b' = []"
  using string_at_peek_readable[of b "readableBytes b"] length_content[of b]
  by (auto simp: retrieveAllAsString_def retrieveAsString_def)

lemma echo_readable_ok:
  assumes inv: "echo_inv r c p" and bs: "bs \<noteq> []" "readv_ok (tc_in c) (ReadvOk bs)" "write_valid wr (length bs)"
      "length bs < 2 ^ 31" "writerIndex (tc_out c) + length bs \<le> vector_max_size"
  shows "\<exists>c' p' es. echo_readable now bs wr c p = Inr (c', p', es) \<and> echo_inv (r @ bs) c' p' \<and>
    (\<exists>k. echo_abs c' = spec_send k (spec_receive bs (echo_abs c)))"
proof -
  have i: "conn_inv c p" "wired (tc_addr c) p" "tc_state c = kConnected" "stream c = r" "content (tc_in c) = []"
    using inv by (simp_all add: echo_inv_def)
  obtain q where q: "conn_inv c q" "wired (tc_addr c) q" "channel_event now EPOLLIN (ReadvOk bs) wr c p = handleRead (ReadvOk bs) now c q"
    using wired_event(1)[OF i(1,2)] by blast
  obtain b where b: "readFd (ReadvOk bs) (tc_in c) = Inr (int (length bs), None, b)" "buffer_inv b" "content b = bs"
    using readFd_ok[of "tc_in c" bs] i bs(2) by (auto simp: conn_inv_def)
  obtain b' where b': "retrieveAllAsString b = Inr (bs, b')" "buffer_inv b'" "content b' = []"
    using retrieveAllAsString_ok[OF b(2)] b(3) by auto
  define c1 where "c1 = c\<lparr>tc_in := b'\<rparr>"
  have c1: "conn_inv c1 q" "tc_state c1 = kConnected" "wired (tc_addr c1) q" "stream c1 = r"
    using conn_inv_in[OF q(1) b'(2)] i q(2) by (simp_all add: c1_def stream_def)
  obtain c' p' es where s: "sendInLoop wr bs c1 q = Inr (c', p', es)" "conn_inv c' p'" "stream c' = stream c1 @ bs" "tc_state c' = tc_state c1"
    using sendInLoop_ok[OF c1(1) _ bs(3,4)] bs(5) c1(2) by (auto simp: c1_def)
  obtain w where f: "wired (tc_addr c') p'" "tc_in c' = b'" "tc_wire c' = tc_wire c @ w"
    using sendInLoop_frame[OF s(1) c1(1,3)] by (auto simp: c1_def)
  have "stream c @ bs = tc_wire c @ w @ content (tc_out c')" using s(3) f(3) c1(4) i(4) by (simp add: stream_def)
  then have "echo_abs c' = spec_send (length w) (spec_receive bs (echo_abs c))"
    using f(3) s(3) c1(4) i(4) by (simp add: echo_abs_def spec_send_def spec_receive_def spec_pending_def)
  moreover have "echo_readable now bs wr c p = Inr (c', p', [CallMessage now] @ es)"
    using q(3) b(1) bs(1) b'(1) s(1) c1(2) i(3)
    by (simp add: echo_readable_def handleRead_def onMessage_echo_def send_string_def c1_def)
  ultimately show ?thesis using s f b'(3) c1 i(4) by (auto simp: echo_inv_def)
qed

lemma echo_writable_ok:
  assumes inv: "echo_inv r c p" and n: "0 < n" "n \<le> length (content (tc_out c))"
  shows "\<exists>c' p' es. echo_writable now n c p = Inr (c', p', es) \<and> echo_inv r c' p' \<and> echo_abs c' = spec_send n (echo_abs c)"
proof -
  have i: "conn_inv c p" "wired (tc_addr c) p" "tc_state c = kConnected" "stream c = r" "content (tc_in c) = []"
    using inv by (simp_all add: echo_inv_def)
  obtain q where q: "conn_inv c q" "wired (tc_addr c) q" "channel_event now EPOLLOUT (ReadvErr EWOULDBLOCK) (WriteOk n) c p = handleWrite (WriteOk n) c q"
    using wired_event(2)[OF i(1,2)] by blast
  obtain c' p' es where s: "handleWrite (WriteOk n) c q = Inr (c', p', es)" "conn_inv c' p'"
      "tc_wire c' = tc_wire c @ take n (content (tc_out c))" "content (tc_out c') = drop n (content (tc_out c))" "tc_state c' = tc_state c"
    using handleWrite_ok[OF q(1) _ n] i(3) by auto
  then show ?thesis using q(3) handleWrite_frame[OF s(1) q(1,2)] i
    by (auto simp: echo_writable_def echo_inv_def stream_def echo_abs_def spec_send_def spec_pending_def)
qed

lemma established_echo:
  assumes "poller_inv p" "heap p a = None" "channels p fd = None" "new_TcpConnection False nm fd a p = Inr (c0, p0, es0)"
    and "connectEstablished c0 p0 = Inr (c, p', es)"
  shows "echo_inv [] c p'"
proof -
  have c: "conn_inv c p'" "tc_state c = kConnected" "stream c = []" "tc_addr c = a"
    using established_inv[OF assms(1-4)] assms(5) by auto
  have "c = setState kConnected c0" "tc_in c0 = new_Buffer kInitialSize" "tc_addr c0 = a"
    using assms(4,5) by (auto simp: connectEstablished_def new_TcpConnection_def bind_r_eq_Inr split: option.splits)
  then have "content (tc_in c) = []" by (simp add: setState_def)
  moreover have "wired a p'"
  proof -
    let ?ch = "setErrorCallback (setCloseCallback (setWriteCallback (setReadCallback (new_Channel fd))))"
    have "wired a (p\<lparr>heap := (heap p)(a \<mapsto> tie ?ch)\<rparr>)"
      by (simp add: wired_def tie_def setErrorCallback_def setCloseCallback_def setWriteCallback_def setReadCallback_def)
    moreover have "channel_op False EnableReading a (p\<lparr>heap := (heap p)(a \<mapsto> tie ?ch)\<rparr>) = Inr p'"
      using assms(4,5) by (auto simp: connectEstablished_def new_TcpConnection_def bind_r_eq_Inr)
    ultimately show ?thesis by (rule channel_op_wired)
  qed
  ultimately show ?thesis using c by (simp add: echo_inv_def)
qed

lemma echo_run_inv: "echo_run r c p \<Longrightarrow> echo_inv r c p"
proof (induction rule: echo_run.induct)
  case (echo_start p a fd nm c0 p0 es0 c p' es)
  then show ?case by (intro established_echo)
next
  case (echo_read r c p bs wr now c' p' es)
  then show ?case using echo_readable_ok[of r c p bs wr now] by auto
next
  case (echo_write r c p n now c' p' es)
  then show ?case using echo_writable_ok[of r c p n now] by auto
qed


section \<open>Properties\<close>

text \<open>
  C7: the echo server refines the echo service. In every state a connection of it can reach, the bytes
  on the wire followed by the bytes that wait are exactly the bytes the client has sent, in order;
  a readable event is served without a fault and is, in the specification, the receipt of its bytes
  followed by the sending of some of the pending ones; a writability event is the sending of as many
  as the kernel takes; and as long as bytes wait, writability is awaited, so the service does not
  stall.
\<close>

theorem echo_refines_service:
  assumes "echo_run r c p"
  shows "tc_wire c @ content (tc_out c) = r \<and>
    (content (tc_out c) \<noteq> [] \<longrightarrow> conn_writing c p = Inr True) \<and>
    (\<forall>now bs wr. bs \<noteq> [] \<and> readv_ok (tc_in c) (ReadvOk bs) \<and> write_valid wr (length bs) \<and> length bs < 2 ^ 31 \<and>
        writerIndex (tc_out c) + length bs \<le> vector_max_size \<longrightarrow>
      (\<exists>c' p' es k. echo_readable now bs wr c p = Inr (c', p', es) \<and> echo_abs c' = spec_send k (spec_receive bs (echo_abs c)))) \<and>
    (\<forall>now n. 0 < n \<and> n \<le> length (content (tc_out c)) \<longrightarrow>
      (\<exists>c' p' es. echo_writable now n c p = Inr (c', p', es) \<and> echo_abs c' = spec_send n (echo_abs c)))"
proof -
  have inv: "echo_inv r c p" by (rule echo_run_inv[OF assms])
  then have i: "conn_inv c p" "tc_state c = kConnected" "stream c = r" by (simp_all add: echo_inv_def)
  then have "content (tc_out c) \<noteq> [] \<longrightarrow> conn_writing c p = Inr True"
    using conn_inv_writing[OF i(1)] by (simp add: conn_inv_def)
  moreover have "tc_wire c @ content (tc_out c) = r" using i(3) by (simp add: stream_def)
  ultimately show ?thesis using echo_readable_ok[OF inv] echo_writable_ok[OF inv] by blast
qed


theorem echo_refines_service_witness:
  "\<exists>c p c' p' es. echo_run [] c p \<and> echo_readable 7 ''ping'' (WriteOk 3) c p = Inr (c', p', es) \<and>
     echo_run ''ping'' c' p' \<and> tc_wire c' @ content (tc_out c') = ''ping''"
proof -
  let ?p = "\<lparr>heap = Map.empty, channels = Map.empty, interest = Map.empty, events_size = 16\<rparr> :: Poller"
  have i: "poller_inv ?p" "heap ?p 1 = None" "channels ?p 9 = None" by (simp_all add: poller_inv_def)
  obtain c0 p0 es0 where n: "new_TcpConnection False ''c'' 9 1 ?p = Inr (c0, p0, es0)" by (simp add: new_TcpConnection_def)
  from established_inv[OF i n] obtain c p where e: "connectEstablished c0 p0 = Inr (c, p, [CallConnection kConnected])"
    "writerIndex (tc_out c) = 8" by blast
  have r: "echo_run [] c p" by (rule echo_start[OF i n e(1)])
  have "tc_in c = new_Buffer kInitialSize"
    using n e(1) by (auto simp: connectEstablished_def new_TcpConnection_def bind_r_eq_Inr setState_def)
  then have v: "''ping'' \<noteq> []" "readv_ok (tc_in c) (ReadvOk ''ping'')" "write_valid (WriteOk 3) (length ''ping'')"
    "length ''ping'' < 2 ^ 31" "writerIndex (tc_out c) + length ''ping'' \<le> vector_max_size"
    using e(2) by (simp_all add: readv_fits_def vector_max_size_def extrabuf_size_def kInitialSize_def)
  then obtain c' p' es where s: "echo_readable 7 ''ping'' (WriteOk 3) c p = Inr (c', p', es)"
    using echo_refines_service[OF r] by blast
  have "echo_run ([] @ ''ping'') c' p'" by (rule echo_read[OF r v s])
  then have "echo_run ''ping'' c' p'" by simp
  moreover from conjunct1[OF echo_refines_service[OF this]] have "tc_wire c' @ content (tc_out c') = ''ping''" .
  ultimately show ?thesis using r s by blast
qed

end
