(* ===== verification/Log_Backend.thy ===== *)
theory Log_Backend
  imports Async_Log
begin

text \<open>
  The log from the logging statement to the disk: \<open>Logger\<close> formats a record and gives it to the output
  function, which \<open>main.cc\<close> sets to \<open>asyncOutput\<close>, that is to \<open>AsyncLogging::append\<close>; the thread of
  \<open>AsyncLogging\<close> (\<open>threadFunc\<close>) owns a \<open>LogFile\<close> and writes the collected buffers to it. The parts are
  those of \<open>Log_Stream\<close> and \<open>Async_Log\<close>; here they are put together.
\<close>

section \<open>The thread of the backend\<close>

text \<open>
  \<open>LogFile output(basename_, rollSize_, false)\<close>: the third argument is the flush interval, the number
  of appends between checks has its default value.
\<close>

definition backend_file :: "(int \<Rightarrow> string) \<Rightarrow> bool \<Rightarrow> int \<Rightarrow> AsyncLogging \<Rightarrow> LogFile result" where
  "backend_file stamp opened now s = new_LogFile stamp opened now (al_basename s) (al_rollSize s) 0 1024"

text \<open>The part of the loop outside the lock; every append has its own inputs.\<close>

definition backend_write :: "(int \<Rightarrow> string) \<Rightarrow> (bool \<times> int \<times> int \<times> nat list) list \<Rightarrow> AsyncLogging \<Rightarrow> LogFile \<Rightarrow>
    (AsyncLogging \<times> LogFile) result" where
  "backend_write stamp ins s out =
     bind_r (run_puts (put_log stamp) (zip ins (write_out s)) out) (\<lambda>out1.
     bind_r (recycle s) (\<lambda>s1.
     bind_r (flush_log out1) (\<lambda>out2. Inr (s1, out2))))"

text \<open>
  The interleavings of \<open>al_run\<close> with the files: the thread opens its file, writes what it has collected,
  and flushes once more when it leaves the loop. \<open>fwrite\<close> takes every piece in the end and files can
  be opened.
\<close>

definition inputs_ok :: "(bool \<times> int \<times> int \<times> nat list) list \<Rightarrow> AsyncLogging \<Rightarrow> bool" where
  "inputs_ok ins s \<longleftrightarrow> length ins = length (write_out s) \<and>
     list_all2 log_input_ok ins (write_out s)"

inductive log_run :: "(int \<Rightarrow> string) \<Rightarrow> nat \<Rightarrow> al_event list \<Rightarrow> AsyncLogging \<Rightarrow> LogFile \<Rightarrow> bool" for stamp n where
  log_start: "0 < now \<Longrightarrow> s = start_async n (new_AsyncLogging basename roll interval n) \<Longrightarrow>
     backend_file stamp True now s = Inr out \<Longrightarrow> log_run stamp n [] s out"
| log_append: "log_run stamp n es s out \<Longrightarrow> length mem = n \<Longrightarrow> append_async mem line s = Inr s' \<Longrightarrow>
     log_run stamp n (es @ [AlAppend line]) s' out"
| log_wait: "log_run stamp n es s out \<Longrightarrow> al_pc s = AtLoopHead \<Longrightarrow> al_running s \<Longrightarrow>
     log_run stamp n (es @ [AlWait]) (s\<lparr>al_pc := Waiting\<rparr>) out"
| log_collect: "log_run stamp n es s out \<Longrightarrow> al_pc s = Waiting \<Longrightarrow> collect s = Inr s' \<Longrightarrow>
     log_run stamp n (es @ [AlCollect]) s' out"
| log_write: "log_run stamp n es s out \<Longrightarrow> al_pc s = Collected \<Longrightarrow> inputs_ok ins s \<Longrightarrow>
     backend_write stamp ins s out = Inr (s', out') \<Longrightarrow> log_run stamp n (es @ [AlWrite (buffersToWrite s)]) s' out'"
| log_stop: "log_run stamp n es s out \<Longrightarrow> log_run stamp n (es @ [AlStop]) (stop_async s) out"
| log_finish: "log_run stamp n es s out \<Longrightarrow> al_pc s = AtLoopHead \<Longrightarrow> \<not> al_running s \<Longrightarrow> flush_log out = Inr out' \<Longrightarrow>
     log_run stamp n (es @ [AlFinish]) (s\<lparr>al_pc := Finished\<rparr>) out'"

section \<open>Lemmas\<close>

lemma backend_writeE:
  assumes "backend_write stamp ins s out = Inr (s', out')"
  obtains out1 where "run_puts (put_log stamp) (zip ins (write_out s)) out = Inr out1" "recycle s = Inr s'" "flush_log out1 = Inr out'"
  using assms by (auto simp: backend_write_def bind_r_eq_Inr)

text \<open>Without the files it is the log of \<open>Async_Log\<close>.\<close>

lemma log_run_al_run: "log_run stamp n es s out \<Longrightarrow> al_run n es s"
proof (induction rule: log_run.induct)
  case (log_start now s basename roll interval out)
  then show ?case by (simp add: al_init)
next
  case (log_write es s out ins s' out')
  from log_write.hyps(4) obtain out1 where "recycle s = Inr s'" by (rule backend_writeE)
  then show ?case using log_write al_next[OF log_write.IH step_write] by blast
qed (auto intro: al_next al_step.intros)

lemma flush_log_keeps:
  "flush_log l = Inr l' \<Longrightarrow> lf_inv l \<Longrightarrow> lf_inv l' \<and> lf_bytes l' = lf_bytes l \<and> pred_option flushed (lf_file l')"
  by (auto simp: flush_log_def lf_inv_def lf_bytes_def flush_file_def flushed_def split: option.splits)

lemma write_puts:
  assumes "lf_inv out" "inputs_ok ins s" "run_puts (put_log stamp) (zip ins (write_out s)) out = Inr out1"
  shows "lf_inv out1 \<and> lf_bytes out1 = lf_bytes out @ concat (write_out s)"
proof -
  have "\<forall>(i, d) \<in> set (zip ins (write_out s)). log_input_ok i d"
    using assms(2) by (auto simp: inputs_ok_def list_all2_iff)
  from logfile_sink.puts_held[OF assms(3,1)] this show ?thesis using assms(2) by (auto simp: inputs_ok_def)
qed

text \<open>The files hold the buffers written, whole; between two turns of the loop everything is flushed.\<close>

lemma log_run_files:
  assumes "log_run stamp n es s out"
    and n: "0 < n" "n < 2 ^ 31"
  shows "lf_inv out \<and> lf_bytes out = concat (map fb_data (written es)) \<and> pred_option flushed (lf_file out) \<and>
    list_all (buf_ok n) (written es)"
  using assms(1)
proof (induction rule: log_run.induct)
  case (log_start now s basename roll interval out)
  then show ?case
    by (auto simp: backend_file_def new_LogFile_def rollFile_def Let_def new_FileUtil_def lf_inv_def lf_bytes_def flushed_def)
next
  case (log_write es s out ins s' out')
  from log_write.hyps(4) obtain out1 where o: "run_puts (put_log stamp) (zip ins (write_out s)) out = Inr out1" "flush_log out1 = Inr out'"
    by (rule backend_writeE)
  have "write_out s = map fb_data (buffersToWrite s)" by (simp add: write_out_def fb_length_def)
  moreover have "list_all (buf_ok n) (buffersToWrite s)"
    using al_run_inv[OF log_run_al_run[OF log_write.hyps(1)] n] by (simp add: al_inv_def)
  ultimately show ?case using write_puts[OF _ log_write.hyps(3) o(1)] flush_log_keeps[OF o(2)] log_write.IH by auto
next
  case (log_finish es s out out')
  then show ?case using flush_log_keeps by auto
qed auto

section \<open>The logging of the server\<close>

text \<open>
  \<open>main.cc\<close>: the global pointer \<open>g_asyncLog\<close> is \<open>None\<close> until \<open>setLogging\<close> has set it. A program name of 256
  characters or more is not terminated in the array it is copied to, where \<open>basename\<close> reads it.
\<close>

definition kRollSize :: nat where "kRollSize = 500 * 1000 * 1000"

definition asyncOutput :: "string \<Rightarrow> string \<Rightarrow> nat \<Rightarrow> AsyncLogging option \<Rightarrow> AsyncLogging option result" where
  "asyncOutput mem msg len g = (case g of None \<Rightarrow> Inl NullPointer
     | Some a \<Rightarrow> if len \<le> length msg then bind_r (append_async mem (take len msg) a) (\<lambda>a'. Inr (Some a')) else Inl OutOfBounds)"

text \<open>The output functions: 0 is the standard output, 1 is \<open>asyncOutput\<close>.\<close>

definition setLogging :: "string \<Rightarrow> LogGlobals \<Rightarrow> (LogGlobals \<times> AsyncLogging option) result" where
  "setLogging argv0 g =
     (let name = c_str argv0 in
      if length name \<ge> 256 then Inl OutOfBounds
      else Inr (setOutput 1 g,
                Some (start_async kLargeBuffer (new_AsyncLogging (new_SourceFile name) kRollSize 3 kLargeBuffer))))"

text \<open>
  One statement such as \<open>LOG_WARN << m\<close> (for \<open>LOG_DEBUG\<close> and \<open>LOG_INFO\<close> when \<open>log_enabled\<close> says so): the
  temporary \<open>Logger\<close> is built, given the message and
  destroyed, which passes its text to the output function and aborts after \<open>FATAL\<close>. \<open>mem\<close> is the memory of
  its buffer, \<open>big\<close> that of a buffer the asynchronous log may have to allocate.
\<close>

definition log_statement :: "(int \<Rightarrow> tm) \<Rightarrow> Timestamp \<Rightarrow> (int \<Rightarrow> string) \<Rightarrow> string \<Rightarrow> string \<Rightarrow> LogLevel \<Rightarrow> string option \<Rightarrow>
    string \<Rightarrow> int \<Rightarrow> string \<Rightarrow> AsyncLogging option \<Rightarrow> AsyncLogging option result" where
  "log_statement localtime now strerror mem big level func file line m g =
     bind_r (new_Logger localtime now strerror mem level func file line) (\<lambda>l.
     bind_r (destroy_Logger (l\<lparr>lg_stream := put_string m (lg_stream l)\<rparr>)) (\<lambda>(text, fatal).
     bind_r (asyncOutput big text (length text) g) (\<lambda>g'. if fatal then Inl Aborted else Inr g')))"

text \<open>The record of a statement, up to its newline.\<close>

definition record_of :: "(int \<Rightarrow> tm) \<Rightarrow> Timestamp \<Rightarrow> LogLevel \<Rightarrow> string option \<Rightarrow> string \<Rightarrow> int \<Rightarrow> string \<Rightarrow> string" where
  "record_of localtime now level func file line m =
     take 17 (format_tm (localtime (tdiv now kMicroSecondsPerSecond))) @ fmt_0d 6 (tmod now kMicroSecondsPerSecond) @
     '' '' @ getLevelName level @ (case func of None \<Rightarrow> [] | Some f \<Rightarrow> f @ '' '') @ m @ '' - '' @ new_SourceFile file @ '':'' @
     show_int line @ [LF]"

lemma log_statement_ok:
  assumes inv: "al_inv kLargeBuffer s" and mem: "length mem = kSmallBuffer" "length big = kLargeBuffer"
    and st: "tm_ok (localtime (tdiv now kMicroSecondsPerSecond))" "0 \<le> now" "\<bar>line\<bar> < 2 ^ 31" "\<forall>f. func = Some f \<longrightarrow> c_str f = f"
      "length (record_of localtime now level func file line m) + 47 \<le> kSmallBuffer" "level \<noteq> FATAL"
  shows "\<exists>s' rest. log_statement localtime now strerror mem big level func file line m (Some s) = Inr (Some s') \<and> al_inv kLargeBuffer s' \<and>
    unwritten s' = unwritten s @ record_of localtime now level func file line m @ rest \<and>
    length (record_of localtime now level func file line m @ rest) = 4000 \<and>
    append_async big (record_of localtime now level func file line m @ rest) s = Inr s'"
proof -
  define pre where "pre = take 17 (format_tm (localtime (tdiv now kMicroSecondsPerSecond))) @ fmt_0d 6 (tmod now kMicroSecondsPerSecond) @
     '' '' @ getLevelName level @ (case func of None \<Rightarrow> [] | Some f \<Rightarrow> f @ '' '') @ m @ '' - '' @ new_SourceFile file @ '':''"
  let ?rec = "record_of localtime now level func file line m"
  have rec: "?rec = pre @ show_int line @ [LF]" by (simp add: record_of_def pre_def)
  have l: "length pre + 48 \<le> kSmallBuffer" using st(5) unfolding rec by simp
  define rest where "rest = drop (length ?rec) mem"
  from logger_record[where localtime = localtime and now = now and strerror = strerror, OF mem(1) st(1-4) pre_def l]
  obtain lg where lg: "new_Logger localtime now strerror mem level func file line = Inr lg"
      "destroy_Logger (lg\<lparr>lg_stream := put_string m (lg_stream lg)\<rparr>) = Inr (?rec @ rest, level = FATAL)" "length (?rec @ rest) = 4000"
    by (auto simp: rec rest_def)
  have "length (?rec @ rest) < kLargeBuffer" unfolding lg(3) by (simp add: kLargeBuffer_def)
  then obtain s' where s': "append_async big (?rec @ rest) s = Inr s'" "al_inv kLargeBuffer s'" "unwritten s' = unwritten s @ ?rec @ rest"
    using async_sink.put_ok[OF inv, of big "?rec @ rest"] async_sink.put_held[OF inv, of big "?rec @ rest"] mem(2) by auto
  then have "log_statement localtime now strerror mem big level func file line m (Some s) = Inr (Some s')"
    using lg st(6) by (simp add: log_statement_def asyncOutput_def del: length_append)
  then show ?thesis using s' lg(3) by blast
qed

section \<open>Properties\<close>

text \<open>
  C21: the log on disk. In every interleaving of the threads that log, the thread that writes and a call
  of \<open>stop\<close> at any point, also between the test of \<open>running_\<close> and the end of the wait, the log files,
  oldest first, hold exactly the buffers written so far, each with its full size; nothing of it waits
  in a stream buffer; every buffer starts with its text, and the texts of the buffers written and of
  those in memory, in this order, are the lines appended that are shorter than a buffer (a line of the
  size of a buffer or more is dropped). The locked section never fails, and neither does writing what
  was collected, as long as files open and \<open>fwrite\<close> takes every piece in the end; when it takes nothing
  for good, \<open>append_loop_stuck\<close> shows that the thread stays in its loop.
\<close>

theorem log_reaches_disk:
  assumes "log_run stamp n es s out" "0 < n" "n < 2 ^ 31"
  shows "lf_bytes out = concat (map fb_data (written es)) \<and>
    (\<forall>f \<in> set (lf_closed out) \<union> set_option (lf_file out). fu_flushed f = length (fu_bytes f)) \<and>
    (\<forall>b \<in> set (written es). length (fb_data b) = n \<and> (\<exists>stale. fb_data b = fb_text b @ stale)) \<and>
    concat (map fb_text (written es)) @ unwritten s = concat (filter (\<lambda>l. length l < n) (appended es)) \<and>
    (al_pc s = Waiting \<longrightarrow> (\<exists>s'. collect s = Inr s')) \<and>
    (\<forall>ins. al_pc s = Collected \<and> inputs_ok ins s \<longrightarrow> (\<exists>s' out'. backend_write stamp ins s out = Inr (s', out')))"
proof -
  note f = log_run_files[OF assms]
  note a = al_run_inv[OF log_run_al_run[OF assms(1)] assms(2,3)]
  have "\<exists>s' out'. backend_write stamp ins s out = Inr (s', out')" if pc: "al_pc s = Collected" and i: "inputs_ok ins s" for ins
  proof -
    have "\<forall>(i, d) \<in> set (zip ins (write_out s)). log_input_ok i d" using i by (auto simp: inputs_ok_def list_all2_iff)
    then obtain out1 where o: "run_puts (put_log stamp) (zip ins (write_out s)) out = Inr out1" "lf_inv out1"
      using logfile_sink.puts_ok f by blast
    moreover obtain s' where "recycle s = Inr s'" using recycle_ok[of n s] a pc by blast
    moreover obtain g where "lf_file out1 = Some g" using o(2) by (auto simp: lf_inv_def)
    ultimately show ?thesis by (simp add: backend_write_def flush_log_def)
  qed
  moreover have "\<forall>f \<in> set (lf_closed out) \<union> set_option (lf_file out). fu_flushed f = length (fu_bytes f)"
    using f by (auto simp: lf_inv_def flushed_def list_all_iff split: option.splits)
  moreover have "\<forall>b \<in> set (written es). length (fb_data b) = n \<and> (\<exists>stale. fb_data b = fb_text b @ stale)"
    using f by (auto simp: list_all_iff buf_ok_def fb_text_def) (metis append_take_drop_id)
  ultimately show ?thesis using f a collect_ok[of n s] by blast
qed


theorem log_reaches_disk_witness:
  "\<exists>s out s' out'. log_run (\<lambda>_. ''.x'') 4 [AlAppend ''abc'', AlWait, AlStop, AlCollect] s out \<and>
     backend_write (\<lambda>_. ''.x'') [(True, 2, 2, [1, 3])] s out = Inr (s', out') \<and>
     log_run (\<lambda>_. ''.x'') 4 [AlAppend ''abc'', AlWait, AlStop, AlCollect, AlWrite (buffersToWrite s)] s' out' \<and>
     lf_bytes out' = concat (map fb_data (buffersToWrite s))"
proof -
  define s0 where "s0 = start_async 4 (new_AsyncLogging ''log'' 100 3 4)"
  obtain out where "backend_file (\<lambda>_. ''.x'') True 1 s0 = Inr out"
    by (simp add: backend_file_def new_LogFile_def rollFile_def new_FileUtil_def Let_def)
  from log_start[OF _ s0_def this] have r0: "log_run (\<lambda>_. ''.x'') 4 [] s0 out" by simp
  obtain s1 where s1: "append_async (replicate 4 (CHR ''x'')) ''abc'' s0 = Inr s1" "al_pc s1 = AtLoopHead" "al_running s1"
      "al_buffers s1 = []"
    by (simp add: s0_def start_async_def new_AsyncLogging_def append_async_def zeroed_buffer_def fb_bzero_def new_FixedBuffer_def avail_def)
  from log_append[OF r0 _ s1(1)] have r1: "log_run (\<lambda>_. ''.x'') 4 [AlAppend ''abc''] s1 out" by simp
  define w where "w = stop_async (s1\<lparr>al_pc := Waiting\<rparr>)"
  have w: "log_run (\<lambda>_. ''.x'') 4 [AlAppend ''abc'', AlWait, AlStop] w out" "al_pc w = Waiting" "al_buffers w = []"
    using log_stop[OF log_wait[OF r1 s1(2,3)]] s1(4) by (simp_all add: w_def stop_async_def)
  obtain s2 where s2: "collect w = Inr s2" using log_reaches_disk[OF w(1)] w(2) by auto
  from log_collect[OF w(1,2) s2] have r2: "log_run (\<lambda>_. ''.x'') 4 [AlAppend ''abc'', AlWait, AlStop, AlCollect] s2 out" by simp
  have pc: "al_pc s2 = Collected" "length (buffersToWrite s2) = 1"
    using s2 w(3) by (auto simp: collect_def Let_def split: option.splits if_splits)
  have inv: "al_inv 4 s2" using al_run_inv[OF log_run_al_run[OF r2]] by simp
  obtain b where b: "buffersToWrite s2 = [b]" using pc(2) by (auto simp: length_Suc_conv)
  then have "length (fb_data b) = 4" using inv by (simp add: al_inv_def buf_ok_def)
  then have i: "inputs_ok [(True, 2, 2, [1, 3])] s2" using b by (simp add: inputs_ok_def write_out_def fb_length_def log_input_ok_def)
  obtain s' out' where bw: "backend_write (\<lambda>_. ''.x'') [(True, 2, 2, [1, 3])] s2 out = Inr (s', out')"
    using log_reaches_disk[OF r2] pc(1) i by force
  from log_write[OF r2 pc(1) i bw]
  have r3: "log_run (\<lambda>_. ''.x'') 4 [AlAppend ''abc'', AlWait, AlStop, AlCollect, AlWrite (buffersToWrite s2)] s' out'" by simp
  have "lf_bytes out' = concat (map fb_data (written [AlAppend ''abc'', AlWait, AlStop, AlCollect, AlWrite (buffersToWrite s2)]))"
    using log_reaches_disk[OF r3] by simp
  then show ?thesis using r2 r3 bw by auto
qed

text \<open>
  C22: a logging statement of the server. Once \<open>setLogging\<close> has run, whatever the threads of the log are
  doing, a statement below \<open>FATAL\<close> whose record fits its buffer returns, and the log holds its record
  behind everything logged before: the text of the log grows by the 4000 bytes of the buffer, of which
  the record is the beginning.
\<close>

theorem log_statement_logged:
  assumes "log_run stamp kLargeBuffer es s out" "length mem = kSmallBuffer" "length big = kLargeBuffer"
    and "tm_ok (localtime (tdiv now kMicroSecondsPerSecond))" "0 \<le> now" "\<bar>line\<bar> < 2 ^ 31" "\<forall>f. func = Some f \<longrightarrow> c_str f = f"
    and "length (record_of localtime now level func file line m) + 47 \<le> kSmallBuffer" "level \<noteq> FATAL"
  shows "\<exists>s' rest. log_statement localtime now strerror mem big level func file line m (Some s) = Inr (Some s') \<and>
    log_run stamp kLargeBuffer (es @ [AlAppend (record_of localtime now level func file line m @ rest)]) s' out \<and>
    length (record_of localtime now level func file line m @ rest) = 4000 \<and>
    concat (map fb_text (written es)) @ unwritten s' =
      concat (filter (\<lambda>l. length l < kLargeBuffer) (appended es)) @ record_of localtime now level func file line m @ rest"
proof -
  note a = al_run_inv[OF log_run_al_run[OF assms(1)] kLargeBuffer_bounds]
  obtain s' rest where s: "log_statement localtime now strerror mem big level func file line m (Some s) = Inr (Some s')"
      "unwritten s' = unwritten s @ record_of localtime now level func file line m @ rest"
      "length (record_of localtime now level func file line m @ rest) = 4000"
      "append_async big (record_of localtime now level func file line m @ rest) s = Inr s'"
    using log_statement_ok[where localtime = localtime and now = now and strerror = strerror, OF conjunct1[OF a] assms(2-9)] by blast
  have "log_run stamp kLargeBuffer (es @ [AlAppend (record_of localtime now level func file line m @ rest)]) s' out"
    by (rule log_append[OF assms(1,3) s(4)])
  moreover have "concat (map fb_text (written es)) @ unwritten s' =
      concat (filter (\<lambda>l. length l < kLargeBuffer) (appended es)) @ record_of localtime now level func file line m @ rest"
    using s(2) conjunct2[OF a] by (metis append_assoc)
  ultimately show ?thesis using s by blast
qed

theorem log_statement_logged_witness:
  "\<exists>g s s' rest. setLogging ''/usr/bin/server'' init_LogGlobals = Inr (g, Some s) \<and> g_output g = 1 \<and>
     log_statement (\<lambda>_. \<lparr>tm_year = 122, tm_mon = 7, tm_mday = 26, tm_hour = 16, tm_min = 29, tm_sec = 10\<rparr>) 1661531350773804 (\<lambda>_. [])
       (replicate 4000 (CHR ''x'')) (replicate kLargeBuffer (CHR ''x'')) INFO None ''src/http/main.cc'' 34 ''pid = 7'' (Some s) = Inr (Some s') \<and>
     unwritten s' = ''2022/08/26 16:29:773804 INFO  pid = 7 - main.cc:34'' @ [LF] @ rest"
proof -
  let ?lt = "\<lambda>_ :: int. \<lparr>tm_year = 122, tm_mon = 7, tm_mday = 26, tm_hour = 16, tm_min = 29, tm_sec = 10\<rparr>"
  define s where "s = start_async kLargeBuffer (new_AsyncLogging (new_SourceFile ''/usr/bin/server'') kRollSize 3 kLargeBuffer)"
  obtain out where "backend_file (\<lambda>_. ''.x'') True 1 s = Inr out"
    by (simp add: backend_file_def new_LogFile_def rollFile_def new_FileUtil_def Let_def)
  from log_start[OF _ s_def this] have r: "log_run (\<lambda>_. ''.x'') kLargeBuffer [] s out" by simp
  have sf: "new_SourceFile ''src/http/main.cc'' = ''main.cc''" by code_simp
  have rec: "record_of ?lt 1661531350773804 INFO None ''src/http/main.cc'' 34 ''pid = 7'' =
      ''2022/08/26 16:29:773804 INFO  pid = 7 - main.cc:34'' @ [LF]"
    by (simp add: record_of_def sf show_eval)
  have c: "length (replicate 4000 (CHR ''x'')) = kSmallBuffer" "length (replicate kLargeBuffer (CHR ''x'')) = kLargeBuffer"
      "tm_ok (?lt (tdiv 1661531350773804 kMicroSecondsPerSecond))" "(0 :: int) \<le> 1661531350773804" "\<bar>34 :: int\<bar> < 2 ^ 31"
      "\<forall>f. None = Some f \<longrightarrow> c_str f = f"
      "length (record_of ?lt 1661531350773804 INFO None ''src/http/main.cc'' 34 ''pid = 7'') + 47 \<le> kSmallBuffer" "INFO \<noteq> FATAL"
    unfolding rec by (simp_all add: kSmallBuffer_def tm_ok_def)
  have "setLogging ''/usr/bin/server'' init_LogGlobals = Inr (setOutput 1 init_LogGlobals, Some s)"
    by (simp add: setLogging_def c_str_def s_def)
  then show ?thesis
    using log_statement_logged[where localtime = ?lt and now = 1661531350773804 and strerror = "\<lambda>_. []", OF r c] unfolding rec
    by (auto simp: setOutput_def)
qed


end
