(* ===== verification/File_Store.thy ===== *)
theory File_Store
  imports File_Server
begin

text \<open>
  The files of \<open>FileServer\<close> over several requests: what \<open>setResponseBody\<close> does with an upload, a later
  request for the file, its deletion and a request after that. The operating system is the record
  \<open>os\<close> of \<open>File_Server\<close>; what the requests rely on (a file that was written can be found, a removed one
  cannot) are hypotheses on it.
\<close>

section \<open>Searching\<close>

text \<open>A key is found behind a part without it, when what is between shares no character with it.\<close>

lemma str_find_eqI:
  assumes "take (length k) (drop i s) = k" "k \<noteq> []" "\<And>j. j < i \<Longrightarrow> take (length k) (drop j s) \<noteq> k"
  shows "str_find s k = Some i"
proof -
  have "i < length s" using assms(1,2) by (cases "i < length s") auto
  then show ?thesis using std_search_least[OF assms(1) _ assms(3)] assms(1) by (simp add: str_find_def)
qed

lemma str_find_None:
  assumes "str_find s k = None" "k \<noteq> []"
  shows "take (length k) (drop j s) \<noteq> k"
proof (cases "j < std_search k s")
  case True
  then show ?thesis by (rule std_search_first)
next
  case False
  have "\<not> std_search k s < length s"
    using std_search_match[OF assms(2)] assms(1) by (auto simp: str_find_def)
  then show ?thesis using False assms(2) by (cases "length s \<le> j") auto
qed

text \<open>A window that covers a position has the character of that position.\<close>

lemma window_nth:
  assumes "take (length k) (drop j s) = k" "j \<le> i" "i < j + length k" "i < length s"
  shows "k ! (i - j) = s ! i"
proof -
  have "take (length k) (drop j s) ! (i - j) = s ! i" using assms(2-4) by simp
  then show ?thesis using assms(1) by simp
qed

lemma window_prefix:
  "j + length k \<le> length s \<Longrightarrow> take (length k) (drop j (s @ t)) = take (length k) (drop j s)"
  by (simp add: take_append drop_append)

lemma str_find_behind:
  assumes "str_find s k = None" "k \<noteq> []" "sep \<noteq> []" "set sep \<inter> set k = {}"
  shows "str_find (s @ sep @ k @ t) k = Some (length s + length sep)"
proof (rule str_find_eqI)
  fix j
  assume j: "j < length s + length sep"
  show "take (length k) (drop j (s @ sep @ k @ t)) \<noteq> k"
  proof
    assume m: "take (length k) (drop j (s @ sep @ k @ t)) = k"
    show False
    proof (cases "j + length k \<le> length s")
      case True
      then show False using m window_prefix[OF True] str_find_None[OF assms(1,2)] by metis
    next
      case False
      define i where "i = max j (length s)"
      have i: "j \<le> i" "i < j + length k" "length s \<le> i" "i < length s + length sep"
        using j False assms(2,3) by (auto simp: i_def)
      have "i - length s < length sep" using i by linarith
      then have "k ! (i - j) = sep ! (i - length s)" using window_nth[OF m i(1,2)] i by (simp add: nth_append)
      moreover have "sep ! (i - length s) \<in> set sep" "k ! (i - j) \<in> set k" using i by (auto intro!: nth_mem)
      ultimately show False using assms(4) by auto
    qed
  qed
qed (use assms(2) in simp_all)

text \<open>A key whose first character does not occur again in it cannot overlap with itself.\<close>

lemma str_find_end:
  assumes "str_find s (c # k) = None" "c \<notin> set k"
  shows "str_find (s @ (c # k) @ t) (c # k) = Some (length s)"
proof (rule str_find_eqI)
  fix j
  assume j: "j < length s"
  show "take (length (c # k)) (drop j (s @ (c # k) @ t)) \<noteq> c # k"
  proof
    assume m: "take (length (c # k)) (drop j (s @ (c # k) @ t)) = c # k"
    show False
    proof (cases "j + length (c # k) \<le> length s")
      case True
      then show False using m window_prefix[OF True] str_find_None[OF assms(1)] by (metis list.discI)
    next
      case False
      have "(c # k) ! (length s - j) = c" using window_nth[OF m, of "length s"] j False by (simp add: nth_append)
      moreover have "(c # k) ! (length s - j) \<in> set k" using j False by (auto simp: nth_Cons' intro!: nth_mem)
      ultimately show False using assms(2) by simp
    qed
  qed
qed simp_all

lemma find_last_of_append:
  "c \<notin> set f \<Longrightarrow> find_last_of (s @ [c] @ f) c = Some (length s)"
  by (simp add: find_last_of_def std_find_append)

section \<open>The requests\<close>

text \<open>
  What a browser sends for the form of \<open>html/filelist.html\<close>: the page's field is called \<open>upload\<close>, the
  header of the part names the file, and a delimiter line, a line break and a run of dashes, follows
  the bytes of the file in the body.
\<close>

definition dashes :: string where "dashes = ''-----------------''"

definition disposition_of :: "string \<Rightarrow> string" where
  "disposition_of f = ''form-data; name='' @ [CHR 0x22] @ ''upload'' @ [CHR 0x22] @ ''; filename='' @ [CHR 0x22] @ f @ [CHR 0x22]"

definition upload_request :: "string \<Rightarrow> string \<Rightarrow> string \<Rightarrow> string \<Rightarrow> HttpRequest \<Rightarrow> bool" where
  "upload_request f ctype d rest req \<longleftrightarrow> rq_path req = ''/upload'' \<and>
     rq_headers req ''Content-Disposition'' = Some (disposition_of f) \<and> rq_headers req ''Content-Type'' = Some ctype \<and>
     m_string req = d @ crlf @ dashes @ rest"

text \<open>The directory uploads of a type go to.\<close>

definition upload_dir :: "string \<Rightarrow> string" where
  "upload_dir ctype = (if ctype = ''image/jpeg'' \<or> ctype = ''image/png'' then ''/img/'' else ''/text/'')"

text \<open>A directory whose names fit the array of \<open>scanDir\<close> and whose entries can be examined.\<close>

definition scan_ok :: "'w os \<Rightarrow> 'w \<Rightarrow> string \<Rightarrow> bool" where
  "scan_ok sys w dir \<longleftrightarrow> length dir < fullname_size \<and>
     (\<forall>ds d. os_readdir sys dir w = Some ds \<longrightarrow> d \<in> set ds \<longrightarrow>
        length dir + length d < fullname_size \<and> os_stat sys (dir @ d) w \<noteq> None)"

lemma scan_entries_ok:
  assumes "\<forall>d \<in> set ds. length pre + length d < fullname_size \<and> os_stat sys (pre @ d) w \<noteq> None"
  shows "\<exists>l. scan_entries sys w pre st ds = Inr l"
  using assms
proof (induction ds arbitrary: st)
  case (Cons d ds)
  obtain k n where k: "os_stat sys (pre @ d) w = Some (k, n)" using Cons.prems by auto
  obtain l l' where "scan_entries sys w pre st ds = Inr l" "scan_entries sys w pre (Some k) ds = Inr l'"
    using Cons.IH[of st] Cons.IH[of "Some k"] Cons.prems by auto
  then show ?case using Cons.prems k by simp
qed simp

lemma scanDir_ok:
  assumes "scan_ok sys w (dir @ ''/'')" "CHR 0x00 \<notin> set dir"
  shows "\<exists>l. scanDir sys w (dir @ ''/'') = Inr l"
proof (cases "os_readdir sys (dir @ ''/'') w")
  case None
  then show ?thesis using assms by (simp add: scanDir_def scan_ok_def c_str_plain nth_append)
next
  case (Some ds)
  then obtain l where "scan_entries sys w (dir @ ''/'') None ds = Inr l"
    using scan_entries_ok[of ds "dir @ ''/''" sys w None] assms(1) by (auto simp: scan_ok_def)
  then show ?thesis using assms Some by (simp add: scanDir_def scan_ok_def c_str_plain nth_append)
qed

text \<open>The branches of the handler the requests take.\<close>

lemma upload_stored:
  assumes "upload_request f ctype d rest req" "str_find d dashes = None" "CHR 0x00 \<notin> set (workPath fs @ f)"
    and "str_find (workPath fs) ''/upload'' = None" "os_stat sys (workPath fs @ ''/upload'') w = None"
    and "w1 = os_write sys (workPath fs @ upload_dir ctype @ f) (d @ crlf) w" "scan_ok sys w1 (workPath fs @ upload_dir ctype)"
  shows "setResponseBody sys req fs res w = Inr (fs, html_page page_upload_ok res, w1)"
proof -
  have r: "rq_path req = ''/upload''" "getHeader ''Content-Disposition'' req = disposition_of f"
      "getHeader ''Content-Type'' req = ctype" "m_string req = d @ crlf @ dashes @ rest"
    using assms(1) by (simp_all add: upload_request_def getHeader_def)
  have u: "before_keyword (workPath fs @ ''/upload'') ''/upload'' = workPath fs"
    using str_find_end[of "workPath fs" "CHR ''/''" "''upload''" "[]"] assms(4) by (simp add: before_keyword_def)
  have "str_find (d @ crlf @ dashes @ rest) dashes = Some (length d + length crlf)"
    using assms(2) by (intro str_find_behind) (auto simp: dashes_def crlf_def CR_def LF_def)
  then have b: "before_keyword (d @ crlf @ dashes @ rest) ''-----------------'' = d @ crlf"
    by (simp add: before_keyword_def dashes_def)
  let ?pre = "''form-data; name='' @ [CHR 0x22] @ ''upload'' @ [CHR 0x22]"
  have "str_find ?pre ''filename='' = None" by code_simp
  then have "str_find (?pre @ ''; '' @ ''filename='' @ [CHR 0x22] @ f @ [CHR 0x22]) ''filename='' = Some (length ?pre + length ''; '')"
    by (rule str_find_behind) auto
  then have n: "str_find (disposition_of f) ''filename='' = Some (length ?pre + 2)" by (simp add: disposition_of_def)
  have q: "substr_from (disposition_of f) (length ?pre + 2 + 10) = Inr (f @ [CHR 0x22])"
    by (simp add: substr_from_def disposition_of_def)
  have p: "c_str (workPath fs @ ''/upload'') = workPath fs @ ''/upload''"
      "c_str (workPath fs @ upload_dir ctype @ f) = workPath fs @ upload_dir ctype @ f"
    using assms(3) by (auto intro!: c_str_plain simp: upload_dir_def)
  obtain dir where dir: "workPath fs @ upload_dir ctype = dir @ ''/''" "CHR 0x00 \<notin> set dir"
    using assms(3) that[of "workPath fs @ butlast (upload_dir ctype)"] by (auto simp: upload_dir_def split: if_splits)
  obtain l where "scanDir sys w1 (workPath fs @ upload_dir ctype) = Inr l"
    using scanDir_ok[of sys w1 dir] assms(7) dir by auto
  then show ?thesis using r u b n q p assms(5,6)
    by (simp add: setResponseBody_def str_at_def respond_upload_def upload_dir_def Let_def split: if_splits)
qed

text \<open>
  The links of the file list: \<open>download/dir/f\<close> and \<open>delete/dir/f\<close>. Both cut the keyword out of the path,
  which works as long as it does not occur in the working directory.
\<close>

lemma delete_removed:
  assumes "rq_path req = ''/delete'' @ dir @ ''/'' @ f" "dir \<noteq> []" "hd dir = CHR ''/''" "CHR ''/'' \<notin> set f"
    and "CHR 0x00 \<notin> set (workPath fs @ dir @ f)" "str_find (workPath fs) ''delete'' = None"
    and "os_stat sys (workPath fs @ ''/delete'' @ dir @ ''/'' @ f) w = None"
    and "w1 = os_remove sys (workPath fs @ dir @ ''/'' @ f) w" "scan_ok sys w1 (workPath fs @ dir @ ''/'')"
  shows "setResponseBody sys req fs res w = Inr (fs, html_page page_delete_ok res, w1)"
proof -
  obtain dir' where d: "dir = CHR ''/'' # dir'" using assms(2,3) by (cases dir) auto
  have "str_find (workPath fs @ ''/'' @ ''delete'' @ dir @ ''/'' @ f) ''delete'' = Some (length (workPath fs) + length ''/'')"
    using assms(6) by (intro str_find_behind) auto
  then have k: "before_keyword (workPath fs @ ''/delete'' @ dir @ ''/'' @ f) ''delete'' = workPath fs @ ''/''"
    by (simp add: before_keyword_def)
  have s: "substr_from (''/delete'' @ dir @ ''/'' @ f) 8 = Inr (dir' @ ''/'' @ f)" by (simp add: substr_from_def d)
  have c: "c_str (workPath fs @ ''/delete'' @ dir @ ''/'' @ f) = workPath fs @ ''/delete'' @ dir @ ''/'' @ f"
      "c_str (workPath fs @ dir @ ''/'' @ f) = workPath fs @ dir @ ''/'' @ f"
    using assms(5) by (auto intro!: c_str_plain)
  have l: "find_last_of (workPath fs @ dir @ ''/'' @ f) (CHR ''/'') = Some (length (workPath fs @ dir))"
    using find_last_of_append[OF assms(4), of "workPath fs @ dir"] by simp
  obtain li where "scanDir sys w1 (workPath fs @ dir @ ''/'') = Inr li"
    using scanDir_ok[of sys w1 "workPath fs @ dir"] assms(5,9) by auto
  moreover have "take (2 + length dir') (CHR ''/'' # dir' @ CHR ''/'' # f) = CHR ''/'' # dir' @ ''/''"
    by (simp add: numeral_2_eq_2)
  ultimately show ?thesis using assms(1,7,8) c k s l
    by (simp add: setResponseBody_def str_at_def respond_delete_def d Let_def)
qed

lemma download_served:
  assumes "rq_path req = ''/download'' @ dir @ ''/'' @ f" "dir \<noteq> []" "hd dir = CHR ''/''" "CHR ''/'' \<notin> set f"
    and "CHR 0x00 \<notin> set (workPath fs @ dir @ f)" "str_find (workPath fs) ''download'' = None"
    and "os_stat sys (workPath fs @ ''/download'' @ dir @ ''/'' @ f) w = None"
    and "os_stat sys (workPath fs @ dir @ ''/'' @ f) w = Some (Regular, len)" "os_open sys (workPath fs @ dir @ ''/'' @ f) w = (fd, w1)"
  shows "\<exists>r. setResponseBody sys req fs (new_HttpResponse close) w = Inr (fs, r, w1) \<and> rs_fd r = fd \<and> rs_len r = Some len \<and>
    statusCode r = k200Ok \<and> rs_headers r ''Content-Length'' = Some (show_int len) \<and>
    rs_headers r ''Content-Disposition'' = Some (''attachment;filename='' @ f)"
proof -
  obtain dir' where d: "dir = CHR ''/'' # dir'" using assms(2,3) by (cases dir) auto
  have "str_find (workPath fs @ ''/'' @ ''download'' @ dir @ ''/'' @ f) ''download'' = Some (length (workPath fs) + length ''/'')"
    using assms(6) by (intro str_find_behind) auto
  then have k: "before_keyword (workPath fs @ ''/download'' @ dir @ ''/'' @ f) ''download'' = workPath fs @ ''/''"
    by (simp add: before_keyword_def)
  have s: "substr_from (''/download'' @ dir @ ''/'' @ f) 10 = Inr (dir' @ ''/'' @ f)" by (simp add: substr_from_def d)
  have c: "c_str (workPath fs @ ''/download'' @ dir @ ''/'' @ f) = workPath fs @ ''/download'' @ dir @ ''/'' @ f"
      "c_str (workPath fs @ dir @ ''/'' @ f) = workPath fs @ dir @ ''/'' @ f"
    using assms(5) by (auto intro!: c_str_plain)
  have l: "find_last_of (workPath fs @ dir @ ''/'' @ f) (CHR ''/'') = Some (length (workPath fs @ dir))"
    using find_last_of_append[OF assms(4), of "workPath fs @ dir"] by simp
  have "drop (2 + length dir') (CHR ''/'' # dir' @ CHR ''/'' # f) = f" by (simp add: numeral_2_eq_2)
  then show ?thesis using assms(1,7-9) c k s l
    by (simp add: setResponseBody_def str_at_def respond_download_def d Let_def setDisposition_def addHeader_rs_def
        setContentType_def setFd_def setSendLen_def setStatusMessage_def setStatusCode_def)
qed

lemma missing_404:
  assumes "os_stat sys (c_str (workPath fs @ rq_path req)) w = None" "rq_path req = s # k # rest" "k \<notin> set ''0123du''"
  shows "setResponseBody sys req fs res w = Inr (fs, not_found_page ''File not found.'' res, w)"
  using assms by (auto simp: setResponseBody_def str_at_def)

section \<open>Properties\<close>

text \<open>
  C18: the life of an uploaded file, for data without a run of 17 dashes and a delimiter that has one.
  The bytes of the file, with the line break of the delimiter behind
  them, are written to the directory of its type under the name the client gave; a request for the
  file, and the download link, then serve it whole, two bytes longer than what was uploaded; the
  delete link removes exactly this file, and afterwards a request for it is answered 404. None of
  the requests changes the accounts or faults, as long as the names in the directory fit \<open>scanDir\<close>.
\<close>

theorem uploaded_file_life:
  assumes "upload_request f ctype d rest up" "str_find d dashes = None" "CHR ''/'' \<notin> set f" "CHR 0x00 \<notin> set (workPath fs @ f)"
    and "\<forall>k \<in> set [''/upload'', ''download'', ''delete'']. str_find (workPath fs) k = None"
    and "path = upload_dir ctype @ f" "rq_path get = path" "getHeader ''Range'' get = []"
      "rq_path dl = ''/download'' @ path" "rq_path del = ''/delete'' @ path"
    and "os_stat sys (workPath fs @ ''/upload'') w = None" "os_stat sys (workPath fs @ ''/download'' @ path) w1 = None"
      "os_stat sys (workPath fs @ ''/delete'' @ path) w2 = None"
    and "w1 = os_write sys (workPath fs @ path) (d @ crlf) w" "os_stat sys (workPath fs @ path) w1 = Some (Regular, int (length d + 2))"
      "os_open sys (workPath fs @ path) w1 = (fd, w2)" "w3 = os_remove sys (workPath fs @ path) w2" "os_stat sys (workPath fs @ path) w3 = None"
    and "scan_ok sys w1 (workPath fs @ upload_dir ctype)" "scan_ok sys w3 (workPath fs @ upload_dir ctype)"
  shows "setResponseBody sys up fs res w = Inr (fs, html_page page_upload_ok res, w1) \<and>
    setResponseBody sys get fs (new_HttpResponse close) w1 = Inr (fs, file_response close path fd (int (length d + 2)), w2) \<and>
    (\<exists>r. setResponseBody sys dl fs (new_HttpResponse close) w1 = Inr (fs, r, w2) \<and> rs_fd r = fd \<and>
       rs_len r = Some (int (length d + 2)) \<and> rs_headers r ''Content-Disposition'' = Some (''attachment;filename='' @ f)) \<and>
    setResponseBody sys del fs res w2 = Inr (fs, html_page page_delete_ok res, w3) \<and>
    setResponseBody sys get fs res w3 = Inr (fs, not_found_page ''File not found.'' res, w3)"
proof -
  obtain dir where dir: "upload_dir ctype = dir @ ''/''" "dir \<noteq> []" "hd dir = CHR ''/''" "CHR 0x00 \<notin> set dir"
    using that[of "butlast (upload_dir ctype)"] by (auto simp: upload_dir_def split: if_splits)
  then have path: "path = dir @ ''/'' @ f" using assms(6) by simp
  have nul: "CHR 0x00 \<notin> set (workPath fs @ dir @ f)" using assms(4) dir(4) by simp
  have c: "c_str (workPath fs @ path) = workPath fs @ path" using nul path by (auto intro!: c_str_plain)
  have "setResponseBody sys up fs res w = Inr (fs, html_page page_upload_ok res, w1)"
    by (rule upload_stored[OF assms(1,2,4)]) (use assms(5,6,11,14,19) in auto)
  moreover have "setResponseBody sys get fs (new_HttpResponse close) w1 = Inr (fs, file_response close path fd (int (length d + 2)), w2)"
    using setResponseBody_file[of sys fs get w1 "int (length d + 2)" fd w2] assms(7,8,15,16) c by simp
  moreover have "\<exists>r. setResponseBody sys dl fs (new_HttpResponse close) w1 = Inr (fs, r, w2) \<and> rs_fd r = fd \<and>
       rs_len r = Some (int (length d + 2)) \<and> rs_headers r ''Content-Disposition'' = Some (''attachment;filename='' @ f)"
    using download_served[OF _ dir(2,3) assms(3) nul, where req = dl and sys = sys and w = w1 and close = close] assms(5,9,12,15,16) path by auto
  moreover have "setResponseBody sys del fs res w2 = Inr (fs, html_page page_delete_ok res, w3)"
    by (rule delete_removed[OF _ dir(2,3) assms(3) nul]) (use assms(5,10,13,17,20) path dir(1) in auto)
  moreover have "setResponseBody sys get fs res w3 = Inr (fs, not_found_page ''File not found.'' res, w3)"
    using assms(6,7,18) c by (cases "upload_dir ctype = ''/img/''") (auto simp: upload_dir_def intro!: missing_404 split: if_splits)
  ultimately show ?thesis by blast
qed

text \<open>A file system in memory, for the example: the files with their content.\<close>

definition mem_fs :: "(string \<times> string) list os" where
  "mem_fs =
     \<lparr>os_stat = \<lambda>p w. map_option (\<lambda>d. (Regular, int (length d))) (map_of w p),
      os_open = \<lambda>p w. (if map_of w p \<noteq> None then 7 else -1, w), os_lseek = \<lambda>fd off w. w,
      os_readdir = \<lambda>p w. Some (map (drop (length p)) (filter (\<lambda>q. take (length p) q = p) (map fst w))),
      os_write = \<lambda>p d w. (p, d) # filter (\<lambda>x. fst x \<noteq> p) w, os_remove = \<lambda>p w. filter (\<lambda>x. fst x \<noteq> p) w,
      os_template = \<lambda>w. filelist_label, db_update = \<lambda>q w. (True, w)\<rparr>"

theorem uploaded_file_life_witness:
  "setResponseBody mem_fs (new_HttpRequest\<lparr>rq_path := ''/upload'', m_string := ''data'' @ crlf @ dashes @ ''--'',
       rq_headers := [''Content-Disposition'' \<mapsto> disposition_of ''a.txt'', ''Content-Type'' \<mapsto> ''text/plain'']\<rparr>)
     \<lparr>workPath = ''/srv'', users = Map.empty\<rparr> (new_HttpResponse True) [] =
     Inr (\<lparr>workPath = ''/srv'', users = Map.empty\<rparr>, html_page page_upload_ok (new_HttpResponse True), [(''/srv/text/a.txt'', ''data'' @ crlf)]) \<and>
   setResponseBody mem_fs (new_HttpRequest\<lparr>rq_path := ''/delete/text/a.txt''\<rparr>)
     \<lparr>workPath = ''/srv'', users = Map.empty\<rparr> (new_HttpResponse True) [(''/srv/text/a.txt'', ''data'' @ crlf)] =
     Inr (\<lparr>workPath = ''/srv'', users = Map.empty\<rparr>, html_page page_delete_ok (new_HttpResponse True), [])"
proof -
  let ?fs = "\<lparr>workPath = ''/srv'', users = Map.empty\<rparr>" and ?w1 = "[(''/srv/text/a.txt'', ''data'' @ crlf)]"
  let ?up = "new_HttpRequest\<lparr>rq_path := ''/upload'', m_string := ''data'' @ crlf @ dashes @ ''--'',
       rq_headers := [''Content-Disposition'' \<mapsto> disposition_of ''a.txt'', ''Content-Type'' \<mapsto> ''text/plain'']\<rparr>"
  have up: "upload_request ''a.txt'' ''text/plain'' ''data'' ''--'' ?up" by (simp add: upload_request_def)
  have dir: "upload_dir ''text/plain'' = ''/text/''" by (simp add: upload_dir_def)
  have find: "str_find ''data'' dashes = None" "\<forall>k \<in> set [''/upload'', ''download'', ''delete'']. str_find (workPath ?fs) k = None"
    by (simp_all add: str_find_def dashes_def)
  have scan: "scan_ok mem_fs ?w1 (workPath ?fs @ ''/text/'')" "scan_ok mem_fs [] (workPath ?fs @ ''/text/'')"
    by (auto simp: scan_ok_def mem_fs_def fullname_size_def)
  note l = uploaded_file_life[where fs = ?fs and sys = mem_fs and w = "[]" and ?w1.0 = ?w1 and ?w2.0 = ?w1 and ?w3.0 = "[]" and fd = 7
      and res = "new_HttpResponse True" and close = True and path = "''/text/a.txt''" and
      get = "new_HttpRequest\<lparr>rq_path := ''/text/a.txt''\<rparr>" and dl = "new_HttpRequest\<lparr>rq_path := ''/download/text/a.txt''\<rparr>" and
      del = "new_HttpRequest\<lparr>rq_path := ''/delete/text/a.txt''\<rparr>", OF up find(1) _ _ find(2)]
  show ?thesis using l scan dir by (simp add: mem_fs_def getHeader_def new_HttpRequest_def crlf_def)
qed

end
