(* ===== verification/Server_Main.thy ===== *)
theory Server_Main
  imports File_Store Tcp_Server Connection_Pool Log_Backend
begin

text \<open>
  The file server as a whole: the members of \<open>FileServer\<close> around the request handler of \<open>File_Server\<close> (its
  \<open>TcpServer\<close>, the database connection it keeps), the singleton of \<open>ConnectionPool\<close>, and the set-up that
  \<open>src/src/http/main.cc\<close> performs before it enters the loop. Shown here: after it the server listens, and
  a login succeeds exactly with the credentials in the table of the database.
\<close>

section \<open>FileServer\<close>

text \<open>
  \<open>workPath_\<close> and \<open>users\<close> are the record of \<open>File_Server\<close>; the other members are the server and the
  connection, with its number in the pool, that the shared pointer \<open>conn\<close> holds.
\<close>

record 'r file_server =
  fso_handler :: FileServer
  fso_server :: TcpServer
  fso_conn :: "'r pooled option"

definition new_FileServer :: "bool \<Rightarrow> string \<Rightarrow> nat \<Rightarrow> InetAddress \<Rightarrow> string \<Rightarrow> Option \<Rightarrow> int \<Rightarrow> bool \<Rightarrow> addr \<Rightarrow> Poller \<Rightarrow>
    ('r file_server \<times> sock_call list \<times> Poller) result" where
  "new_FileServer loop_null path lp listenAddr name option fd bind_failed ch p =
     bind_r (new_TcpServer loop_null lp listenAddr name option fd bind_failed ch p) (\<lambda>(s, calls, p').
       Inr (\<lparr>fso_handler = \<lparr>workPath = path, users = Map.empty\<rparr>, fso_server = setThreadNum 8 s, fso_conn = None\<rparr>, calls, p'))"

definition setThreadNum_fs :: "int \<Rightarrow> 'r file_server \<Rightarrow> 'r file_server" where
  "setThreadNum_fs n s = s\<lparr>fso_server := setThreadNum n (fso_server s)\<rparr>"

definition getLoop_fs :: "'r file_server \<Rightarrow> nat" where
  "getLoop_fs s = ts_loop (fso_server s)"

text \<open>
  \<open>sql_pool\<close> takes a connection of the pool (\<open>None\<close>: it waits for one), which replaces the one it holds,
  and reads the rows of the result. \<open>rc\<close> and \<open>stored\<close> are the results of \<open>mysql_query\<close> and
  \<open>mysql_store_result\<close>, \<open>rows\<close> are the rows of a result.
\<close>

definition sql_pool_fs :: "int \<Rightarrow> 'r option \<Rightarrow> ('r \<Rightarrow> (string \<times> string) list) \<Rightarrow> int \<Rightarrow> 'r file_server \<Rightarrow> 'r ConnectionPool \<Rightarrow>
    ('r file_server \<times> 'r ConnectionPool) result option" where
  "sql_pool_fs rc stored rows now s pool =
     (case getConnection pool of None \<Rightarrow> None
      | Some ((i, c), pool1) \<Rightarrow>
          let pool2 = (case fso_conn s of None \<Rightarrow> pool1 | Some (j, old) \<Rightarrow> release now j old pool1);
              (calls, r, c1) = query rc stored c in
          Some (bind_r (sql_pool (map_option rows r) (fso_handler s)) (\<lambda>h.
            Inr (s\<lparr>fso_handler := h, fso_conn := Some (i, c1)\<rparr>, pool2))))"

text \<open>
  \<open>start\<close>, called in the thread of the base loop, where \<open>runInLoop\<close> runs \<open>Acceptor::listen\<close> at once. The
  first result is the text it logs.
\<close>

definition start_fs :: "bool \<Rightarrow> (nat \<Rightarrow> nat) \<Rightarrow> 'r file_server \<Rightarrow> Poller \<Rightarrow>
    (string \<times> 'r file_server \<times> sock_call list \<times> Poller) result" where
  "start_fs listen_failed new_loop s p =
     (let srv = fso_server s;
          msg = ''FileServer['' @ ts_name srv @ ''] starts listening on '' @ ipPort srv;
          (es, srv1) = start new_loop False srv in
      if es = [] then Inr (msg, s\<lparr>fso_server := srv1\<rparr>, [], p)
      else bind_r (listen_acceptor listen_failed (acceptor srv1) p) (\<lambda>(a, calls, p').
             Inr (msg, s\<lparr>fso_server := srv1\<lparr>acceptor := a\<rparr>\<rparr>, calls, p')))"

section \<open>The program\<close>

text \<open>The pool is a local static object: the first call constructs it.\<close>

definition getConnectionPool :: "int \<Rightarrow> conf \<Rightarrow> int \<Rightarrow> 'r ConnectionPool option \<Rightarrow> 'r ConnectionPool" where
  "getConnectionPool mem c now pool = (case pool of Some p \<Rightarrow> p | None \<Rightarrow> new_ConnectionPool mem c now)"

text \<open>
  \<open>main\<close> up to \<open>loop.loop()\<close>. The inputs are the program's name, the poller with the timer's channel in it,
  the descriptors and addresses of the two channels, the results of \<open>bind\<close> and \<open>listen\<close>, the loops of the
  threads, and what the database returns; \<open>later\<close> is what the threads of the pool have made of it when
  \<open>sql_pool\<close> gets its connection. The records it logs are those of \<open>Log_Backend\<close>.
\<close>

definition main_setup :: "string \<Rightarrow> LogGlobals \<Rightarrow> Poller option \<Rightarrow> int \<Rightarrow> addr \<Rightarrow> int \<Rightarrow> bool \<Rightarrow> bool \<Rightarrow> addr \<Rightarrow> (nat \<Rightarrow> nat) \<Rightarrow>
    ('r ConnectionPool \<Rightarrow> 'r ConnectionPool) \<Rightarrow> int \<Rightarrow> conf \<Rightarrow> int \<Rightarrow> int \<Rightarrow> 'r option \<Rightarrow> ('r \<Rightarrow> (string \<times> string) list) \<Rightarrow>
    (LogGlobals \<times> AsyncLogging option \<times> 'f EventLoop \<times> 'r file_server \<times> sock_call list \<times> 'r ConnectionPool) result option" where
  "main_setup argv0 g poller evfd wk fd bind_failed listen_failed ch new_loop later mem c now rc stored rows =
     (case setLogging argv0 g of Inl f \<Rightarrow> Some (Inl f) | Inr (g1, log) \<Rightarrow>
      case new_EventLoop False poller evfd wk of Inl f \<Rightarrow> Some (Inl f) | Inr l \<Rightarrow>
      case new_FileServer False ''/home/scs1/webfile'' 0 (new_InetAddress 8080 ''127.0.0.1'') ''file-server'' kNoReusePort
             fd bind_failed ch (el_poller l) of Inl f \<Rightarrow> Some (Inl f) | Inr (s, calls, p) \<Rightarrow>
      map_option (\<lambda>res. bind_r res (\<lambda>(s1, pool).
          bind_r (start_fs listen_failed new_loop s1 p) (\<lambda>(msg, s2, calls2, p2).
            Inr (g1, log, l\<lparr>el_poller := p2\<rparr>, s2, calls @ calls2, pool))))
        (sql_pool_fs rc stored rows now s (later (getConnectionPool mem c now None))))"

section \<open>Lemmas\<close>

text \<open>A new channel can be registered.\<close>

lemma add_channel:
  assumes "poller_inv p" "heap p a = None" "channels p fd = None"
  shows "\<exists>p'. channel_op False EnableReading a (p\<lparr>heap := (heap p)(a \<mapsto> setReadCallback (new_Channel fd))\<rparr>) = Inr p' \<and>
    poller_inv p' \<and> watched_mask a p' = mask_op EnableReading 0 \<and> (\<forall>b. b \<noteq> a \<longrightarrow> watched_mask b p' = watched_mask b p)"
proof -
  define p1 where "p1 = p\<lparr>heap := (heap p)(a \<mapsto> new_Channel fd)\<rparr>"
  define p2 where "p2 = p\<lparr>heap := (heap p)(a \<mapsto> setReadCallback (new_Channel fd))\<rparr>"
  have inv1: "poller_inv p1" using poller_step_inv[OF step_new[OF assms(2)] assms(1)] by (simp add: p1_def)
  have sr: "same_registration p1 p2" by (auto simp: same_registration_def p1_def p2_def setReadCallback_def)
  have "fd_free a p1" using assms(3) by (simp add: fd_free_def p1_def new_Channel_def)
  then have inv2: "poller_inv p2" "fd_free a p2"
    using sr inv1 same_registration_inv same_registration_masks(1) by blast+
  have "requested_mask a p2 = 0" "b \<noteq> a \<Longrightarrow> watched_mask b p2 = watched_mask b p" for b
    by (simp_all add: requested_mask_def watched_mask_def p2_def setReadCallback_def new_Channel_def cong: option.case_cong)
  then show ?thesis using ep.apply_ok[OF inv2, of EnableReading] by (auto simp: p2_def[symmetric])
qed

text \<open>The accounts read from the database: the last row of a name counts.\<close>

lemma foldl_upd_map_of: "foldl (\<lambda>m (u, pw). m(f u \<mapsto> g pw)) m0 rs = m0 ++ map_of (rev (map (\<lambda>(u, pw). (f u, g pw)) rs))"
  by (induction rs arbitrary: m0) (auto simp: map_add_def fun_eq_iff split: option.splits)

definition accounts :: "(string \<times> string) list \<Rightarrow> string \<rightharpoonup> string" where
  "accounts rs = map_of (rev (map (\<lambda>(u, pw). (c_str u, c_str pw)) rs))"

lemma sql_pool_accounts: "sql_pool (Some rs) fs = Inr (fs\<lparr>users := users fs ++ accounts rs\<rparr>)"
  by (simp add: sql_pool_def foldl_upd_map_of accounts_def)

lemma sql_pool_fs_ok:
  assumes "getConnection pool = Some (x, pool1)" "fso_conn s = None"
  shows "\<exists>s1. sql_pool_fs 0 (Some r) rows now s pool = Some (Inr (s1, pool1)) \<and> fso_server s1 = fso_server s \<and>
    fso_handler s1 = (fso_handler s)\<lparr>users := users (fso_handler s) ++ accounts (rows r)\<rparr>"
proof -
  obtain i c where x: "x = (i, c)" by fastforce
  obtain calls c1 where "query 0 (Some r) c = (calls, Some r, c1)"
    by (cases "mc_result c") (simp_all add: query_def freeResult_def)
  then show ?thesis using assms x by (simp add: sql_pool_fs_def sql_pool_accounts)
qed

lemma update_frame: "update d oper a c p = Inr p' \<Longrightarrow> heap p' = heap p \<and> channels p' = channels p"
  by (auto simp: update_def split: option.splits if_splits)

lemma channel_op_frame:
  assumes "channel_op d oper a p = Inr p'" "heap p a = Some c"
  shows "b \<noteq> a \<Longrightarrow> heap p' b = heap p b" "fd \<noteq> ch_fd c \<Longrightarrow> channels p' fd = channels p fd"
  using assms
  by (auto simp: channel_op_def updateChannel_def Let_def bind_r_eq_Inr split: if_splits dest!: update_frame)

lemma new_EventLoop_ok:
  assumes "poller_inv p" "heap p wk = None" "channels p evfd = None" "0 \<le> evfd"
  shows "\<exists>l. new_EventLoop False (Some p) evfd wk = Inr l \<and> poller_inv (el_poller l) \<and>
    (\<forall>b. b \<noteq> wk \<longrightarrow> heap (el_poller l) b = heap p b) \<and> (\<forall>fd. fd \<noteq> evfd \<longrightarrow> channels (el_poller l) fd = channels p fd)"
proof -
  obtain p' where p': "channel_op False EnableReading wk (p\<lparr>heap := (heap p)(wk \<mapsto> setReadCallback (new_Channel evfd))\<rparr>) = Inr p'"
      "poller_inv p'" using add_channel[OF assms(1-3)] by blast
  then show ?thesis using channel_op_frame[OF p'(1), of "setReadCallback (new_Channel evfd)"] assms(4)
    by (simp add: new_EventLoop_def createEventfd_def setReadCallback_def new_Channel_def)
qed

lemma start_fs_ok:
  assumes "new_FileServer False path lp (new_InetAddress port ip) name opt fd False ch p = Inr (s0, calls, p1)"
    and "poller_inv p" "heap p ch = None" "channels p fd = None" "fso_server s = fso_server s0"
  shows "\<exists>msg s1 calls1 p2. start_fs False new_loop s p1 = Inr (msg, s1, calls1, p2) \<and> fso_handler s1 = fso_handler s \<and> fso_conn s1 = fso_conn s \<and>
    server_inv (fso_server s1) \<and> ac_listening (acceptor (fso_server s1)) \<and> loops (threadPool (fso_server s1)) = map new_loop [0..<8] \<and>
    calls @ calls1 = [SysReuseAddr fd (opt = kReusePort), SysReusePort fd True, SysBind fd (new_InetAddress port ip), SysListen fd 1024] \<and>
    poller_inv p2 \<and> watched_mask ch p2 = mask_op EnableReading 0"
proof -
  obtain t where t: "new_TcpServer False lp (new_InetAddress port ip) name opt fd False ch p = Inr (t, calls, p1)" "fso_server s0 = setThreadNum 8 t"
    using assms(1) by (auto simp: new_FileServer_def bind_r_eq_Inr)
  define srv where "srv = snd (start new_loop False (setThreadNum 8 t))"
  have inv: "server_inv srv" unfolding srv_def by (rule new_TcpServer_inv[OF t(1)])
  have a: "acceptor t = \<lparr>ac_fd = fd, ac_channel = ch, ac_callback = True, ac_listening = False\<rparr>" "started t = 0"
      "threadPool t = new_EventLoopThreadPool lp name" "p1 = p\<lparr>heap := (heap p)(ch \<mapsto> setReadCallback (new_Channel fd))\<rparr>"
      "calls = [SysReuseAddr fd (opt = kReusePort), SysReusePort fd True, SysBind fd (new_InetAddress port ip)]"
    using t(1) by (auto simp: new_TcpServer_def new_Acceptor_def createNonblocking_def bindAddress_def setReuseAddr_def setReusePort_def
        setNewConnectionCallback_def bind_r_eq_Inr split: if_splits)
  have st: "start new_loop False (setThreadNum 8 t) = ([RunListen (ts_loop t)], srv)" "acceptor srv = acceptor t"
      "loops (threadPool srv) = map new_loop [0..<8]"
    using a(2,3) by (simp_all add: srv_def start_def setThreadNum_def start_pool_def new_EventLoopThreadPool_def setThreadNum_pool_def Let_def)
  obtain p2 where p2: "channel_op False EnableReading ch p1 = Inr p2" "poller_inv p2" "watched_mask ch p2 = mask_op EnableReading 0"
    using add_channel[OF assms(2-4)] unfolding a(4) by blast
  have nm: "conn_name (srv\<lparr>acceptor := x, nextConnId := i\<rparr>) = conn_name (srv\<lparr>nextConnId := i\<rparr>)" for x i by (rule conn_name_cong) simp_all
  have "server_inv (srv\<lparr>acceptor := x\<rparr>)" for x using inv by (simp add: server_inv_def nm)
  then show ?thesis using st p2 a(1,5) assms(5) t(2)
    by (simp add: start_fs_def Let_def listen_acceptor_def listen_socket_def)
qed

section \<open>Properties\<close>

text \<open>
  C19: the start of the program. With descriptors and addresses nobody uses, a pool that has a free
  connection in whatever state its threads have brought it to, and a query that succeeds, the
  set-up returns: the log is the output of \<open>Logger\<close>, port 8080 is bound and listened on, the
  accepting channel is watched for reading in the poller of the base loop, connections will be
  given to eight loops, and one connection of the pool is lent to the server. From then on a login
  shows the file list exactly when the last row of that name in the table has that password.
\<close>

theorem server_startup:
  assumes "length (c_str argv0) < 256" "poller_inv p0" "heap p0 wk = None" "heap p0 ch = None" "wk \<noteq> ch"
      "0 \<le> evfd" "0 \<le> fd" "evfd \<noteq> fd" "channels p0 evfd = None" "channels p0 fd = None"
    and "cp_reach mem c t (later (getConnectionPool mem c now None))" "connectionQueue (later (getConnectionPool mem c now None)) = x # q"
    and "plain_field name" "plain_field pw" "length name < 100" "length pw < 100"
      "m_string req = form_body name pw" "rq_path req = ''/2CGISQL.cgi''" "os_stat sys ''/home/scs1/webfile/2CGISQL.cgi'' w = None"
  shows "\<exists>log (l :: 'f EventLoop) s calls pool. main_setup argv0 g (Some p0) evfd wk fd False False ch new_loop later mem c now 0 (Some (r :: 'r)) rows =
      Some (Inr (setOutput 1 g, Some log, l, s, calls, pool)) \<and>
    al_running log \<and> ac_listening (acceptor (fso_server s)) \<and> server_inv (fso_server s) \<and>
    SysBind fd (new_InetAddress 8080 ''127.0.0.1'') \<in> set calls \<and> SysListen fd 1024 \<in> set calls \<and>
    poller_inv (el_poller l) \<and> watched_mask ch (el_poller l) = mask_op EnableReading 0 \<and>
    loops (threadPool (fso_server s)) = map new_loop [0..<8] \<and>
    cp_reach mem c t pool \<and> map fst (cp_lent pool) = fst x # map fst (cp_lent (later (getConnectionPool mem c now None))) \<and>
    users (fso_handler s) = accounts (rows r) \<and>
    setResponseBody sys req (fso_handler s) res w =
      (if accounts (rows r) name = Some pw
       then bind_r (getFileListPage sys w ''/home/scs1/webfile'') (\<lambda>html. Inr (fso_handler s, html_page html res, w))
       else Inr (fso_handler s, html_page page_signin_retry res, w))"
proof -
  define log where "log = start_async kLargeBuffer (new_AsyncLogging (new_SourceFile (c_str argv0)) kRollSize 3 kLargeBuffer)"
  have sl: "setLogging argv0 g = Inr (setOutput 1 g, Some log)" "al_running log"
    using assms(1) by (simp_all add: setLogging_def log_def start_async_def)
  obtain l :: "'f EventLoop" where l: "new_EventLoop False (Some p0) evfd wk = Inr l" "poller_inv (el_poller l)"
      "heap (el_poller l) ch = None" "channels (el_poller l) fd = None"
    using new_EventLoop_ok[OF assms(2,3,9,6)] assms(4,5,8,10) by metis
  have "\<exists>t calls p. new_TcpServer False 0 (new_InetAddress 8080 ''127.0.0.1'') ''file-server'' kNoReusePort fd False ch (el_poller l) = Inr (t, calls, p)"
    using toIpPort_new[of 8080] assms(7) by (simp add: new_TcpServer_def new_Acceptor_def createNonblocking_def bindAddress_def)
  then obtain s0 :: "'r file_server" and calls p where s0: "new_FileServer False ''/home/scs1/webfile'' 0 (new_InetAddress 8080 ''127.0.0.1'') ''file-server'' kNoReusePort
      fd False ch (el_poller l) = Inr (s0, calls, p)" "fso_handler s0 = \<lparr>workPath = ''/home/scs1/webfile'', users = Map.empty\<rparr>" "fso_conn s0 = None"
    by (auto simp: new_FileServer_def)
  let ?later = "later (getConnectionPool mem c now None)"
  define pool where "pool = ?later\<lparr>connectionQueue := q, cp_lent := x # cp_lent ?later\<rparr>"
  have gc: "getConnection ?later = Some (x, pool)" using assms(12) by (simp add: getConnection_def pool_def)
  define h where "h = \<lparr>workPath = ''/home/scs1/webfile'', users = accounts (rows r)\<rparr>"
  obtain s1 where s1: "sql_pool_fs 0 (Some r) rows now s0 ?later = Some (Inr (s1, pool))" "fso_server s1 = fso_server s0" "fso_handler s1 = h"
    using sql_pool_fs_ok[OF gc s0(3), of r rows now] s0(2) by (auto simp: h_def)
  obtain msg s2 calls2 p2 where s2: "start_fs False new_loop s1 p = Inr (msg, s2, calls2, p2)" "fso_handler s2 = h" "server_inv (fso_server s2)"
      "ac_listening (acceptor (fso_server s2))" "loops (threadPool (fso_server s2)) = map new_loop [0..<8]"
      "calls @ calls2 = [SysReuseAddr fd False, SysReusePort fd True, SysBind fd (new_InetAddress 8080 ''127.0.0.1''), SysListen fd 1024]"
      "poller_inv p2" "watched_mask ch p2 = mask_op EnableReading 0"
    using start_fs_ok[OF s0(1) l(2-4) s1(2), of new_loop] s1(3) by auto
  have m: "main_setup argv0 g (Some p0) evfd wk fd False False ch new_loop later mem c now 0 (Some r) rows =
      Some (Inr (setOutput 1 g, Some log, l\<lparr>el_poller := p2\<rparr>, s2, calls @ calls2, pool))"
    using sl l(1) s0(1) s1(1) s2(1) by (simp add: main_setup_def)
  have "cp_reach mem c t pool" using cp_get[OF assms(11) gc] .
  moreover have "SysBind fd (new_InetAddress 8080 ''127.0.0.1'') \<in> set (calls @ calls2)" "SysListen fd 1024 \<in> set (calls @ calls2)"
    unfolding s2(6) by simp_all
  moreover have "map fst (cp_lent pool) = fst x # map fst (cp_lent ?later)" by (simp add: pool_def)
  moreover have "users (fso_handler s2) = accounts (rows r)" by (simp add: s2(2) h_def)
  moreover have "setResponseBody sys req h res w = respond_login sys name pw h res w"
    using setResponseBody_form[of sys h req w "CHR ''/''" "CHR ''2''" "''CGISQL.cgi''" res] assms(13-19)
    by (simp add: respond_form_def parse_form_ok field_size_def h_def c_str_def)
  then have "setResponseBody sys req (fso_handler s2) res w = (if accounts (rows r) name = Some pw
       then bind_r (getFileListPage sys w ''/home/scs1/webfile'') (\<lambda>html. Inr (fso_handler s2, html_page html res, w))
       else Inr (fso_handler s2, html_page page_signin_retry res, w))"
    unfolding s2(2) by (simp add: respond_login_def h_def)
  moreover have "poller_inv (el_poller (l\<lparr>el_poller := p2\<rparr>))" "watched_mask ch (el_poller (l\<lparr>el_poller := p2\<rparr>)) = mask_op EnableReading 0"
    using s2(7,8) by simp_all
  ultimately show ?thesis using m sl(2) s2(3,4,5)
    by - (rule exI[of _ log], rule exI[of _ "l\<lparr>el_poller := p2\<rparr>"], rule exI[of _ s2], rule exI[of _ "calls @ calls2"],
        rule exI[of _ pool], intro conjI; assumption)
qed

text \<open>A name that has two rows: the password of the first one no longer works.\<close>

theorem server_startup_witness:
  "\<exists>log (l :: unit EventLoop) s calls pool.
     main_setup ''/usr/bin/server'' init_LogGlobals (Some \<lparr>heap = Map.empty, channels = Map.empty, interest = Map.empty, events_size = 16\<rparr>)
       3 1 4 False False 2 (\<lambda>i. i + 1) (\<lambda>p. p) 0
       \<lparr>conf_ip = ''127.0.0.1'', conf_userName = ''u'', conf_password = ''p'', conf_dbName = ''d'', conf_port = 3306, conf_timeout = 1000,
        conf_minSize = 1, conf_maxSize = 8, conf_maxIdleTime = 5000\<rparr> 0 0 (Some ()) (\<lambda>_. [(''ann'', ''old''), (''ann'', ''new'')]) =
       Some (Inr (setOutput 1 init_LogGlobals, Some log, l, s, calls, pool)) \<and>
     ac_listening (acceptor (fso_server s)) \<and>
     setResponseBody mem_fs (new_HttpRequest\<lparr>m_string := form_body ''ann'' ''old'', rq_path := ''/2CGISQL.cgi''\<rparr>)
       (fso_handler s) (new_HttpResponse True) [] = Inr (fso_handler s, html_page page_signin_retry (new_HttpResponse True), [])"
proof -
  let ?p = "\<lparr>heap = Map.empty, channels = Map.empty, interest = Map.empty, events_size = 16\<rparr> :: Poller"
  let ?c = "\<lparr>conf_ip = ''127.0.0.1'', conf_userName = ''u'', conf_password = ''p'', conf_dbName = ''d'', conf_port = 3306, conf_timeout = 1000,
        conf_minSize = 1, conf_maxSize = 8, conf_maxIdleTime = 5000\<rparr>"
  let ?rows = "\<lambda>_ :: unit. [(''ann'', ''old''), (''ann'', ''new'')]"
  let ?req = "new_HttpRequest\<lparr>m_string := form_body ''ann'' ''old'', rq_path := ''/2CGISQL.cgi''\<rparr>"
  define pool :: "unit ConnectionPool" where "pool = getConnectionPool 0 ?c 0 None"
  have g: "cp_reach 0 ?c 0 pool" by (simp add: pool_def getConnectionPool_def cp_init)
  obtain x q where q: "connectionQueue pool = x # q"
    by (simp add: pool_def getConnectionPool_def new_ConnectionPool_def parseJsonFile_def add_counted_def addConnection_def Let_def)
  have i: "length (c_str ''/usr/bin/server'') < 256" "poller_inv ?p" "heap ?p 1 = None" "heap ?p 2 = None" "(1 :: nat) \<noteq> 2"
      "(0 :: int) \<le> 3" "(0 :: int) \<le> 4" "(3 :: int) \<noteq> 4" "channels ?p 3 = None" "channels ?p 4 = None"
    by (simp_all add: c_str_def poller_inv_def)
  have f: "plain_field ''ann''" "plain_field ''old''" "length ''ann'' < 100" "length ''old'' < 100"
      "m_string ?req = form_body ''ann'' ''old''" "rq_path ?req = ''/2CGISQL.cgi''" "os_stat mem_fs ''/home/scs1/webfile/2CGISQL.cgi'' [] = None"
    by (simp_all add: plain_field_def mem_fs_def)
  have a: "accounts (?rows ()) ''ann'' \<noteq> Some ''old''" by (simp add: accounts_def c_str_def)
  from server_startup[where later = "\<lambda>p. p" and rows = ?rows and r = "()" and g = init_LogGlobals and new_loop = "\<lambda>i. i + 1" and
      res = "new_HttpResponse True", OF i g[unfolded pool_def] q[unfolded pool_def] f]
  show ?thesis using a by (elim exE conjE) (intro exI conjI; simp)
qed

end
