(* ===== verification/Spec2Isabelle.thy ===== *)
theory Spec2Isabelle
  imports Prelude Net_Buffer Http_Request Http_Context Http_Response EPoll_Poller Event_Loop Tcp_Connection File_Server Http_Server Timer_Queue Loop_Pool Tcp_Server Pool_Regions Thread_Pool Async_Log Connection_Pool Conn_Events Conn_Frame Server_Loops Echo_Server Log_Backend File_Store Server_Main
begin

text \<open>
  \<^bold>\<open>A verified model of MyFileServer\<close>

  MyFileServer is a multi-threaded C++ network library (a reactor on \<open>epoll\<close>) with an HTTP server, a
  file server, a logger, a memory pool and a MySQL connection pool on top of it. Every theory below
  translates the files under \<open>src/src/\<close> it names and proves what makes them correct.

  \<^bold>\<open>How the program works.\<close> A \<open>TcpServer\<close> listens with an \<open>Acceptor\<close> on its base loop and gives each
  accepted descriptor to a loop of its \<open>EventLoopThreadPool\<close>. An \<open>EventLoop\<close> waits in its \<open>EPollPoller\<close>,
  dispatches events to \<open>Channel\<close>s, runs expired timers and then the functors other threads queued,
  which reach it through an \<open>eventfd\<close>. A \<open>TcpConnection\<close> reads into and writes from a \<open>Buffer\<close>. For HTTP,
  \<open>HttpContext\<close> parses the input buffer into an \<open>HttpRequest\<close>, the handler (\<open>HttpServer\<close> with a callback,
  or \<open>FileServer\<close>) fills an \<open>HttpResponse\<close>, which is serialised, sent and followed by a shutdown.
  Messages go through \<open>LogStream\<close> and \<open>Logger\<close> to \<open>AsyncLogging\<close>, whose thread writes a \<open>LogFile\<close>.

  \<^bold>\<open>Conventions\<close> (theory \<open>Prelude\<close>). A struct is a record, an enum a datatype, a pointer an address into
  an explicit store or an index into its array. An operation that can go wrong returns
  \<open>fault + value\<close>: reads and writes outside an array, null or freed pointers, uncaught exceptions,
  \<open>abort\<close> and endless loops are values of the model, so \<open>= Inr x\<close> says that none of them happens.
  Results of system calls, of the clock, of other libraries and of user callbacks are arguments.
  Bytes are \<open>char\<close>; event masks, ports and counters that wrap are words; \<open>size_t\<close> and \<open>int\<close> conversions
  are written out (\<open>wrap64\<close>, \<open>to_int32\<close>) where they matter. Calls with an effect outside the modelled
  state are lists of effects, in order. Threads are step relations whose steps are the sections a
  mutex makes atomic, and the properties are invariants of all reachable states.

  \<^bold>\<open>Theories and what they show\<close>

  \<^item> \<open>Net_Buffer\<close> (\<open>net/Buffer.*\<close>): the growable buffer refines a byte queue; \<open>readFd\<close> and \<open>findCRLF\<close> are
    exact. Interfaces: \<open>byte_queue\<close> and, extending it, \<open>line_queue\<close>, which carry the parser, the
    serialiser and the connection.
  \<^item> \<open>Http_Request\<close>, \<open>Http_Context\<close>, \<open>Http_Response\<close> (\<open>http/HttpRequest.h\<close>, \<open>HttpContext.*\<close>, \<open>HttpResponse.*\<close>):
    parsing inverts printing, in both directions of the protocol; on any input but a POST the parser
    returns without a fault. What the parser does with POST bodies, uploads and resumed requests is
    stated as it is.
  \<^item> \<open>Net_Channel\<close>, \<open>EPoll_Poller\<close> (\<open>net/Channel.*\<close>, \<open>net/poller/*\<close>): the kernel's interest list is kept equal to
    the masks requested and no \<open>epoll_ctl\<close> call fails; \<open>poll\<close> reports registered channels only.
    Interface: \<open>event_registry\<close>.
  \<^item> \<open>Task_Fifo\<close>: the contract \<open>task_fifo\<close> of a queue of tasks, interpreted on the functor queue of
    \<open>Event_Loop\<close> and on the queue of \<open>Thread_Pool\<close>.
  \<^item> \<open>Event_Loop\<close> (\<open>net/EventLoop.*\<close>): functors from any thread run once, in order and within a bounded number
    of the loop thread's steps unless the loop is quit, and no wakeup is lost.
  \<^item> \<open>Tcp_Connection\<close> (\<open>net/TcpConnection.*\<close>): everything sent reaches the wire in order, whatever the kernel
    takes at a time; shutdown waits for the output and then closes once; teardown happens once. Interface:
    \<open>stream_out\<close>.
  \<^item> \<open>Conn_Events\<close> (\<open>net/Channel.cc\<close> with \<open>net/TcpConnection.cc\<close>): the events of a connection from what \<open>epoll\<close>
    reports to the handlers, with calls of other threads and the functors they leave; whatever is
    reported and returned, the connection stays well-formed, for pieces below 2 GiB and strings that
    are still alive.
  \<^item> \<open>Echo_Server\<close> (\<open>example/echoServer.cc\<close>): on top of them, the echo server implements the abstract
    service that sends every byte back once and in order.
  \<^item> \<open>Html_Pages\<close>, \<open>File_Server\<close>, \<open>Http_Server\<close> (\<open>http/FileServer.*\<close>, \<open>http/HttpServer.*\<close>): requests end to end,
    ranges, registration and login, and the overflows of the form handler.
  \<^item> \<open>File_Store\<close> (\<open>http/FileServer.cc\<close> over several requests): an uploaded file from its storing over its
    serving to its deletion.
  \<^item> \<open>Server_Main\<close> (\<open>http/main.cc\<close>, the members of \<open>FileServer\<close>): what \<open>main\<close> sets up before the loop; then the
    server listens and logins succeed exactly with what the database holds.
  \<^item> \<open>Base_Timestamp\<close>, \<open>Timer_Queue\<close> (\<open>base/Timestamp.*\<close>, \<open>timer/*\<close>): a timer event runs exactly what has expired
    and arms the descriptor for what is left; callbacks act on the queue and on the rest of the program.
    Interface: \<open>due_queue\<close>.
  \<^item> \<open>Net_Address\<close>, \<open>Loop_Pool\<close>, \<open>Tcp_Server\<close> (\<open>net/InetAddress.*\<close>, \<open>Socket.*\<close>, \<open>EventLoopThread*.*\<close>, \<open>Acceptor.*\<close>,
    \<open>TcpServer.*\<close>): loops are served in turn; connections are kept under distinct names.
  \<^item> \<open>Conn_Frame\<close>: every operation of a connection works on its own channel and descriptor only, and reports
    its end at most once.
  \<^item> \<open>Server_Loops\<close> (\<open>net/TcpServer.cc\<close> with \<open>net/TcpConnection.cc\<close> and \<open>net/EventLoop.cc\<close>): the server with the queues and
    pollers of all its loops. For every interleaving of accepts, functors, events and user calls each
    connection goes through its phases once, no freed connection is used, and the queues run empty
    with exactly the open connections left. The loops interleave at the granularity of functors and
    events; the functor that destroys a connection holds its last reference.
  \<^item> \<open>Memory_Pool\<close>, \<open>Pool_Small_Blocks\<close>, \<open>Pool_Regions\<close> (\<open>memory/MemoryPool.*\<close>): the regions handed out are
    aligned, in bounds, apart from each other and from the pool's own nodes, and every operation
    returns, while the fields of new pages that the code never initialises hold harmless values; what
    happens with other values is shown by runs that end in overlapping regions and in a wild pointer.
    Destroying a pool of two pages reads freed memory.
  \<^item> \<open>Thread_Pool\<close> (\<open>base/CurrentThread.*\<close>, \<open>Thread.*\<close>, \<open>ThreadPool.*\<close>): no task is lost or run twice, and a
    stopped pool drains.
  \<^item> \<open>Log_Sink\<close>: the contract \<open>log_sink\<close> of everything log text is given to, interpreted on the file, the
    rolling log file and the asynchronous log.
  \<^item> \<open>Log_Stream\<close>, \<open>Async_Log\<close>, \<open>Log_Backend\<close> (\<open>logger/*\<close>, \<open>http/main.cc\<close>): integer formatting is decimal notation; the
    layout of a log record; the asynchronous log keeps every line shorter than a buffer in order with no
    null buffer, also when it is stopped during the wait, and the files hold what its thread has
    written; a logging statement from its record to the log.
  \<^item> \<open>Connection_Pool\<close> (\<open>mysql/MysqlConn.*\<close>, \<open>ConnectionPool.*\<close>): every connection is in exactly one place,
    the recycler respects its bounds, and what the size counter really counts.
  \<^item> This theory: the HTTP server through parser, callback, serialiser and connection.

  \<^bold>\<open>Fuel and termination.\<close> The loops of the parser, the buffers, the recycler and the formatting are
  functions with termination proofs. The loops of the memory pool follow links in the store and so
  have fuel: \<open>Pool_Regions\<close> proves that, from the number of nodes on, every amount of fuel gives a
  result, and the properties hold for every such amount. The loop of \<open>FileUtil::append\<close> depends on
  what \<open>fwrite\<close> returns and follows the list of its results.

  \<^bold>\<open>Not modelled.\<close> The kernel, libc, the MySQL client and the JSON library (\<open>mysql/json.hpp\<close>, third party) are
  arguments; \<open>Callback.h\<close> and \<open>noncopyable.h\<close> have no behaviour; \<open>include/\<close> holds copies of headers and a
  third-party stopwatch that nothing includes; tests and build files are not part of the program.
  Memory ordering below the level of mutex sections and the printing of floating-point numbers are
  left out; debugging output to \<open>std::cout\<close> is left out except for what its evaluation reads. The records
  the objects log while \<open>main\<close> builds them are not followed one by one: \<open>Log_Backend\<close> treats a logging
  statement in any state of the log.
\<close>

section \<open>Properties that span components\<close>

text \<open>The parser's result on a complete request without a body, with the context of a new message.\<close>

lemma parse_fresh_request:
  assumes "wf_line m path qs v" "\<forall>x \<in> set hs. wf_header x" "m \<noteq> kPost" "buffer_inv b"
    and "content b = render_line m path qs v @ crlf @ render_headers hs @ rest"
  shows "\<exists>b'. parseRequest t new_HttpContext b =
      Inr (True, new_HttpContext\<lparr>ctx_state := kGotAll,
             ctx_request := parsed_request m path qs v hs t new_HttpRequest\<rparr>, b') \<and>
    buffer_inv b' \<and> content b' = rest"
  using parse_loop_request[OF assms(1,2,4) _ assms(5), of new_HttpContext t] assms(3)
  by (auto simp: parse_loop_body parse_body_def parsed_request_def new_HttpContext_def)

text \<open>
  C16: the HTTP server from the bytes of a request to the bytes of the answer, through the parser,
  the callback, the serialiser and the connection. A complete request with a method other than POST
  that arrives on an open connection is handed to the callback exactly as it was sent, and the bytes
  behind the request stay in the input buffer. Whatever part of the answer the kernel takes at once,
  and whatever output still waits from before, the bytes accepted for sending grow by exactly the
  bytes of the response, in order; an idle connection whose \<open>write\<close> takes everything has them on the
  wire at once. The write side is shut down exactly when the response closes the connection and the
  last byte is out: at once when nothing waits, or else by the writability event that sends the last
  byte, and then once.
\<close>

theorem http_server_answers:
  assumes "conn_inv c p" "tc_state c = kConnected" "writing c p \<longleftrightarrow> content (tc_out c) \<noteq> []"
    and "wf_line m path qs v" "\<forall>x \<in> set hs. wf_header x" "m \<noteq> kPost"
      "content (tc_in c) = render_line m path qs v @ crlf @ render_headers hs @ rest"
    and "r = httpCallback h (parsed_request m path qs v hs t new_HttpRequest) (new_HttpResponse True)"
      "bytes = concat (response_pieces (order (rs_headers r)) r)" "length bytes < 2 ^ 31"
    and "write_valid wr (length bytes)" "writerIndex (tc_out c) + length bytes \<le> vector_max_size"
  shows "\<exists>c' p' es. onMessage_http order h wr400 wr t c p = Inr (c', p', es) \<and>
    stream c' = stream c @ bytes \<and> content (tc_in c') = rest \<and>
    tc_state c' = (if closeConnection r then kDisconnecting else kConnected) \<and>
    (content (tc_out c) = [] \<and> wr = WriteOk (length bytes) \<longrightarrow> tc_wire c' = tc_wire c @ bytes \<and> content (tc_out c') = []) \<and>
    (\<forall>ns. sum_list ns \<le> length (content (tc_out c')) \<longrightarrow>
      (\<exists>c'' p'' es'. run_writes ns c' p' = Inr (c'', p'', es') \<and>
        tc_wire c'' @ drop (sum_list ns) (content (tc_out c')) = stream c @ bytes \<and>
        content (tc_out c'') = drop (sum_list ns) (content (tc_out c')) \<and>
        count_list (es @ es') ShutdownWrite = (if closeConnection r \<and> content (tc_out c'') = [] then 1 else 0)))"
proof -
  define req where "req = parsed_request m path qs v hs t new_HttpRequest"
  have ib: "buffer_inv (tc_in c)" using assms(1) by (simp add: conn_inv_def)
  obtain b' where b': "parseRequest t new_HttpContext (tc_in c) =
      Inr (True, new_HttpContext\<lparr>ctx_state := kGotAll, ctx_request := req\<rparr>, b')" "buffer_inv b'" "content b' = rest"
    using parse_fresh_request[OF assms(4-6) ib assms(7), of t] unfolding req_def by blast
  define c1 where "c1 = c\<lparr>tc_in := b'\<rparr>"
  have i1: "conn_inv c1 p" "tc_state c1 = kConnected" "tc_state c1 \<noteq> kDisconnected" "writing c1 p \<longleftrightarrow> content (tc_out c1) \<noteq> []"
      "writerIndex (tc_out c1) + length bytes \<le> vector_max_size" "stream c1 = stream c"
    using assms(1-3,12) b' by (simp_all add: c1_def conn_inv_def stream_def)
  obtain c2 p2 e2 where s2: "sendInLoop wr bytes c1 p = Inr (c2, p2, e2)" "conn_inv c2 p2" "stream c2 = stream c @ bytes"
      "tc_state c2 = kConnected"
    using sendInLoop_ok[OF i1(1,3) assms(11,10) i1(5)] i1(2,6) by auto
  have f2: "writing c2 p2 \<longleftrightarrow> content (tc_out c2) \<noteq> []" "tc_in c2 = b'" "ShutdownWrite \<notin> set e2"
      "content (tc_out c) = [] \<and> wr = WriteOk (length bytes) \<longrightarrow> content (tc_out c2) = []"
    using sendInLoop_waits[OF i1(1,3) assms(11,10) i1(5,4) s2(1)] by (auto simp: c1_def)
  obtain buf where buf: "appendToBuffer (order (rs_headers r)) r (new_Buffer kInitialSize) = Inr buf"
      "send_buffer True wr buf c1 p = Inr (retrieveAll buf, [], c2, p2, e2)"
    using send_response_eq[OF i1(2) assms(9,10), of wr p] s2(1) by auto
  define c3 where "c3 = (if closeConnection r then setState kDisconnecting c2 else c2)"
  define e3 where "e3 = (if closeConnection r \<and> content (tc_out c2) = [] then [ShutdownWrite] else [])"
  have r: "httpCallback h req (new_HttpResponse True) = r" using assms(8) by (simp add: req_def)
  have m: "onMessage_http order h wr400 wr t c p = Inr (c3, p2, e2 @ e3)"
    using b'(1) buf r shutdown_now[OF s2(2,4)] f2(1)
    by (simp add: onMessage_http_def onRequest_http_def gotAll_def c1_def[symmetric]) (simp add: c3_def e3_def)
  have c3: "conn_inv c3 p2" "tc_out c3 = tc_out c2" "tc_in c3 = b'" "stream c3 = stream c @ bytes"
      "tc_state c3 = (if closeConnection r then kDisconnecting else kConnected)" "writing c3 p2 = writing c2 p2"
    using s2 f2(2) shutdown_now[OF s2(2,4)] by (auto simp: c3_def setState_def stream_def writing_def)
  have c0: "count_list (e2 @ e3) ShutdownWrite = (if closeConnection r \<and> content (tc_out c3) = [] then 1 else 0)"
    using f2(3) c3(2) by (simp add: e3_def count_list_append count_notin)
  have "\<exists>c'' p'' es'. run_writes ns c3 p2 = Inr (c'', p'', es') \<and>
      tc_wire c'' @ drop (sum_list ns) (content (tc_out c3)) = stream c @ bytes \<and>
      content (tc_out c'') = drop (sum_list ns) (content (tc_out c3)) \<and>
      count_list ((e2 @ e3) @ es') ShutdownWrite = (if closeConnection r \<and> content (tc_out c'') = [] then 1 else 0)"
    if n: "sum_list ns \<le> length (content (tc_out c3))" for ns
  proof -
    have pre: "tc_state c3 \<noteq> kDisconnected" "content (tc_out c3) = [] \<Longrightarrow> \<not> writing c3 p2" using c3 f2(1) by auto
    obtain c'' p'' es' where w: "run_writes ns c3 p2 = Inr (c'', p'', es')"
        "tc_wire c'' = tc_wire c3 @ take (sum_list ns) (content (tc_out c3))"
        "content (tc_out c'') = drop (sum_list ns) (content (tc_out c3))"
        "count_list es' ShutdownWrite = (if tc_state c3 = kDisconnecting \<and> content (tc_out c3) \<noteq> [] \<and>
           sum_list ns = length (content (tc_out c3)) then 1 else 0)"
      using run_writes_ok[OF c3(1) pre n] by blast
    have "tc_wire c'' @ drop (sum_list ns) (content (tc_out c3)) = stream c @ bytes"
      using w(2) c3(4) by (simp add: stream_def)
    moreover have "count_list ((e2 @ e3) @ es') ShutdownWrite = (if closeConnection r \<and> content (tc_out c'') = [] then 1 else 0)"
      unfolding count_list_append c0[unfolded count_list_append] w(3,4) using c3(5) n by auto
    ultimately show ?thesis using w(1,3) by blast
  qed
  moreover have "content (tc_out c) = [] \<and> wr = WriteOk (length bytes) \<longrightarrow> tc_wire c3 = tc_wire c @ bytes \<and> content (tc_out c3) = []"
    using f2(4) c3(2,4) by (auto simp: stream_def)
  ultimately show ?thesis using m c3(3-5) b'(3) by blast
qed

text \<open>
  The default callback answers \<open>404 Not Found\<close> and closes; here the kernel takes nine bytes, and the
  rest with the next writability event.
\<close>

theorem http_server_answers_witness:
  "\<exists>c c' c'' :: TcpConnection. \<exists>p p' p'' h es es' k.
     content (tc_in c) = render_line kGet ''/a'' [] kHttp11 @ crlf @ render_headers [(''Host'', ''h'')] @ ''next'' \<and>
     httpCallback h = defaultHttpCallback \<and>
     onMessage_http key_order h (WriteOk 0) (WriteOk 9) 0 c p = Inr (c', p', es) \<and>
     content (tc_in c') = ''next'' \<and> tc_state c' = kDisconnecting \<and>
     run_writes [k] c' p' = Inr (c'', p'', es') \<and> count_list (es @ es') ShutdownWrite = 1 \<and> content (tc_out c'') = []"
proof -
  obtain c0 p where c0: "conn_inv c0 p" "tc_state c0 = kConnected" "content (tc_out c0) = []"
      "\<not> writing c0 p" "writerIndex (tc_out c0) = 8"
    using example_connection by blast
  define hs where "hs = [(''Host'', ''h'')]"
  define req where "req = render_line kGet ''/a'' [] kHttp11 @ crlf @ render_headers hs @ ''next''"
  define c where "c = c0\<lparr>tc_in := buffer_of req\<rparr>"
  have "buffer_inv (buffer_of req)"
    by (simp add: req_def hs_def render_line_def version_string_def render_headers_def render_header_def crlf_def)
  then have i: "conn_inv c p" "tc_state c = kConnected" "writing c p \<longleftrightarrow> content (tc_out c) \<noteq> []"
    using c0 by (simp_all add: c_def conn_inv_def)
  obtain h :: HttpServer where h: "httpCallback h = defaultHttpCallback" by (metis HttpServer.select_convs(2))
  define r where "r = httpCallback h (parsed_request kGet ''/a'' [] kHttp11 hs 0 new_HttpRequest) (new_HttpResponse True)"
  define bytes where "bytes = concat (response_pieces (key_order (rs_headers r)) r)"
  have r: "closeConnection r" "rs_headers r = Map.empty" "statusMessage r = ''Not Found''" "rs_body r = []" "statusCode r = k404NotFound"
    by (simp_all add: r_def h defaultHttpCallback_def setCloseConnection_def setStatusMessage_def setStatusCode_def new_HttpResponse_def)
  have len: "length bytes < 2 ^ 31" "write_valid (WriteOk 9) (length bytes)" "writerIndex (tc_out c) + length bytes \<le> vector_max_size"
    using c0(5) by (simp_all add: bytes_def response_pieces_def key_order_def r status_prefix_def c_def vector_max_size_def)
  have line: "wf_line kGet ''/a'' [] kHttp11" by (simp add: wf_line_def CR_def)
  have hdr: "\<forall>x \<in> set hs. wf_header x" by (simp add: hs_def wf_header_def CR_def isspace_def)
  have cont: "content (tc_in c) = req" by (simp add: c_def)
  obtain c' p' es where m: "onMessage_http key_order h (WriteOk 0) (WriteOk 9) 0 c p = Inr (c', p', es)"
      "content (tc_in c') = ''next''" "tc_state c' = kDisconnecting"
      "\<forall>ns. sum_list ns \<le> length (content (tc_out c')) \<longrightarrow>
      (\<exists>c'' p'' es'. run_writes ns c' p' = Inr (c'', p'', es') \<and>
        tc_wire c'' @ drop (sum_list ns) (content (tc_out c')) = stream c @ bytes \<and>
        content (tc_out c'') = drop (sum_list ns) (content (tc_out c')) \<and>
        count_list (es @ es') ShutdownWrite = (if closeConnection r \<and> content (tc_out c'') = [] then 1 else 0))"
    using http_server_answers[where order = key_order and ?wr400.0 = "WriteOk 0" and t = 0,
        OF i line hdr _ cont[unfolded req_def] r_def bytes_def len] r(1) by auto
  obtain c'' p'' es' where "run_writes [length (content (tc_out c'))] c' p' = Inr (c'', p'', es')"
      "content (tc_out c'') = []" "count_list (es @ es') ShutdownWrite = 1"
    using m(4)[rule_format, of "[length (content (tc_out c'))]"] r(1) by auto
  then show ?thesis using m(1-3) cont h unfolding req_def hs_def by blast
qed

end
